(* ===== verification/KV_Prelude.thy ===== *)
theory KV_Prelude
  imports Main "HOL-Library.Word" "HOL-Library.Char_ord" "HOL-Library.List_Lexorder"
    "HOL-Library.Sublist"
begin

text \<open>
  What the components of the KV/Raft store share.

  The first group is the way the C++ fails: exceptions, failed \<open>myAssert\<close> calls (which end
  the process), calls of \<open>exit\<close>, reads the language leaves undefined and loops that do not end are values of \<open>exn\<close>; a routine that
  may fail returns \<open>exn + result\<close>, a routine that may fail after it has changed its object
  returns the changed object beside the failure.
  The second group models \<open>std::map\<close> by association lists in strictly increasing key order
  (the order in which the code iterates over it); \<open>std::string\<close> is a list of characters,
  compared lexicographically as unsigned bytes, which is what \<open>operator<\<close> does.
  The last group are list facts several components need.
\<close>

section \<open>Failures\<close>

datatype exn =
    RuntimeError string
  | AssertFail string
  | Exit string
  | UndefinedBehaviour string
  | Diverges string

definition bindE :: "exn + 'a \<Rightarrow> ('a \<Rightarrow> exn + 'b) \<Rightarrow> exn + 'b" where
  "bindE m f = (case m of Inl e \<Rightarrow> Inl e | Inr a \<Rightarrow> f a)"

definition assertE :: "string \<Rightarrow> bool \<Rightarrow> exn + unit" where
  "assertE msg c = (if c then Inr () else Inl (AssertFail msg))"

definition at_index :: "string \<Rightarrow> 'a list \<Rightarrow> int \<Rightarrow> exn + 'a" where
  "at_index what xs i =
     (if 0 \<le> i \<and> i < int (length xs) then Inr (xs ! nat i) else Inl (UndefinedBehaviour what))"

lemma bindE_simps [simp]:
  "bindE (Inl e) f = Inl e"
  "bindE (Inr a) f = f a"
  by (simp_all add: bindE_def)

lemma bindE_Inr_iff: "bindE m f = Inr b \<longleftrightarrow> (\<exists>a. m = Inr a \<and> f a = Inr b)"
  by (cases m) auto

lemma bindE_cong [fundef_cong]:
  "m = m' \<Longrightarrow> (\<And>a. m' = Inr a \<Longrightarrow> f a = f' a) \<Longrightarrow> bindE m f = bindE m' f'"
  by (cases m') (auto simp: bindE_def)

lemma assertE_True [simp]: "c \<Longrightarrow> assertE msg c = Inr ()"
  by (simp add: assertE_def)

lemma assertE_Inr_iff: "assertE msg c = Inr u \<longleftrightarrow> c"
  by (simp add: assertE_def)

lemma at_index_Inr [simp]:
  "0 \<le> i \<Longrightarrow> i < int (length xs) \<Longrightarrow> at_index what xs i = Inr (xs ! nat i)"
  by (simp add: at_index_def)

lemma at_index_Inr_iff:
  "at_index what xs i = Inr x \<longleftrightarrow> 0 \<le> i \<and> i < int (length xs) \<and> x = xs ! nat i"
  by (auto simp: at_index_def)

text \<open>Writing a vector element, and running a fallible routine over a list.\<close>

definition upd_index :: "string \<Rightarrow> 'a list \<Rightarrow> int \<Rightarrow> 'a \<Rightarrow> exn + 'a list" where
  "upd_index what xs i v =
     (if 0 \<le> i \<and> i < int (length xs) then Inr (xs[nat i := v]) else Inl (UndefinedBehaviour what))"

fun mapE :: "('a \<Rightarrow> exn + 'b) \<Rightarrow> 'a list \<Rightarrow> exn + 'b list" where
  "mapE f [] = Inr []"
| "mapE f (x # xs) = bindE (f x) (\<lambda>y. bindE (mapE f xs) (\<lambda>ys. Inr (y # ys)))"

lemma upd_index_Inr [simp]:
  "0 \<le> i \<Longrightarrow> i < int (length xs) \<Longrightarrow> upd_index what xs i v = Inr (xs[nat i := v])"
  by (simp add: upd_index_def)

lemma upd_index_Inr_iff:
  "upd_index what xs i v = Inr ys \<longleftrightarrow> 0 \<le> i \<and> i < int (length xs) \<and> ys = xs[nat i := v]"
  by (auto simp: upd_index_def)

lemma mapE_Inr: "(\<And>x. x \<in> set xs \<Longrightarrow> f x = Inr (g x)) \<Longrightarrow> mapE f xs = Inr (map g xs)"
  by (induction xs) auto

text \<open>
  Procedures that change an object and may throw on the way: the object as it then is, and the
  exception if there is one.  \<open>seqS\<close> is the sequencing of two statements.
\<close>

type_synonym 's proc = "'s \<times> exn option"

definition seqS :: "'s proc \<Rightarrow> ('s \<Rightarrow> 's proc) \<Rightarrow> 's proc" where
  "seqS m f = (case m of (s, None) \<Rightarrow> f s | (s, Some e) \<Rightarrow> (s, Some e))"

lemma seqS_simps [simp]:
  "seqS (s, None) f = f s"
  "seqS (s, Some e) f = (s, Some e)"
  by (simp_all add: seqS_def)

lemma seqS_None_iff: "seqS m f = (t, None) \<longleftrightarrow> (\<exists>s. m = (s, None) \<and> f s = (t, None))"
  by (cases m; cases "snd m") (auto simp: seqS_def)

lemma seqS_cong [fundef_cong]:
  "m = m' \<Longrightarrow> (\<And>s. m' = (s, None) \<Longrightarrow> f s = f' s) \<Longrightarrow> seqS m f = seqS m' f'"
  by (cases m') (auto simp: seqS_def split: option.split)

section \<open>Numbers as text\<close>

text \<open>\<open>std::to_string\<close> of an unsigned number.\<close>

fun dec_string :: "nat \<Rightarrow> string" where
  "dec_string n = (if n < 10 then [char_of (48 + n)] else dec_string (n div 10) @ [char_of (48 + n mod 10)])"

declare dec_string.simps [simp del]

text \<open>\<open>std::to_string\<close> of a signed number.\<close>

definition int_string :: "int \<Rightarrow> string" where
  "int_string i = (if i < 0 then ''-'' @ dec_string (nat (- i)) else dec_string (nat i))"

declare dec_string.simps [code]

lemma dec_string_digits: "c \<in> set (dec_string n) \<Longrightarrow> 48 \<le> (of_char c :: nat) \<and> of_char c \<le> (57::nat)"
proof (induction n rule: dec_string.induct)
  case (1 n)
  then show ?case
    by (cases "n < 10") (auto simp: dec_string.simps [of n])
qed

lemma dec_string_not_Nil [simp]: "dec_string n \<noteq> []"
  by (subst dec_string.simps) simp

lemma dec_string_length: "n < 10 ^ Suc k \<Longrightarrow> length (dec_string n) \<le> Suc k"
proof (induction k arbitrary: n)
  case 0
  then show ?case by (simp add: dec_string.simps [of n])
next
  case (Suc k)
  then have "n div 10 < 10 ^ Suc k" by simp
  from Suc.IH [OF this] show ?case by (subst dec_string.simps) simp
qed

lemma dec_string_inject [simp]: "dec_string m = dec_string n \<longleftrightarrow> m = n"
proof (induction m arbitrary: n rule: dec_string.induct)
  case (1 m)
  have digit: "char_of (48 + i) = (char_of (48 + j) :: char) \<longleftrightarrow> i = j" if "i < 10" "j < 10" for i j :: nat
    using that by (auto dest!: arg_cong [where f = "of_char :: char \<Rightarrow> nat"])
  show ?case
  proof (cases "m < 10 \<or> n < 10")
    case True
    then show ?thesis using digit dec_string_not_Nil [THEN not_sym] by (subst (1 2) dec_string.simps) auto
  next
    case False
    then have "dec_string m = dec_string n \<longleftrightarrow> m div 10 = n div 10 \<and> m mod 10 = n mod 10"
      using 1 digit by (subst (1 2) dec_string.simps) auto
    then show ?thesis by (metis div_mult_mod_eq)
  qed
qed

section \<open>Ordered maps\<close>

type_synonym ('k, 'v) smap = "('k \<times> 'v) list"

fun smap_put :: "'k::linorder \<Rightarrow> 'v \<Rightarrow> ('k, 'v) smap \<Rightarrow> ('k, 'v) smap" where
  "smap_put k v [] = [(k, v)]"
| "smap_put k v ((a, b) # m) =
     (if k < a then (k, v) # (a, b) # m
      else if k = a then (k, v) # m
      else (a, b) # smap_put k v m)"

definition smap_wf :: "('k::linorder, 'v) smap \<Rightarrow> bool" where
  "smap_wf m \<longleftrightarrow> sorted_wrt (<) (map fst m)"

lemma smap_wf_Nil [simp]: "smap_wf []"
  by (simp add: smap_wf_def)

lemma smap_wf_Cons: "smap_wf (p # m) \<longleftrightarrow> (\<forall>q \<in> set m. fst p < fst q) \<and> smap_wf m"
  by (simp add: smap_wf_def)

lemma map_of_smap_put [simp]: "map_of (smap_put k v m) = (map_of m)(k \<mapsto> v)"
  by (induction k v m rule: smap_put.induct) (auto simp: fun_eq_iff)

lemma keys_smap_put: "fst ` set (smap_put k v m) = insert k (fst ` set m)"
  by (induction k v m rule: smap_put.induct) auto

lemma smap_put_not_Nil [simp]: "smap_put k v m \<noteq> []"
  by (induction k v m rule: smap_put.induct) auto

lemma smap_put_key_bound:
  "q \<in> set (smap_put k v m) \<Longrightarrow> x < k \<Longrightarrow> (\<And>p. p \<in> set m \<Longrightarrow> x < fst p) \<Longrightarrow> x < fst q"
proof -
  assume q: "q \<in> set (smap_put k v m)" and b: "x < k" "\<And>p. p \<in> set m \<Longrightarrow> x < fst p"
  from q have "fst q \<in> insert k (fst ` set m)" by (metis imageI keys_smap_put)
  then show "x < fst q" using b by auto
qed

lemma smap_wf_put: "smap_wf m \<Longrightarrow> smap_wf (smap_put k v m)"
proof (induction k v m rule: smap_put.induct)
  case (1 k v)
  show ?case by (simp add: smap_wf_Cons)
next
  case (2 k v a b m)
  have tail: "smap_wf m" and ab: "\<And>q. q \<in> set m \<Longrightarrow> a < fst q"
    using "2.prems" by (auto simp: smap_wf_Cons)
  consider "k < a" | "k = a" | "a < k" by fastforce
  then show ?case
  proof cases
    case 1
    then show ?thesis using tail ab by (auto simp: smap_wf_Cons dest: order.strict_trans)
  next
    case 2
    then show ?thesis using tail ab by (auto simp: smap_wf_Cons)
  next
    case 3
    then have "smap_wf (smap_put k v m)" using "2.IH" tail by auto
    moreover have "\<And>q. q \<in> set (smap_put k v m) \<Longrightarrow> a < fst q"
      using smap_put_key_bound [of _ k v m a] 3 ab by blast
    ultimately show ?thesis using 3 by (auto simp: smap_wf_Cons)
  qed
qed

lemma smap_wf_distinct: "smap_wf m \<Longrightarrow> distinct (map fst m)"
  unfolding smap_wf_def by (metis strict_sorted_imp_sorted strict_sorted_iff)

lemma smap_wf_nth_less:
  "smap_wf m \<Longrightarrow> i < j \<Longrightarrow> j < length m \<Longrightarrow> fst (m ! i) < fst (m ! j)"
  using sorted_wrt_nth_less [of "(<)" "map fst m" i j] by (simp add: smap_wf_def)

text \<open>Strictly sorted lists are determined by the map they stand for.\<close>

lemma smap_from_keys:
  assumes "distinct (map fst m)"
  shows "m = map (\<lambda>k. (k, the (map_of m k))) (map fst m)"
  using assms by (auto simp: comp_def intro!: map_idI [symmetric])

lemma smap_keys_sorted: "smap_wf m \<Longrightarrow> map fst m = sorted_list_of_set (dom (map_of m))"
  by (metis dom_map_of_conv_image_fst list.set_map smap_wf_def sorted_list_of_set.idem_if_sorted_distinct
      strict_sorted_iff)

lemma smap_eqI:
  assumes "smap_wf m" "smap_wf n" "map_of m = map_of n"
  shows "m = n"
  using assms smap_from_keys [OF smap_wf_distinct, of m] smap_from_keys [OF smap_wf_distinct, of n]
  by (metis smap_keys_sorted)

end
