(* ===== verification/Persister.thy ===== *)
theory Persister
  imports KV_Prelude
begin

text \<open>
  \<open>Persister\<close> of \<open>raftCore/Persister.cpp\<close>: two files, one for the Raft state and one for the
  snapshot, each with an output stream that is kept open.  Files are byte strings by path;
  which paths can be opened for writing is a parameter, because the code does not check: output
  to a stream that is not open is lost silently.
\<close>

record Persister =
  m_raftStateFileName :: string
  m_snapshotFileName :: string
  m_raftStateOutStream :: bool
  m_snapshotOutStream :: bool
  m_raftStateSize :: int
  ps_disk :: "string \<rightharpoonup> string"

definition ReadWholeFile :: "(string \<rightharpoonup> string) \<Rightarrow> string \<Rightarrow> string" where
  "ReadWholeFile d fileName = (case d fileName of None \<Rightarrow> [] | Some s \<Rightarrow> s)"

definition GetFileSize :: "(string \<rightharpoonup> string) \<Rightarrow> string \<Rightarrow> int" where
  "GetFileSize d fileName = (case d fileName of None \<Rightarrow> 0 | Some s \<Rightarrow> int (length s))"

definition EnsureFileExists :: "(string \<Rightarrow> bool) \<Rightarrow> (string \<rightharpoonup> string) \<Rightarrow> string \<Rightarrow> (string \<rightharpoonup> string) \<times> bool" where
  "EnsureFileExists opens d fileName =
     (if opens fileName then (if d fileName = None then d(fileName \<mapsto> []) else d, True) else (d, False))"

text \<open>Opening a stream: appending keeps the file, truncating empties it.\<close>

definition open_app :: "(string \<Rightarrow> bool) \<Rightarrow> string \<Rightarrow> (string \<rightharpoonup> string) \<Rightarrow> (string \<rightharpoonup> string) \<times> bool" where
  "open_app opens fileName d =
     (if opens fileName then (if d fileName = None then d(fileName \<mapsto> []) else d, True) else (d, False))"

definition open_trunc :: "(string \<Rightarrow> bool) \<Rightarrow> string \<Rightarrow> (string \<rightharpoonup> string) \<Rightarrow> (string \<rightharpoonup> string) \<times> bool" where
  "open_trunc opens fileName d = (if opens fileName then (d(fileName \<mapsto> []), True) else (d, False))"

definition stream_out :: "bool \<Rightarrow> string \<Rightarrow> string \<Rightarrow> (string \<rightharpoonup> string) \<Rightarrow> (string \<rightharpoonup> string)" where
  "stream_out is_open fileName data d = (if is_open then d(fileName \<mapsto> ReadWholeFile d fileName @ data) else d)"

definition clearRaftState :: "(string \<Rightarrow> bool) \<Rightarrow> Persister \<Rightarrow> Persister" where
  "clearRaftState opens p =
     (case open_trunc opens (m_raftStateFileName p) (ps_disk p) of
        (d, ok) \<Rightarrow> p\<lparr>m_raftStateSize := 0, m_raftStateOutStream := ok, ps_disk := d\<rparr>)"

definition clearSnapshot :: "(string \<Rightarrow> bool) \<Rightarrow> Persister \<Rightarrow> Persister" where
  "clearSnapshot opens p =
     (case open_trunc opens (m_snapshotFileName p) (ps_disk p) of
        (d, ok) \<Rightarrow> p\<lparr>m_snapshotOutStream := ok, ps_disk := d\<rparr>)"

definition clearRaftStateAndSnapshot :: "(string \<Rightarrow> bool) \<Rightarrow> Persister \<Rightarrow> Persister" where
  "clearRaftStateAndSnapshot opens p = clearSnapshot opens (clearRaftState opens p)"

definition Save :: "(string \<Rightarrow> bool) \<Rightarrow> string \<Rightarrow> string \<Rightarrow> Persister \<Rightarrow> Persister" where
  "Save opens raftstate snapshot p =
     (let p = clearRaftStateAndSnapshot opens p;
          d = stream_out (m_raftStateOutStream p) (m_raftStateFileName p) raftstate (ps_disk p);
          d = stream_out (m_snapshotOutStream p) (m_snapshotFileName p) snapshot d
      in p\<lparr>ps_disk := d, m_raftStateSize := int (length raftstate)\<rparr>)"

definition SaveRaftState :: "(string \<Rightarrow> bool) \<Rightarrow> string \<Rightarrow> Persister \<Rightarrow> Persister" where
  "SaveRaftState opens data p =
     (let p = clearRaftState opens p
      in p\<lparr>ps_disk := stream_out (m_raftStateOutStream p) (m_raftStateFileName p) data (ps_disk p),
           m_raftStateSize := int (length data)\<rparr>)"

text \<open>Reading the snapshot closes its stream and opens it again for appending.\<close>

definition ReadSnapshot :: "(string \<Rightarrow> bool) \<Rightarrow> Persister \<Rightarrow> Persister \<times> string" where
  "ReadSnapshot opens p =
     (let data = ReadWholeFile (ps_disk p) (m_snapshotFileName p)
      in case open_app opens (m_snapshotFileName p) (ps_disk p) of
           (d, ok) \<Rightarrow> (p\<lparr>m_snapshotOutStream := ok, ps_disk := d\<rparr>, data))"

definition ReadRaftState :: "Persister \<Rightarrow> string" where
  "ReadRaftState p = ReadWholeFile (ps_disk p) (m_raftStateFileName p)"

definition RaftStateSize :: "Persister \<Rightarrow> int" where
  "RaftStateSize p = m_raftStateSize p"

definition Persister_new :: "(string \<Rightarrow> bool) \<Rightarrow> int \<Rightarrow> (string \<rightharpoonup> string) \<Rightarrow> Persister" where
  "Persister_new opens me d =
     (let rs = ''raftstatePersist'' @ int_string me @ ''.txt'';
          sn = ''snapshotPersist'' @ int_string me @ ''.txt'';
          d = fst (EnsureFileExists opens d rs);
          d = fst (EnsureFileExists opens d sn);
          size = GetFileSize d rs
      in case open_app opens rs d of (d, ok1) \<Rightarrow>
           case open_app opens sn d of (d, ok2) \<Rightarrow>
             \<lparr>m_raftStateFileName = rs, m_snapshotFileName = sn, m_raftStateOutStream = ok1,
              m_snapshotOutStream = ok2, m_raftStateSize = size, ps_disk = d\<rparr>)"

section \<open>What is read back\<close>

text \<open>
  A persister is usable when its two files are different and can be opened.  Every constructed
  persister has different files.
\<close>

definition persister_ok :: "(string \<Rightarrow> bool) \<Rightarrow> Persister \<Rightarrow> bool" where
  "persister_ok opens p \<longleftrightarrow> m_raftStateFileName p \<noteq> m_snapshotFileName p \<and>
     opens (m_raftStateFileName p) \<and> opens (m_snapshotFileName p)"

definition stored_snapshot :: "Persister \<Rightarrow> string" where
  "stored_snapshot p = ReadWholeFile (ps_disk p) (m_snapshotFileName p)"

lemma persister_names [simp]:
  "m_raftStateFileName (Save opens rs sn p) = m_raftStateFileName p"
  "m_snapshotFileName (Save opens rs sn p) = m_snapshotFileName p"
  "m_raftStateFileName (SaveRaftState opens rs p) = m_raftStateFileName p"
  "m_snapshotFileName (SaveRaftState opens rs p) = m_snapshotFileName p"
  "m_raftStateFileName (fst (ReadSnapshot opens p)) = m_raftStateFileName p"
  "m_snapshotFileName (fst (ReadSnapshot opens p)) = m_snapshotFileName p"
  by (auto simp: Save_def SaveRaftState_def ReadSnapshot_def clearRaftStateAndSnapshot_def clearRaftState_def
      clearSnapshot_def Let_def split: prod.splits)

lemma persister_ok_ops [simp]:
  "persister_ok opens (Save opens rs sn p) = persister_ok opens p"
  "persister_ok opens (SaveRaftState opens rs p) = persister_ok opens p"
  "persister_ok opens (fst (ReadSnapshot opens p)) = persister_ok opens p"
  by (simp_all add: persister_ok_def)

lemma Save_reads:
  "persister_ok opens p \<Longrightarrow> ReadRaftState (Save opens rs sn p) = rs"
  "persister_ok opens p \<Longrightarrow> stored_snapshot (Save opens rs sn p) = sn"
  "RaftStateSize (Save opens rs sn p) = int (length rs)"
  by (auto simp: Save_def persister_ok_def clearRaftStateAndSnapshot_def clearRaftState_def clearSnapshot_def
      open_trunc_def stream_out_def ReadRaftState_def stored_snapshot_def ReadWholeFile_def RaftStateSize_def Let_def)

lemma SaveRaftState_reads:
  "persister_ok opens p \<Longrightarrow> ReadRaftState (SaveRaftState opens rs p) = rs"
  "persister_ok opens p \<Longrightarrow> stored_snapshot (SaveRaftState opens rs p) = stored_snapshot p"
  "RaftStateSize (SaveRaftState opens rs p) = int (length rs)"
  by (auto simp: SaveRaftState_def persister_ok_def clearRaftState_def open_trunc_def stream_out_def
      ReadRaftState_def stored_snapshot_def ReadWholeFile_def RaftStateSize_def Let_def)

lemma ReadSnapshot_reads:
  "snd (ReadSnapshot opens p) = stored_snapshot p"
  "stored_snapshot (fst (ReadSnapshot opens p)) = stored_snapshot p"
  "persister_ok opens p \<Longrightarrow> ReadRaftState (fst (ReadSnapshot opens p)) = ReadRaftState p"
  by (auto simp: ReadSnapshot_def open_app_def ReadRaftState_def stored_snapshot_def ReadWholeFile_def
      persister_ok_def Let_def split: option.splits)

lemma Persister_new_names:
  "m_raftStateFileName (Persister_new opens me d) \<noteq> m_snapshotFileName (Persister_new opens me d)"
  by (simp add: Persister_new_def Let_def split: prod.split)

text \<open>A restart (a new object on the files the old one left) changes nothing that is read.\<close>

lemma Persister_new_reads:
  "ReadRaftState (Persister_new opens me d) = ReadWholeFile d (''raftstatePersist'' @ int_string me @ ''.txt'')"
  "stored_snapshot (Persister_new opens me d) = ReadWholeFile d (''snapshotPersist'' @ int_string me @ ''.txt'')"
  by (auto simp: Persister_new_def EnsureFileExists_def open_app_def ReadRaftState_def stored_snapshot_def
      ReadWholeFile_def Let_def split: option.splits)

end
