(* ===== verification/Raft_Types.thy ===== *)
theory Raft_Types
  imports Persister
begin

text \<open>
  The data the Raft node and the KV server exchange: the protobuf messages of
  \<open>raftRPC.proto\<close> with the fields the handwritten code reads, \<open>ApplyMsg\<close>, \<open>Op\<close> and the record that
  \<open>Raft\<close> persists.  A C++ \<open>int\<close> is an unbounded integer here (terms and log indices are counters that
  overflow, undefined behaviour in C++, only after 2^31 elections or commands); the 64-bit times of \<open>Op\<close> are
  words.

  What is not in the repository enters as the record \<open>raft_env\<close>: the boost text archives, the
  protobuf serialisation of a log entry, and which files can be opened.
\<close>

record LogEntry =
  command :: string
  logterm :: int
  logindex :: int

record AppendEntriesArgs =
  ae_term :: int
  ae_leaderid :: int
  ae_prevlogindex :: int
  ae_prevlogterm :: int
  ae_entries :: "LogEntry list"
  ae_leadercommit :: int

record AppendEntriesReply =
  aer_term :: int
  aer_success :: bool
  aer_updatenextindex :: int
  aer_appstate :: int

record RequestVoteArgs =
  rv_term :: int
  rv_candidateid :: int
  rv_lastlogindex :: int
  rv_lastlogterm :: int

record RequestVoteReply =
  rvr_term :: int
  rvr_votegranted :: bool
  rvr_votestate :: int

record InstallSnapshotRequest =
  is_leaderid :: int
  is_term :: int
  is_lastsnapshotincludeindex :: int
  is_lastsnapshotincludeterm :: int
  is_data :: string

record InstallSnapshotResponse =
  isr_term :: int

text \<open>A reply object as the RPC layer creates it: every field has its default.\<close>

definition AppendEntriesReply_new :: AppendEntriesReply where
  "AppendEntriesReply_new = \<lparr>aer_term = 0, aer_success = False, aer_updatenextindex = 0, aer_appstate = 0\<rparr>"

definition RequestVoteReply_new :: RequestVoteReply where
  "RequestVoteReply_new = \<lparr>rvr_term = 0, rvr_votegranted = False, rvr_votestate = 0\<rparr>"

definition InstallSnapshotResponse_new :: InstallSnapshotResponse where
  "InstallSnapshotResponse_new = \<lparr>isr_term = 0\<rparr>"

text \<open>The named constants of \<open>raft.h\<close>.\<close>

definition Disconnected :: int where "Disconnected = 0"
definition AppNormal :: int where "AppNormal = 1"
definition Killed :: int where "Killed = 0"
definition Voted :: int where "Voted = 1"
definition Expire :: int where "Expire = 2"
definition Normal :: int where "Normal = 3"

lemmas raft_constants = Disconnected_def AppNormal_def Killed_def Voted_def Expire_def Normal_def

record ApplyMsg =
  CommandValid :: bool
  Command :: string
  CommandIndex :: int
  SnapshotValid :: bool
  Snapshot :: string
  SnapshotTerm :: int
  SnapshotIndex :: int

definition ApplyMsg_new :: ApplyMsg where
  "ApplyMsg_new = \<lparr>CommandValid = False, Command = [], CommandIndex = -1, SnapshotValid = False,
     Snapshot = [], SnapshotTerm = -1, SnapshotIndex = -1\<rparr>"

record Op =
  Operation :: string
  Key :: string
  Value :: string
  ClientId :: string
  RequestId :: int
  TtlMs :: "64 word"
  ExpireAtMs :: "64 word"

definition Op_new :: Op where
  "Op_new = \<lparr>Operation = [], Key = [], Value = [], ClientId = [], RequestId = 0, TtlMs = 0, ExpireAtMs = 0\<rparr>"

text \<open>The persisted record; its field \<open>umap\<close> is never written nor archived and left out.\<close>

record BoostPersistRaftNode =
  bp_currentTerm :: int
  bp_votedFor :: int
  bp_lastSnapshotIncludeIndex :: int
  bp_lastSnapshotIncludeTerm :: int
  bp_logs :: "string list"

text \<open>
  Reading an archive throws when the text is not one; \<open>ParseFromString\<close> reports failure in its
  result, which the code ignores, and leaves some message.
\<close>

record raft_env =
  node_oarchive :: "BoostPersistRaftNode \<Rightarrow> string"
  node_iarchive :: "string \<Rightarrow> exn + BoostPersistRaftNode"
  entry_serialize :: "LogEntry \<Rightarrow> string"
  entry_parse :: "string \<Rightarrow> LogEntry"
  op_oarchive :: "Op \<Rightarrow> string"
  op_iarchive :: "string \<Rightarrow> exn + Op"
  file_open :: "string \<Rightarrow> bool"

definition asString :: "raft_env \<Rightarrow> Op \<Rightarrow> string" where
  "asString env op = op_oarchive env op"

definition parseFromString :: "raft_env \<Rightarrow> string \<Rightarrow> exn + Op" where
  "parseFromString env str = op_iarchive env str"

text \<open>
  What boost and protobuf document: reading what was written gives it back; an archive starts
  with its header, so it is never empty.
\<close>

definition codecs_ok :: "raft_env \<Rightarrow> bool" where
  "codecs_ok env \<longleftrightarrow>
     (\<forall>n. node_iarchive env (node_oarchive env n) = Inr n \<and> node_oarchive env n \<noteq> []) \<and>
     (\<forall>e. entry_parse env (entry_serialize env e) = e) \<and>
     (\<forall>op. op_iarchive env (op_oarchive env op) = Inr op)"

lemma codecs_okD:
  assumes "codecs_ok env"
  shows "node_iarchive env (node_oarchive env n) = Inr n" "node_oarchive env n \<noteq> []"
    "entry_parse env (entry_serialize env e) = e" "op_iarchive env (op_oarchive env op) = Inr op"
  using assms by (auto simp: codecs_ok_def)

end
