(* ===== verification/Archive_Instance.thy ===== *)
theory Archive_Instance
  imports Raft_Types
begin

text \<open>
  The model leaves the boost archives and the protobuf serialisation open and asks only that
  reading gives back what was written.  This theory shows that the demand can be met: a small
  self-delimiting text format and the environment \<open>demo_env\<close> built from it.  It stands for no
  code of the repository; concrete runs of the model use it.
\<close>

section \<open>Numbers, strings and lists as text\<close>

fun put_nat :: "nat \<Rightarrow> string" where
  "put_nat n = (if n = 0 then '';'' else (if odd n then CHR ''1'' else CHR ''0'') # put_nat (n div 2))"

declare put_nat.simps [simp del]

fun get_nat :: "string \<Rightarrow> nat \<times> string" where
  "get_nat [] = (0, [])"
| "get_nat (c # s) = (if c = CHR '';'' then (0, s)
     else case get_nat s of (n, r) \<Rightarrow> (2 * n + (if c = CHR ''1'' then 1 else 0), r))"

lemma get_put_nat [simp]: "get_nat (put_nat n @ s) = (n, s)"
proof (induction n rule: put_nat.induct)
  case (1 n)
  then show ?case
    by (cases "n = 0"; cases "odd n") (simp_all add: put_nat.simps [of n] put_nat.simps [of 0] odd_two_times_div_two_nat)
qed

lemma put_nat_not_Nil [simp]: "put_nat n \<noteq> []"
  by (subst put_nat.simps) simp

definition put_int :: "int \<Rightarrow> string" where
  "put_int i = (if i < 0 then CHR ''-'' else CHR ''+'') # put_nat (nat \<bar>i\<bar>)"

definition get_int :: "string \<Rightarrow> int \<times> string" where
  "get_int s = (case s of [] \<Rightarrow> (0, []) | c # r \<Rightarrow>
     (case get_nat r of (n, r) \<Rightarrow> (if c = CHR ''-'' then - int n else int n, r)))"

lemma get_put_int [simp]: "get_int (put_int i @ s) = (i, s)"
  by (simp add: get_int_def put_int_def)

lemma put_int_not_Nil [simp]: "put_int i \<noteq> []"
  by (simp add: put_int_def)

definition put_str :: "string \<Rightarrow> string" where
  "put_str s = put_nat (length s) @ s"

definition get_str :: "string \<Rightarrow> string \<times> string" where
  "get_str s = (case get_nat s of (n, r) \<Rightarrow> (take n r, drop n r))"

lemma get_put_str [simp]: "get_str (put_str x @ s) = (x, s)"
  by (simp add: get_str_def put_str_def)

fun get_strs :: "nat \<Rightarrow> string \<Rightarrow> string list" where
  "get_strs 0 s = []"
| "get_strs (Suc n) s = (case get_str s of (x, r) \<Rightarrow> x # get_strs n r)"

lemma get_put_strs: "get_strs (length xs) (concat (map put_str xs)) = xs"
  by (induction xs) auto

section \<open>The archives\<close>

definition demo_node_out :: "BoostPersistRaftNode \<Rightarrow> string" where
  "demo_node_out n = put_int (bp_currentTerm n) @ put_int (bp_votedFor n) @ put_int (bp_lastSnapshotIncludeIndex n) @
     put_int (bp_lastSnapshotIncludeTerm n) @ put_nat (length (bp_logs n)) @ concat (map put_str (bp_logs n))"

definition demo_node_in :: "string \<Rightarrow> exn + BoostPersistRaftNode" where
  "demo_node_in s =
     (case get_int s of (t, s) \<Rightarrow> case get_int s of (v, s) \<Rightarrow> case get_int s of (i, s) \<Rightarrow> case get_int s of (st, s) \<Rightarrow>
      case get_nat s of (n, s) \<Rightarrow>
      Inr \<lparr>bp_currentTerm = t, bp_votedFor = v, bp_lastSnapshotIncludeIndex = i, bp_lastSnapshotIncludeTerm = st,
           bp_logs = get_strs n s\<rparr>)"

definition demo_entry_out :: "LogEntry \<Rightarrow> string" where
  "demo_entry_out e = put_int (logterm e) @ put_int (logindex e) @ put_str (command e)"

definition demo_entry_in :: "string \<Rightarrow> LogEntry" where
  "demo_entry_in s = (case get_int s of (t, s) \<Rightarrow> case get_int s of (i, s) \<Rightarrow>
     \<lparr>command = fst (get_str s), logterm = t, logindex = i\<rparr>)"

definition demo_op_out :: "Op \<Rightarrow> string" where
  "demo_op_out op = put_str (Operation op) @ put_str (Key op) @ put_str (Value op) @ put_str (ClientId op) @
     put_int (RequestId op) @ put_nat (unat (TtlMs op)) @ put_nat (unat (ExpireAtMs op))"

definition demo_op_in :: "string \<Rightarrow> exn + Op" where
  "demo_op_in s =
     (case get_str s of (a, s) \<Rightarrow> case get_str s of (k, s) \<Rightarrow> case get_str s of (v, s) \<Rightarrow> case get_str s of (c, s) \<Rightarrow>
      case get_int s of (i, s) \<Rightarrow> case get_nat s of (t, s) \<Rightarrow>
      Inr \<lparr>Operation = a, Key = k, Value = v, ClientId = c, RequestId = i, TtlMs = of_nat t,
           ExpireAtMs = of_nat (fst (get_nat s))\<rparr>)"

definition demo_env :: raft_env where
  "demo_env = \<lparr>node_oarchive = demo_node_out, node_iarchive = demo_node_in, entry_serialize = demo_entry_out,
     entry_parse = demo_entry_in, op_oarchive = demo_op_out, op_iarchive = demo_op_in, file_open = \<lambda>_. True\<rparr>"

lemma demo_codecs_ok: "codecs_ok demo_env"
proof -
  have n: "demo_node_in (demo_node_out n) = Inr n \<and> demo_node_out n \<noteq> []" for n
    using get_put_strs [of "bp_logs n"] by (simp add: demo_node_in_def demo_node_out_def)
  have e: "demo_entry_in (demo_entry_out e) = e" for e
    using get_put_str [of "command e" "[]"] by (simp add: demo_entry_in_def demo_entry_out_def)
  have o: "demo_op_in (demo_op_out op) = Inr op" for op
    using get_put_nat [of "unat (ExpireAtMs op)" "[]"] by (simp add: demo_op_in_def demo_op_out_def)
  show ?thesis using n e o by (simp add: codecs_ok_def demo_env_def)
qed

lemma demo_file_open [simp]: "file_open demo_env f"
  by (simp add: demo_env_def)

end
