(* ===== verification/Raft_Node.thy ===== *)
theory Raft_Node
  imports Raft_Types
begin

text \<open>
  The Raft node of \<open>raftCore/raft.cpp\<close>: its state and every operation on it.

  Each handler runs under \<open>m_mtx\<close>, so it is one function on the state.  A handler that may fail an
  assertion (the process then exits) returns \<open>exn + result\<close>.  A routine that makes a remote
  call is split at the call, where the code holds no lock: the part that builds the request and the part
  that handles the reply (\<open>None\<close> when the call failed).  The clock is an argument, in
  nanoseconds.  Threads a handler starts are returned as the messages they send.  The remote stubs
  in \<open>m_peers\<close> are represented by their number.
\<close>

datatype Status = Follower | Candidate | Leader

record raft =
  m_peers :: nat
  m_persister :: Persister
  m_me :: int
  m_currentTerm :: int
  m_votedFor :: int
  m_logs :: "LogEntry list"
  m_commitIndex :: int
  m_lastApplied :: int
  m_nextIndex :: "int list"
  m_matchIndex :: "int list"
  m_status :: Status
  applyChan :: "ApplyMsg list"
  m_lastResetElectionTime :: int
  m_lastResetHearBeatTime :: int
  m_lastSnapshotIncludeIndex :: int
  m_lastSnapshotIncludeTerm :: int

section \<open>The log\<close>

definition getLastLogIndexAndTerm :: "raft \<Rightarrow> int \<times> int" where
  "getLastLogIndexAndTerm r =
     (if m_logs r = [] then (m_lastSnapshotIncludeIndex r, m_lastSnapshotIncludeTerm r)
      else (logindex (last (m_logs r)), logterm (last (m_logs r))))"

definition getLastLogIndex :: "raft \<Rightarrow> int" where
  "getLastLogIndex r = fst (getLastLogIndexAndTerm r)"

definition getLastLogTerm :: "raft \<Rightarrow> int" where
  "getLastLogTerm r = snd (getLastLogIndexAndTerm r)"

definition getNewCommandIndex :: "raft \<Rightarrow> int" where
  "getNewCommandIndex r = getLastLogIndex r + 1"

definition getSlicesIndexFromLogIndex :: "raft \<Rightarrow> int \<Rightarrow> exn + int" where
  "getSlicesIndexFromLogIndex r logIndex =
     bindE (assertE ''getSlicesIndexFromLogIndex: index <= lastSnapshotIncludeIndex''
              (logIndex > m_lastSnapshotIncludeIndex r)) (\<lambda>_.
     bindE (assertE ''getSlicesIndexFromLogIndex: logIndex > lastLogIndex''
              (logIndex \<le> getLastLogIndex r)) (\<lambda>_.
     Inr (logIndex - m_lastSnapshotIncludeIndex r - 1)))"

text \<open>\<open>m_logs[getSlicesIndexFromLogIndex(i)]\<close>.\<close>

definition log_at :: "raft \<Rightarrow> int \<Rightarrow> exn + LogEntry" where
  "log_at r i = bindE (getSlicesIndexFromLogIndex r i) (at_index ''m_logs'' (m_logs r))"

definition getLogTermFromLogIndex :: "raft \<Rightarrow> int \<Rightarrow> exn + int" where
  "getLogTermFromLogIndex r logIndex =
     bindE (assertE ''getLogTermFromLogIndex: index < lastSnapshotIncludeIndex''
              (logIndex \<ge> m_lastSnapshotIncludeIndex r)) (\<lambda>_.
     bindE (assertE ''getLogTermFromLogIndex: logIndex > lastLogIndex''
              (logIndex \<le> getLastLogIndex r)) (\<lambda>_.
     if logIndex = m_lastSnapshotIncludeIndex r then Inr (m_lastSnapshotIncludeTerm r)
     else bindE (log_at r logIndex) (\<lambda>e. Inr (logterm e))))"

definition matchLog :: "raft \<Rightarrow> int \<Rightarrow> int \<Rightarrow> exn + bool" where
  "matchLog r logIndex logTerm =
     bindE (assertE ''matchLog: logIndex out of range''
              (logIndex \<ge> m_lastSnapshotIncludeIndex r \<and> logIndex \<le> getLastLogIndex r)) (\<lambda>_.
     bindE (getLogTermFromLogIndex r logIndex) (\<lambda>t. Inr (logTerm = t)))"

definition UpToDate :: "raft \<Rightarrow> int \<Rightarrow> int \<Rightarrow> bool" where
  "UpToDate r index trm =
     (case getLastLogIndexAndTerm r of (lastIndex, lastTerm) \<Rightarrow>
        trm > lastTerm \<or> (trm = lastTerm \<and> index \<ge> lastIndex))"

definition getPrevLogInfo :: "raft \<Rightarrow> int \<Rightarrow> exn + (int \<times> int)" where
  "getPrevLogInfo r server =
     bindE (at_index ''m_nextIndex'' (m_nextIndex r) server) (\<lambda>nextIndex.
     if nextIndex = m_lastSnapshotIncludeIndex r + 1
     then Inr (m_lastSnapshotIncludeIndex r, m_lastSnapshotIncludeTerm r)
     else bindE (log_at r (nextIndex - 1)) (\<lambda>e. Inr (nextIndex - 1, logterm e)))"

definition GetState :: "raft \<Rightarrow> int \<times> bool" where
  "GetState r = (m_currentTerm r, m_status r = Leader)"

section \<open>Persistence\<close>

definition persistData :: "raft_env \<Rightarrow> raft \<Rightarrow> string" where
  "persistData env r = node_oarchive env
     \<lparr>bp_currentTerm = m_currentTerm r, bp_votedFor = m_votedFor r,
      bp_lastSnapshotIncludeIndex = m_lastSnapshotIncludeIndex r,
      bp_lastSnapshotIncludeTerm = m_lastSnapshotIncludeTerm r,
      bp_logs = map (entry_serialize env) (m_logs r)\<rparr>"

definition persist :: "raft_env \<Rightarrow> raft \<Rightarrow> raft" where
  "persist env r = r\<lparr>m_persister := SaveRaftState (file_open env) (persistData env r) (m_persister r)\<rparr>"

definition readPersist :: "raft_env \<Rightarrow> string \<Rightarrow> raft \<Rightarrow> exn + raft" where
  "readPersist env data r =
     (if data = [] then Inr r
      else bindE (node_iarchive env data) (\<lambda>n.
        Inr (r\<lparr>m_currentTerm := bp_currentTerm n, m_votedFor := bp_votedFor n,
               m_lastSnapshotIncludeIndex := bp_lastSnapshotIncludeIndex n,
               m_lastSnapshotIncludeTerm := bp_lastSnapshotIncludeTerm n,
               m_logs := map (entry_parse env) (bp_logs n)\<rparr>)))"

definition GetRaftStateSize :: "raft \<Rightarrow> int" where
  "GetRaftStateSize r = RaftStateSize (m_persister r)"

text \<open>
  \<open>init\<close> on a new object: the fields it does not set are those of a fresh \<open>Raft\<close>.
\<close>

definition init :: "raft_env \<Rightarrow> int \<Rightarrow> nat \<Rightarrow> int \<Rightarrow> Persister \<Rightarrow> ApplyMsg list \<Rightarrow> exn + raft" where
  "init env now peers me persister applyCh =
     (let r = \<lparr>m_peers = peers, m_persister = persister, m_me = me, m_currentTerm = 0, m_votedFor = -1,
               m_logs = [], m_commitIndex = 0, m_lastApplied = 0, m_nextIndex = replicate peers 0,
               m_matchIndex = replicate peers 0, m_status = Follower, applyChan = applyCh,
               m_lastResetElectionTime = now, m_lastResetHearBeatTime = now,
               m_lastSnapshotIncludeIndex = 0, m_lastSnapshotIncludeTerm = 0\<rparr>
      in bindE (readPersist env (ReadRaftState persister) r) (\<lambda>r.
         Inr (if m_lastSnapshotIncludeIndex r > 0
              then r\<lparr>m_lastApplied := m_lastSnapshotIncludeIndex r\<rparr> else r)))"

section \<open>Followers\<close>

text \<open>The loop over the entries of the request.\<close>

fun append_entries_loop :: "LogEntry list \<Rightarrow> raft \<Rightarrow> exn + raft" where
  "append_entries_loop [] r = Inr r"
| "append_entries_loop (e # es) r =
     (if logindex e > getLastLogIndex r
      then append_entries_loop es (r\<lparr>m_logs := m_logs r @ [e]\<rparr>)
      else bindE (getSlicesIndexFromLogIndex r (logindex e)) (\<lambda>i.
           bindE (at_index ''m_logs'' (m_logs r) i) (\<lambda>old.
           bindE (assertE ''AppendEntries: same log index and term, but command differs''
                    (\<not> (logterm old = logterm e \<and> command old \<noteq> command e))) (\<lambda>_.
           append_entries_loop es
             (if logterm old \<noteq> logterm e then r\<lparr>m_logs := (m_logs r)[nat i := e]\<rparr> else r)))))"

text \<open>
  The backward search for the first entry of the conflicting term: the index to report, if the loop
  finds one.
\<close>

function conflict_scan :: "raft \<Rightarrow> int \<Rightarrow> int \<Rightarrow> exn + int option" where
  "conflict_scan r prev index =
     (if index \<ge> m_lastSnapshotIncludeIndex r
      then bindE (getLogTermFromLogIndex r index) (\<lambda>t.
           bindE (getLogTermFromLogIndex r prev) (\<lambda>tp.
           if t \<noteq> tp then Inr (Some (index + 1)) else conflict_scan r prev (index - 1)))
      else Inr None)"
  by pat_completeness auto
termination by (relation "measure (\<lambda>(r, prev, index). nat (index - m_lastSnapshotIncludeIndex r + 1))") auto

declare conflict_scan.simps [simp del]

definition AppendEntries1 :: "raft_env \<Rightarrow> int \<Rightarrow> AppendEntriesArgs \<Rightarrow> raft \<Rightarrow> exn + (raft \<times> AppendEntriesReply)" where
  "AppendEntries1 env now args r =
     (let reply = AppendEntriesReply_new\<lparr>aer_appstate := AppNormal\<rparr> in
      if ae_term args < m_currentTerm r
      then Inr (r, reply\<lparr>aer_success := False, aer_term := m_currentTerm r, aer_updatenextindex := -100\<rparr>)
      else
        let r = (if ae_term args > m_currentTerm r
                 then r\<lparr>m_status := Follower, m_currentTerm := ae_term args, m_votedFor := -1\<rparr> else r)
        in bindE (assertE ''assert {args.Term == rf.currentTerm} fail'' (ae_term args = m_currentTerm r)) (\<lambda>_.
        let r = r\<lparr>m_status := Follower, m_lastResetElectionTime := now\<rparr>
        in if ae_prevlogindex args > getLastLogIndex r
        then Inr (persist env r,
               reply\<lparr>aer_success := False, aer_term := m_currentTerm r,
                     aer_updatenextindex := getLastLogIndex r + 1\<rparr>)
        else if ae_prevlogindex args < m_lastSnapshotIncludeIndex r
        then Inr (persist env r,
               reply\<lparr>aer_success := False, aer_term := m_currentTerm r,
                     aer_updatenextindex := m_lastSnapshotIncludeIndex r + 1\<rparr>)
        else bindE (matchLog r (ae_prevlogindex args) (ae_prevlogterm args)) (\<lambda>matches.
        if matches
        then bindE (append_entries_loop (ae_entries args) r) (\<lambda>r.
             bindE (assertE ''AppendEntries: lastLogIndex < PrevLogIndex + len(Entries)''
                      (getLastLogIndex r \<ge> ae_prevlogindex args + int (length (ae_entries args)))) (\<lambda>_.
             let r = (if ae_leadercommit args > m_commitIndex r
                      then r\<lparr>m_commitIndex := min (ae_leadercommit args) (getLastLogIndex r)\<rparr> else r)
             in bindE (assertE ''AppendEntries: lastLogIndex < commitIndex'' (getLastLogIndex r \<ge> m_commitIndex r)) (\<lambda>_.
             Inr (persist env r, reply\<lparr>aer_success := True, aer_term := m_currentTerm r\<rparr>))))
        else bindE (conflict_scan r (ae_prevlogindex args) (ae_prevlogindex args)) (\<lambda>found.
             Inr (persist env r,
                  reply\<lparr>aer_updatenextindex := (case found of None \<Rightarrow> ae_prevlogindex args | Some i \<Rightarrow> i),
                        aer_success := False, aer_term := m_currentTerm r\<rparr>)))))"

definition RequestVote :: "raft_env \<Rightarrow> int \<Rightarrow> RequestVoteArgs \<Rightarrow> raft \<Rightarrow> exn + (raft \<times> RequestVoteReply)" where
  "RequestVote env now args r =
     (if rv_term args < m_currentTerm r
      then Inr (persist env r, \<lparr>rvr_term = m_currentTerm r, rvr_votegranted = False, rvr_votestate = Expire\<rparr>)
      else
        let r = (if rv_term args > m_currentTerm r
                 then r\<lparr>m_status := Follower, m_currentTerm := rv_term args, m_votedFor := -1\<rparr> else r)
        in bindE (assertE ''RequestVote: args.Term != rf.currentTerm'' (rv_term args = m_currentTerm r)) (\<lambda>_.
        if \<not> UpToDate r (rv_lastlogindex args) (rv_lastlogterm args)
        then Inr (persist env r, \<lparr>rvr_term = m_currentTerm r, rvr_votegranted = False, rvr_votestate = Voted\<rparr>)
        else if m_votedFor r \<noteq> -1 \<and> m_votedFor r \<noteq> rv_candidateid args
        then Inr (persist env r, \<lparr>rvr_term = m_currentTerm r, rvr_votegranted = False, rvr_votestate = Voted\<rparr>)
        else let r = r\<lparr>m_votedFor := rv_candidateid args, m_lastResetElectionTime := now\<rparr>
             in Inr (persist env r, \<lparr>rvr_term = m_currentTerm r, rvr_votegranted = True, rvr_votestate = Normal\<rparr>)))"

text \<open>
  The last component is the message the started thread pushes to the KV server.
\<close>

definition InstallSnapshot ::
  "raft_env \<Rightarrow> int \<Rightarrow> InstallSnapshotRequest \<Rightarrow> raft \<Rightarrow> exn + (raft \<times> InstallSnapshotResponse \<times> ApplyMsg option)" where
  "InstallSnapshot env now args r =
     (let reply = InstallSnapshotResponse_new in
      if is_term args < m_currentTerm r
      then Inr (r, reply\<lparr>isr_term := m_currentTerm r\<rparr>, None)
      else
        let r = (if is_term args > m_currentTerm r
                 then persist env (r\<lparr>m_currentTerm := is_term args, m_votedFor := -1, m_status := Follower\<rparr>) else r);
            r = r\<lparr>m_status := Follower, m_lastResetElectionTime := now\<rparr>
        in if is_lastsnapshotincludeindex args \<le> m_lastSnapshotIncludeIndex r then Inr (r, reply, None)
        else bindE (if getLastLogIndex r > is_lastsnapshotincludeindex args
                    then bindE (getSlicesIndexFromLogIndex r (is_lastsnapshotincludeindex args)) (\<lambda>i.
                         Inr (drop (nat i + 1) (m_logs r)))
                    else Inr []) (\<lambda>logs.
        let r = r\<lparr>m_logs := logs,
                  m_commitIndex := max (m_commitIndex r) (is_lastsnapshotincludeindex args),
                  m_lastApplied := max (m_lastApplied r) (is_lastsnapshotincludeindex args),
                  m_lastSnapshotIncludeIndex := is_lastsnapshotincludeindex args,
                  m_lastSnapshotIncludeTerm := is_lastsnapshotincludeterm args\<rparr>;
            msg = ApplyMsg_new\<lparr>SnapshotValid := True, Snapshot := is_data args,
                    SnapshotTerm := is_lastsnapshotincludeterm args,
                    SnapshotIndex := is_lastsnapshotincludeindex args\<rparr>
        in Inr (r\<lparr>m_persister := Save (file_open env) (persistData env r) (is_data args) (m_persister r)\<rparr>,
                reply\<lparr>isr_term := m_currentTerm r\<rparr>, Some msg)))"

definition CondInstallSnapshot :: "int \<Rightarrow> int \<Rightarrow> string \<Rightarrow> bool" where
  "CondInstallSnapshot lastIncludedTerm lastIncludedIndex snapshot = True"

section \<open>Elections\<close>

text \<open>
  \<open>doElection\<close> returns the requests its threads send, by server; they share one counter of votes,
  which starts at 1 (\<open>None\<close> when no election is started).
\<close>

definition doElection :: "raft_env \<Rightarrow> int \<Rightarrow> raft \<Rightarrow> raft \<times> (int \<times> (int \<times> RequestVoteArgs) list) option" where
  "doElection env now r =
     (if m_status r \<noteq> Leader
      then let r = r\<lparr>m_status := Candidate, m_currentTerm := m_currentTerm r + 1, m_votedFor := m_me r\<rparr>;
               r = persist env r;
               votedNum = 1;
               r = r\<lparr>m_lastResetElectionTime := now\<rparr>;
               requests = map (\<lambda>i. (i, case getLastLogIndexAndTerm r of (lastLogIndex, lastLogTerm) \<Rightarrow>
                            \<lparr>rv_term = m_currentTerm r, rv_candidateid = m_me r,
                             rv_lastlogindex = lastLogIndex, rv_lastlogterm = lastLogTerm\<rparr>))
                            (filter (\<lambda>i. i \<noteq> m_me r) [0..int (m_peers r) - 1])
           in (r, Some (votedNum, requests))
      else (r, None))"

definition appendNoopEntryLocked :: "raft_env \<Rightarrow> raft \<Rightarrow> raft" where
  "appendNoopEntryLocked env r =
     (let noop = Op_new\<lparr>Operation := ''Noop'', Key := [], Value := [], ClientId := ''__raft_noop__'',
                        RequestId := m_currentTerm r\<rparr>;
          noopEntry = \<lparr>command = asString env noop, logterm = m_currentTerm r, logindex = getNewCommandIndex r\<rparr>
      in r\<lparr>m_logs := m_logs r @ [noopEntry]\<rparr>)"

text \<open>
  The reply of a vote request: the node, the shared counter, and whether \<open>doHeartBeat\<close> is started.
\<close>

definition sendRequestVote ::
  "raft_env \<Rightarrow> RequestVoteReply option \<Rightarrow> int \<Rightarrow> raft \<Rightarrow> exn + (raft \<times> int \<times> bool)" where
  "sendRequestVote env rpc votedNum r =
     (case rpc of None \<Rightarrow> Inr (r, votedNum, False)
      | Some reply \<Rightarrow>
        if rvr_term reply > m_currentTerm r
        then Inr (persist env (r\<lparr>m_status := Follower, m_currentTerm := rvr_term reply, m_votedFor := -1\<rparr>),
                  votedNum, False)
        else if rvr_term reply < m_currentTerm r then Inr (r, votedNum, False)
        else bindE (assertE ''assert {reply.Term==rf.currentTerm} fail'' (rvr_term reply = m_currentTerm r)) (\<lambda>_.
        if \<not> rvr_votegranted reply then Inr (r, votedNum, False)
        else let votedNum = votedNum + 1
        in if votedNum \<ge> int (m_peers r div 2 + 1)
        then bindE (assertE ''sendRequestVote: leader twice in one term'' (m_status r \<noteq> Leader)) (\<lambda>_.
             let r = r\<lparr>m_status := Leader\<rparr>;
                 lastLogIndex = getLastLogIndex r;
                 n = length (m_nextIndex r)
             in if length (m_matchIndex r) < n then Inl (UndefinedBehaviour ''m_matchIndex'')
             else let r = r\<lparr>m_nextIndex := replicate n (lastLogIndex + 1),
                            m_matchIndex := replicate n 0 @ drop n (m_matchIndex r)\<rparr>
                  in Inr (persist env (appendNoopEntryLocked env r), 0, True))
        else Inr (r, votedNum, False)))"

section \<open>Leaders\<close>

definition Start :: "raft_env \<Rightarrow> Op \<Rightarrow> raft \<Rightarrow> raft \<times> int \<times> int \<times> bool" where
  "Start env cmd r =
     (if m_status r \<noteq> Leader then (r, -1, -1, False)
      else let newLogEntry = \<lparr>command = asString env cmd, logterm = m_currentTerm r, logindex = getNewCommandIndex r\<rparr>;
               r = persist env (r\<lparr>m_logs := m_logs r @ [newLogEntry]\<rparr>)
           in (r, logindex newLogEntry, logterm newLogEntry, True))"

datatype heartbeat =
    SendSnapShot int
  | SendAppendEntries int AppendEntriesArgs

definition heartbeat_args :: "raft \<Rightarrow> int \<Rightarrow> exn + AppendEntriesArgs" where
  "heartbeat_args r i =
     bindE (getPrevLogInfo r i) (\<lambda>(preLogIndex, prevLogTerm).
     bindE (if preLogIndex \<noteq> m_lastSnapshotIncludeIndex r
            then bindE (getSlicesIndexFromLogIndex r preLogIndex) (\<lambda>j. Inr (drop (nat (j + 1)) (m_logs r)))
            else Inr (m_logs r)) (\<lambda>entries.
     bindE (assertE ''doHeartBeat: PrevLogIndex + len(Entries) != lastLogIndex''
              (preLogIndex + int (length entries) = getLastLogIndex r)) (\<lambda>_.
     Inr \<lparr>ae_term = m_currentTerm r, ae_leaderid = m_me r, ae_prevlogindex = preLogIndex,
          ae_prevlogterm = prevLogTerm, ae_entries = entries, ae_leadercommit = m_commitIndex r\<rparr>)))"

fun heartbeat_loop :: "raft \<Rightarrow> int list \<Rightarrow> exn + heartbeat list" where
  "heartbeat_loop r [] = Inr []"
| "heartbeat_loop r (i # is) =
     (if i = m_me r then heartbeat_loop r is
      else bindE (at_index ''m_nextIndex'' (m_nextIndex r) i) (\<lambda>next.
           bindE (assertE ''doHeartBeat: nextIndex < 1'' (next \<ge> 1)) (\<lambda>_.
           bindE (if next \<le> m_lastSnapshotIncludeIndex r then Inr (SendSnapShot i)
                  else bindE (heartbeat_args r i) (\<lambda>args. Inr (SendAppendEntries i args))) (\<lambda>msg.
           bindE (heartbeat_loop r is) (\<lambda>msgs. Inr (msg # msgs))))))"

text \<open>The threads of one heartbeat share the counter \<open>appendNums\<close>, which starts at 1.\<close>

definition doHeartBeat :: "int \<Rightarrow> raft \<Rightarrow> exn + (raft \<times> (int \<times> heartbeat list) option)" where
  "doHeartBeat now r =
     (if m_status r = Leader
      then bindE (heartbeat_loop r [0..int (m_peers r) - 1]) (\<lambda>msgs.
           Inr (r\<lparr>m_lastResetHearBeatTime := now\<rparr>, Some (1, msgs)))
      else Inr (r, None))"

definition sendAppendEntries ::
  "int \<Rightarrow> AppendEntriesArgs \<Rightarrow> AppendEntriesReply option \<Rightarrow> int \<Rightarrow> raft \<Rightarrow> exn + (raft \<times> int)" where
  "sendAppendEntries server args rpc appendNums r =
     (case rpc of None \<Rightarrow> Inr (r, appendNums)
      | Some reply \<Rightarrow>
        if aer_appstate reply = Disconnected then Inr (r, appendNums)
        else if aer_term reply > m_currentTerm r
        then Inr (r\<lparr>m_status := Follower, m_currentTerm := aer_term reply, m_votedFor := -1\<rparr>, appendNums)
        else if aer_term reply < m_currentTerm r then Inr (r, appendNums)
        else if m_status r \<noteq> Leader then Inr (r, appendNums)
        else bindE (assertE ''sendAppendEntries: reply.Term != rf.currentTerm'' (aer_term reply = m_currentTerm r)) (\<lambda>_.
        if \<not> aer_success reply
        then if aer_updatenextindex reply \<noteq> -100
             then bindE (upd_index ''m_nextIndex'' (m_nextIndex r) server (aer_updatenextindex reply)) (\<lambda>next.
                  Inr (r\<lparr>m_nextIndex := next\<rparr>, appendNums))
             else Inr (r, appendNums)
        else let appendNums = appendNums + 1
        in bindE (at_index ''m_matchIndex'' (m_matchIndex r) server) (\<lambda>old.
           let m = max old (ae_prevlogindex args + int (length (ae_entries args))) in
           bindE (upd_index ''m_matchIndex'' (m_matchIndex r) server m) (\<lambda>match.
           bindE (upd_index ''m_nextIndex'' (m_nextIndex r) server (m + 1)) (\<lambda>next.
           let r = r\<lparr>m_matchIndex := match, m_nextIndex := next\<rparr>;
               lastLogIndex = getLastLogIndex r
           in bindE (assertE ''sendAppendEntries: nextIndex > lastLogIndex + 1'' (m + 1 \<le> lastLogIndex + 1)) (\<lambda>_.
           if appendNums \<ge> int (1 + m_peers r div 2)
           then let r = (if ae_entries args \<noteq> [] \<and> logterm (last (ae_entries args)) = m_currentTerm r
                         then r\<lparr>m_commitIndex := max (m_commitIndex r)
                                   (ae_prevlogindex args + int (length (ae_entries args)))\<rparr>
                         else r)
                in bindE (assertE ''sendAppendEntries: commitIndex > lastLogIndex'' (m_commitIndex r \<le> lastLogIndex)) (\<lambda>_.
                   Inr (r, 0))
           else Inr (r, appendNums)))))))"

definition leaderSendSnapShot_args :: "raft_env \<Rightarrow> raft \<Rightarrow> raft \<times> InstallSnapshotRequest" where
  "leaderSendSnapShot_args env r =
     (case ReadSnapshot (file_open env) (m_persister r) of (p, data) \<Rightarrow>
        (r\<lparr>m_persister := p\<rparr>,
         \<lparr>is_leaderid = m_me r, is_term = m_currentTerm r,
          is_lastsnapshotincludeindex = m_lastSnapshotIncludeIndex r,
          is_lastsnapshotincludeterm = m_lastSnapshotIncludeTerm r, is_data = data\<rparr>))"

definition leaderSendSnapShot_reply ::
  "raft_env \<Rightarrow> int \<Rightarrow> int \<Rightarrow> InstallSnapshotRequest \<Rightarrow> InstallSnapshotResponse option \<Rightarrow> raft \<Rightarrow> exn + raft" where
  "leaderSendSnapShot_reply env now server args rpc r =
     (case rpc of None \<Rightarrow> Inr r
      | Some reply \<Rightarrow>
        if m_status r \<noteq> Leader \<or> m_currentTerm r \<noteq> is_term args then Inr r
        else if isr_term reply > m_currentTerm r
        then Inr ((persist env (r\<lparr>m_currentTerm := isr_term reply, m_votedFor := -1, m_status := Follower\<rparr>))
                  \<lparr>m_lastResetElectionTime := now\<rparr>)
        else bindE (upd_index ''m_matchIndex'' (m_matchIndex r) server (is_lastsnapshotincludeindex args)) (\<lambda>match.
             bindE (upd_index ''m_nextIndex'' (m_nextIndex r) server (is_lastsnapshotincludeindex args + 1)) (\<lambda>next.
             Inr (r\<lparr>m_matchIndex := match, m_nextIndex := next\<rparr>))))"

text \<open>\<open>leaderUpdateCommitIndex\<close>, which nothing calls, and its count of the servers that hold an entry.\<close>

fun match_count :: "raft \<Rightarrow> int \<Rightarrow> int list \<Rightarrow> exn + int" where
  "match_count r index [] = Inr 0"
| "match_count r index (i # is) =
     bindE (if i = m_me r then Inr 1
            else bindE (at_index ''m_matchIndex'' (m_matchIndex r) i) (\<lambda>m. Inr (if m \<ge> index then 1 else 0))) (\<lambda>k.
     bindE (match_count r index is) (\<lambda>n. Inr (k + n)))"

function commit_scan :: "raft \<Rightarrow> int \<Rightarrow> exn + raft" where
  "commit_scan r index =
     (if index \<ge> m_lastSnapshotIncludeIndex r + 1
      then bindE (match_count r index [0..int (m_peers r) - 1]) (\<lambda>n.
           bindE (if n \<ge> int (m_peers r div 2 + 1)
                  then bindE (getLogTermFromLogIndex r index) (\<lambda>t. Inr (t = m_currentTerm r))
                  else Inr False) (\<lambda>found.
           if found then Inr (r\<lparr>m_commitIndex := index\<rparr>) else commit_scan r (index - 1)))
      else Inr r)"
  by pat_completeness auto
termination by (relation "measure (\<lambda>(r, index). nat (index - m_lastSnapshotIncludeIndex r))") auto

declare commit_scan.simps [simp del]

definition leaderUpdateCommitIndex :: "raft \<Rightarrow> exn + raft" where
  "leaderUpdateCommitIndex r =
     (let r = r\<lparr>m_commitIndex := m_lastSnapshotIncludeIndex r\<rparr> in commit_scan r (getLastLogIndex r))"

section \<open>Applying and snapshots\<close>

function apply_loop :: "raft \<Rightarrow> exn + (raft \<times> ApplyMsg list)" where
  "apply_loop r =
     (if m_lastApplied r < m_commitIndex r
      then let r = r\<lparr>m_lastApplied := m_lastApplied r + 1\<rparr> in
           bindE (log_at r (m_lastApplied r)) (\<lambda>e.
           bindE (assertE ''getApplyLogs: LogIndex != lastApplied'' (logindex e = m_lastApplied r)) (\<lambda>_.
           bindE (apply_loop r) (\<lambda>(r', msgs).
           Inr (r', ApplyMsg_new\<lparr>CommandValid := True, SnapshotValid := False, Command := command e,
                      CommandIndex := m_lastApplied r\<rparr> # msgs))))
      else Inr (r, []))"
  by pat_completeness auto
termination by (relation "measure (\<lambda>r. nat (m_commitIndex r - m_lastApplied r))") auto

declare apply_loop.simps [simp del]

definition getApplyLogs :: "raft \<Rightarrow> exn + (raft \<times> ApplyMsg list)" where
  "getApplyLogs r =
     bindE (assertE ''getApplyLogs: commitIndex > lastLogIndex'' (m_commitIndex r \<le> getLastLogIndex r)) (\<lambda>_.
     apply_loop r)"

definition pushMsgToKvServer :: "ApplyMsg \<Rightarrow> raft \<Rightarrow> raft" where
  "pushMsgToKvServer msg r = r\<lparr>applyChan := applyChan r @ [msg]\<rparr>"

text \<open>
  One turn of \<open>applierTicker\<close>.  The messages are pushed after the lock is released: another
  thread's push may come between; here they follow at once.
\<close>

definition applierTicker :: "raft \<Rightarrow> exn + raft" where
  "applierTicker r = bindE (getApplyLogs r) (\<lambda>(r, msgs). Inr (fold pushMsgToKvServer msgs r))"

definition Raft_Snapshot :: "raft_env \<Rightarrow> int \<Rightarrow> string \<Rightarrow> raft \<Rightarrow> exn + raft" where
  "Raft_Snapshot env index snapshot r =
     (if m_lastSnapshotIncludeIndex r \<ge> index \<or> index > m_commitIndex r then Inr r
      else let lastLogIndex = getLastLogIndex r in
        bindE (log_at r index) (\<lambda>e.
        bindE (mapE (log_at r) [index + 1..getLastLogIndex r]) (\<lambda>trunckedLogs.
        let r = r\<lparr>m_lastSnapshotIncludeIndex := index, m_lastSnapshotIncludeTerm := logterm e,
                  m_logs := trunckedLogs, m_commitIndex := max (m_commitIndex r) index,
                  m_lastApplied := max (m_lastApplied r) index\<rparr>;
            r = r\<lparr>m_persister := Save (file_open env) (persistData env r) snapshot (m_persister r)\<rparr>
        in bindE (assertE ''Snapshot: len(logs) + lastSnapshotIncludeIndex != lastLogIndex''
                    (int (length (m_logs r)) + m_lastSnapshotIncludeIndex r = lastLogIndex)) (\<lambda>_. Inr r))))"

section \<open>Timers\<close>

text \<open>
  The two tickers: what they sleep after taking the time \<open>wakeTime\<close> (\<open>None\<close>: the node has not
  the status the ticker is for and it looks again later), and what they do when they wake up: nothing when
  the timer was reset after \<open>wakeTime\<close>.  Sleeps are in microseconds and at most 1 ms is not slept.
\<close>

definition HeartBeatTimeout :: int where "HeartBeatTimeout = 25"
definition minRandomizedElectionTime :: int where "minRandomizedElectionTime = 300"
definition maxRandomizedElectionTime :: int where "maxRandomizedElectionTime = 500"
definition CONSENSUS_TIMEOUT :: int where "CONSENSUS_TIMEOUT = 500"

definition sleep_us :: "int \<Rightarrow> int" where
  "sleep_us ns = (if ns > 1000000 then ns div 1000 else 0)"

definition electionTimeOutTicker_sleep :: "int \<Rightarrow> int \<Rightarrow> raft \<Rightarrow> int option" where
  "electionTimeOutTicker_sleep timeoutMs wakeTime r =
     (if m_status r = Leader then None
      else Some (sleep_us (timeoutMs * 1000000 + m_lastResetElectionTime r - wakeTime)))"

definition electionTimeOutTicker_wake ::
  "raft_env \<Rightarrow> int \<Rightarrow> int \<Rightarrow> raft \<Rightarrow> raft \<times> (int \<times> (int \<times> RequestVoteArgs) list) option" where
  "electionTimeOutTicker_wake env wakeTime now r =
     (if m_lastResetElectionTime r - wakeTime > 0 then (r, None) else doElection env now r)"

definition leaderHearBeatTicker_sleep :: "int \<Rightarrow> raft \<Rightarrow> int option" where
  "leaderHearBeatTicker_sleep wakeTime r =
     (if m_status r \<noteq> Leader then None
      else Some (sleep_us (HeartBeatTimeout * 1000000 + m_lastResetHearBeatTime r - wakeTime)))"

definition leaderHearBeatTicker_wake :: "int \<Rightarrow> int \<Rightarrow> raft \<Rightarrow> exn + (raft \<times> (int \<times> heartbeat list) option)" where
  "leaderHearBeatTicker_wake wakeTime now r =
     (if m_lastResetHearBeatTime r - wakeTime > 0 then Inr (r, None) else doHeartBeat now r)"

section \<open>ReadIndex\<close>

text \<open>
  \<open>ReadIndex\<close> fixes the term and the read index, asks every peer in a thread, and polls two
  counters, \<open>confirmCount\<close> (which starts at 1) and \<open>finished\<close>.
\<close>

definition ReadIndex_begin :: "raft \<Rightarrow> (int \<times> int) option" where
  "ReadIndex_begin r = (if m_status r \<noteq> Leader then None else Some (m_currentTerm r, m_commitIndex r))"

definition ReadIndex_args :: "int \<Rightarrow> int \<Rightarrow> raft \<Rightarrow> exn + AppendEntriesArgs option" where
  "ReadIndex_args savedTerm i r =
     (if m_currentTerm r \<noteq> savedTerm \<or> m_status r \<noteq> Leader then Inr None
      else bindE (at_index ''m_nextIndex'' (m_nextIndex r) i) (\<lambda>next.
      if next \<le> m_lastSnapshotIncludeIndex r then Inr None
      else bindE (getPrevLogInfo r i) (\<lambda>(preLogIndex, preTerm).
           Inr (Some \<lparr>ae_term = m_currentTerm r, ae_leaderid = m_me r, ae_prevlogindex = preLogIndex,
                      ae_prevlogterm = preTerm, ae_entries = [], ae_leadercommit = m_commitIndex r\<rparr>))))"

definition ReadIndex_reply :: "AppendEntriesReply option \<Rightarrow> int \<times> int \<Rightarrow> int \<times> int" where
  "ReadIndex_reply rpc = (\<lambda>(confirmCount, finished).
     ((case rpc of Some reply \<Rightarrow>
         if aer_appstate reply \<noteq> Disconnected \<and> aer_success reply then confirmCount + 1 else confirmCount
       | None \<Rightarrow> confirmCount), finished + 1))"

definition ReadIndex_poll :: "int \<Rightarrow> int \<Rightarrow> int \<Rightarrow> int \<Rightarrow> raft \<Rightarrow> bool option" where
  "ReadIndex_poll savedTerm confirmCount finished elapsed r =
     (let peersCount = int (m_peers r); majority = peersCount div 2 + 1 in
      if confirmCount \<ge> majority then Some (\<not> (m_currentTerm r \<noteq> savedTerm \<or> m_status r \<noteq> Leader))
      else if finished \<ge> peersCount - 1 then Some False
      else if elapsed > CONSENSUS_TIMEOUT then Some False
      else None)"

definition WaitForApplied_poll :: "int \<Rightarrow> int \<Rightarrow> int \<Rightarrow> raft \<Rightarrow> bool option" where
  "WaitForApplied_poll readIndex timeoutMs elapsed r =
     (if m_lastApplied r \<ge> readIndex then Some True
      else if elapsed > timeoutMs then Some False
      else None)"

end
