(* ===== verification/Kv_Engine.thy ===== *)
theory Kv_Engine
  imports KV_Prelude
begin

text \<open>
  \<open>KVEngine\<close> of \<open>storage/include/kv_engine.h\<close>: the abstract class the server stores its data
  in.  Its table of virtual functions is a record of operations over the state of the concrete
  engine; \<open>Get\<close> may change that state (the caching engine moves entries), and an operation
  that throws leaves the state it had reached.  The locale says what every engine promises: what
  a lookup returns after an insertion, a deletion and a snapshot/restore.
\<close>

record 's kv_ops =
  eGet :: "'s \<Rightarrow> string \<Rightarrow> 's \<times> (exn + string option)"
  ePut :: "'s \<Rightarrow> string \<Rightarrow> string \<Rightarrow> 's \<times> exn option"
  eDelete :: "'s \<Rightarrow> string \<Rightarrow> 's \<times> exn option"
  eSnapshot :: "'s \<Rightarrow> exn + string"
  eRestore :: "'s \<Rightarrow> string \<Rightarrow> 's \<times> exn option"
  eSize :: "'s \<Rightarrow> int"

text \<open>
  What a C++ program can hold in memory at all: \<open>size_t\<close> lengths.  Only the snapshot format
  depends on it.
\<close>

definition fits :: "(string \<rightharpoonup> string) \<Rightarrow> bool" where
  "fits m \<longleftrightarrow> card (dom m) < 2 ^ 64 \<and>
     (\<forall>k v. m k = Some v \<longrightarrow> length k < 2 ^ 64 \<and> length v < 2 ^ 64)"

text \<open>\<open>static_cast<int>\<close> of a \<open>size_t\<close>.\<close>

definition size_to_int :: "nat \<Rightarrow> int" where
  "size_to_int n = sint (word_of_nat n :: 32 word)"

lemma size_to_int_small: "n < 2 ^ 31 \<Longrightarrow> size_to_int n = int n"
  by (simp add: size_to_int_def signed_of_nat signed_take_bit_int_eq_self)

locale kv_engine =
  fixes E :: "'s kv_ops"
    and view :: "'s \<Rightarrow> string \<rightharpoonup> string"
    and ok :: "'s \<Rightarrow> bool"
  assumes get_law: "ok s \<Longrightarrow> \<exists>s'. eGet E s k = (s', Inr (view s k)) \<and> ok s' \<and> view s' = view s"
    and put_law: "ok s \<Longrightarrow> ePut E s k v = (s', None) \<Longrightarrow> ok s' \<and> view s' = (view s)(k \<mapsto> v)"
    and delete_law: "ok s \<Longrightarrow> eDelete E s k = (s', None) \<Longrightarrow> ok s' \<and> view s' = (view s)(k := None)"
    and snapshot_law: "ok s \<Longrightarrow> \<exists>data. eSnapshot E s = Inr data"
    and restore_law: "ok s \<Longrightarrow> ok t \<Longrightarrow> fits (view s) \<Longrightarrow> eSnapshot E s = Inr data \<Longrightarrow> eRestore E t data = (t', None) \<Longrightarrow>
      ok t' \<and> view t' = view s"
    and size_law: "ok s \<Longrightarrow> card (dom (view s)) < 2 ^ 31 \<Longrightarrow> eSize E s = int (card (dom (view s)))"
begin

lemma get_after_put:
  assumes "ok s" "ePut E s k v = (s', None)"
  shows "snd (eGet E s' x) = Inr (if x = k then Some v else view s x)"
proof -
  have s': "ok s'" "view s' = (view s)(k \<mapsto> v)" using put_law [OF assms] by auto
  obtain t where "eGet E s' x = (t, Inr (view s' x))" using get_law [OF s'(1)] by blast
  then show ?thesis using s'(2) by simp
qed

lemma get_after_delete:
  assumes "ok s" "eDelete E s k = (s', None)"
  shows "snd (eGet E s' x) = Inr (if x = k then None else view s x)"
proof -
  have s': "ok s'" "view s' = (view s)(k := None)" using delete_law [OF assms] by auto
  obtain t where "eGet E s' x = (t, Inr (view s' x))" using get_law [OF s'(1)] by blast
  then show ?thesis using s'(2) by simp
qed

end

text \<open>
  An engine whose updates never throw on a well-formed state: the in-memory engines.
\<close>

locale total_engine = kv_engine +
  assumes put_total: "ok s \<Longrightarrow> \<exists>s'. ePut E s k v = (s', None)"
    and delete_total: "ok s \<Longrightarrow> \<exists>s'. eDelete E s k = (s', None)"
    and restore_total: "ok s \<Longrightarrow> ok t \<Longrightarrow> eSnapshot E s = Inr data \<Longrightarrow> \<exists>t'. eRestore E t data = (t', None)"

end
