(* ===== verification/Kv_Server.thy ===== *)
theory Kv_Server
  imports Raft_Node Kv_Engine
begin

text \<open>
  The KV server of \<open>raftCore/kvServer.cpp\<close>: the state machine above a Raft node.  It takes committed
  commands from the queue the node pushes them to, skips requests it has seen, runs the others on the
  engine, and tells the waiting RPC handlers.

  The model is generic in the engine, a record of operations \<open>E\<close>.  The two hash maps of the state are
  association lists sorted by key, because they are archived.  The queues handlers wait on are objects
  in a heap: \<open>waitApplyCh\<close> holds their addresses, and using a queue that was deleted is undefined
  behaviour.  Nothing catches an exception, so one ends the process: the operations return
  \<open>exn + result\<close>.  An RPC handler is split where it waits, with no lock held.  The clock,
  \<open>getCurrentTimeMs\<close>, is an argument, in milliseconds.
\<close>

record 's kvserver =
  kv_me :: int
  m_raftNode :: raft
  m_maxRaftState :: int
  m_serializedKVData :: string
  m_engine :: 's
  waitApplyCh :: "int \<rightharpoonup> nat"
  channels :: "nat \<rightharpoonup> Op list"
  next_channel :: nat
  m_lastRequestId :: "(string, int) smap"
  m_lastSnapShotRaftLogIndex :: int
  m_expireMap :: "(string, 64 word) smap"

type_synonym kv_archive = "string \<times> (string, int) smap \<times> (string, 64 word) smap"

record kv_env =
  kv_raft :: raft_env
  kv_oarchive :: "kv_archive \<Rightarrow> string"
  kv_iarchive :: "string \<Rightarrow> exn + kv_archive"

record GetArgs =
  ga_key :: string
  ga_clientid :: string
  ga_requestid :: int

record GetReply =
  gr_err :: string
  gr_value :: string

record PutAppendArgs =
  pa_key :: string
  pa_value :: string
  pa_op :: string
  pa_clientid :: string
  pa_requestid :: int
  pa_ttlms :: "64 word"

definition OK :: string where "OK = ''OK''"
definition ErrNoKey :: string where "ErrNoKey = ''ErrNoKey''"
definition ErrWrongLeader :: string where "ErrWrongLeader = ''ErrWrongLeader''"

lemmas reply_codes = OK_def ErrNoKey_def ErrWrongLeader_def

section \<open>Keys that expire\<close>

definition isKeyExpired :: "64 word \<Rightarrow> 's kvserver \<Rightarrow> string \<Rightarrow> bool" where
  "isKeyExpired now s key = (case map_of (m_expireMap s) key of None \<Rightarrow> False | Some t \<Rightarrow> now > t)"

definition smap_erase :: "'k \<Rightarrow> ('k, 'v) smap \<Rightarrow> ('k, 'v) smap" where
  "smap_erase k m = filter (\<lambda>p. fst p \<noteq> k) m"

definition setKeyExpire :: "string \<Rightarrow> 64 word \<Rightarrow> 's kvserver \<Rightarrow> 's kvserver" where
  "setKeyExpire key expireAtMs s =
     (if sint expireAtMs > 0 then s\<lparr>m_expireMap := smap_put key expireAtMs (m_expireMap s)\<rparr>
      else s\<lparr>m_expireMap := smap_erase key (m_expireMap s)\<rparr>)"

text \<open>One turn of \<open>activeExpireCycle\<close> only counts, for the debug output, how many of the sampled keys expired.\<close>

definition activeExpireCycle_turn :: "64 word \<Rightarrow> 's kvserver \<Rightarrow> nat" where
  "activeExpireCycle_turn now s = length (filter (\<lambda>p. now > snd p) (take 20 (m_expireMap s)))"

section \<open>Executing commands\<close>

definition engine_get :: "'s kv_ops \<Rightarrow> string \<Rightarrow> 's kvserver \<Rightarrow> exn + ('s kvserver \<times> string option)" where
  "engine_get E key s = (case eGet E (m_engine s) key of
     (e, Inl x) \<Rightarrow> Inl x | (e, Inr v) \<Rightarrow> Inr (s\<lparr>m_engine := e\<rparr>, v))"

definition engine_do :: "('s \<Rightarrow> 's proc) \<Rightarrow> 's kvserver \<Rightarrow> exn + 's kvserver" where
  "engine_do f s = (case f (m_engine s) of (e, Some x) \<Rightarrow> Inl x | (e, None) \<Rightarrow> Inr (s\<lparr>m_engine := e\<rparr>))"

definition ExecuteAppendOpOnKVDB :: "'s kv_ops \<Rightarrow> 64 word \<Rightarrow> Op \<Rightarrow> 's kvserver \<Rightarrow> exn + 's kvserver" where
  "ExecuteAppendOpOnKVDB E now op s =
     bindE (if isKeyExpired now s (Key op)
            then bindE (engine_do (\<lambda>e. eDelete E e (Key op)) s) (\<lambda>s.
                 Inr (s\<lparr>m_expireMap := smap_erase (Key op) (m_expireMap s)\<rparr>))
            else Inr s) (\<lambda>s.
     bindE (engine_get E (Key op) s) (\<lambda>(s, oldValue).
     let newValue = (case oldValue of None \<Rightarrow> Value op | Some old \<Rightarrow> old @ Value op) in
     bindE (engine_do (\<lambda>e. ePut E e (Key op) newValue) s) (\<lambda>s.
     let s = setKeyExpire (Key op) (ExpireAtMs op) s in
     Inr (s\<lparr>m_lastRequestId := smap_put (ClientId op) (RequestId op) (m_lastRequestId s)\<rparr>))))"

definition ExecutePutOpOnKVDB :: "'s kv_ops \<Rightarrow> Op \<Rightarrow> 's kvserver \<Rightarrow> exn + 's kvserver" where
  "ExecutePutOpOnKVDB E op s =
     bindE (engine_do (\<lambda>e. ePut E e (Key op) (Value op)) s) (\<lambda>s.
     let s = setKeyExpire (Key op) (ExpireAtMs op) s in
     Inr (s\<lparr>m_lastRequestId := smap_put (ClientId op) (RequestId op) (m_lastRequestId s)\<rparr>))"

text \<open>The result pair \<open>(value, exist)\<close> of the two reads is \<open>Some value\<close> when the key exists.\<close>

definition ExecuteGetOpOnKVDB ::
  "'s kv_ops \<Rightarrow> 64 word \<Rightarrow> Op \<Rightarrow> 's kvserver \<Rightarrow> exn + ('s kvserver \<times> string option)" where
  "ExecuteGetOpOnKVDB E now op s =
     (if isKeyExpired now s (Key op)
      then bindE (engine_do (\<lambda>e. eDelete E e (Key op)) s) (\<lambda>s.
           Inr (s\<lparr>m_expireMap := smap_erase (Key op) (m_expireMap s),
                  m_lastRequestId := smap_put (ClientId op) (RequestId op) (m_lastRequestId s)\<rparr>, None))
      else bindE (engine_get E (Key op) s) (\<lambda>(s, value).
           Inr (s\<lparr>m_lastRequestId := smap_put (ClientId op) (RequestId op) (m_lastRequestId s)\<rparr>, value)))"

definition ExecuteReadOnlyGetOpOnKVDB ::
  "'s kv_ops \<Rightarrow> 64 word \<Rightarrow> Op \<Rightarrow> 's kvserver \<Rightarrow> exn + ('s kvserver \<times> string option)" where
  "ExecuteReadOnlyGetOpOnKVDB E now op s =
     (if isKeyExpired now s (Key op) then Inr (s, None) else engine_get E (Key op) s)"

definition ifRequestDuplicate :: "string \<Rightarrow> int \<Rightarrow> 's kvserver \<Rightarrow> bool" where
  "ifRequestDuplicate clientId requestId s =
     (case map_of (m_lastRequestId s) clientId of None \<Rightarrow> False | Some done \<Rightarrow> requestId \<le> done)"

section \<open>Snapshots\<close>

definition getSnapshotData :: "'s kv_ops \<Rightarrow> kv_env \<Rightarrow> 's kvserver \<Rightarrow> exn + ('s kvserver \<times> string)" where
  "getSnapshotData E env s =
     bindE (eSnapshot E (m_engine s)) (\<lambda>data.
     let str = kv_oarchive env (data, m_lastRequestId s, m_expireMap s) in
     Inr (s\<lparr>m_serializedKVData := []\<rparr>, str))"

definition kv_parseFromString :: "'s kv_ops \<Rightarrow> kv_env \<Rightarrow> string \<Rightarrow> 's kvserver \<Rightarrow> exn + 's kvserver" where
  "kv_parseFromString E env str s =
     bindE (kv_iarchive env str) (\<lambda>(data, requests, expires).
     let s = s\<lparr>m_serializedKVData := data, m_lastRequestId := requests, m_expireMap := expires\<rparr> in
     bindE (engine_do (\<lambda>e. eRestore E e (m_serializedKVData s)) s) (\<lambda>s. Inr (s\<lparr>m_serializedKVData := []\<rparr>)))"

definition ReadSnapShotToInstall :: "'s kv_ops \<Rightarrow> kv_env \<Rightarrow> string \<Rightarrow> 's kvserver \<Rightarrow> exn + 's kvserver" where
  "ReadSnapShotToInstall E env snapshot s = (if snapshot = [] then Inr s else kv_parseFromString E env snapshot s)"

definition MakeSnapShot :: "'s kv_ops \<Rightarrow> kv_env \<Rightarrow> 's kvserver \<Rightarrow> exn + ('s kvserver \<times> string)" where
  "MakeSnapShot E env s = getSnapshotData E env s"

text \<open>\<open>GetRaftStateSize() > m_maxRaftState * proportion / 10.0\<close>, multiplied by ten.\<close>

definition IfNeedToSendSnapShotCommand :: "'s kv_ops \<Rightarrow> kv_env \<Rightarrow> int \<Rightarrow> int \<Rightarrow> 's kvserver \<Rightarrow> exn + 's kvserver" where
  "IfNeedToSendSnapShotCommand E env raftIndex proportion s =
     (if m_maxRaftState s \<le> 0 then Inr s
      else if 10 * GetRaftStateSize (m_raftNode s) > m_maxRaftState s * proportion
      then bindE (MakeSnapShot E env s) (\<lambda>(s, snapshot).
           bindE (Raft_Snapshot (kv_raft env) raftIndex snapshot (m_raftNode s)) (\<lambda>r. Inr (s\<lparr>m_raftNode := r\<rparr>)))
      else Inr s)"

definition GetSnapShotFromRaft :: "'s kv_ops \<Rightarrow> kv_env \<Rightarrow> ApplyMsg \<Rightarrow> 's kvserver \<Rightarrow> exn + 's kvserver" where
  "GetSnapShotFromRaft E env message s =
     (if CondInstallSnapshot (SnapshotTerm message) (SnapshotIndex message) (Snapshot message)
      then bindE (ReadSnapShotToInstall E env (Snapshot message) s) (\<lambda>s.
           Inr (s\<lparr>m_lastSnapShotRaftLogIndex := SnapshotIndex message\<rparr>))
      else Inr s)"

section \<open>Applying\<close>

definition SendMessageToWaitChan :: "Op \<Rightarrow> int \<Rightarrow> 's kvserver \<Rightarrow> exn + ('s kvserver \<times> bool)" where
  "SendMessageToWaitChan op raftIndex s =
     (case waitApplyCh s raftIndex of
        None \<Rightarrow> Inr (s, False)
      | Some c \<Rightarrow>
          (case channels s c of
             None \<Rightarrow> Inl (UndefinedBehaviour ''deleted queue'')
           | Some q \<Rightarrow> Inr (s\<lparr>channels := (channels s)(c \<mapsto> q @ [op])\<rparr>, True)))"

text \<open>A command that was seen before is skipped; \<open>Get\<close> and \<open>Noop\<close> do nothing here.\<close>

definition execute_command :: "'s kv_ops \<Rightarrow> 64 word \<Rightarrow> Op \<Rightarrow> 's kvserver \<Rightarrow> exn + 's kvserver" where
  "execute_command E now op s =
     (if \<not> ifRequestDuplicate (ClientId op) (RequestId op) s
      then if Operation op = ''Put'' then ExecutePutOpOnKVDB E op s
           else if Operation op = ''Append'' then ExecuteAppendOpOnKVDB E now op s
           else Inr s
      else Inr s)"

definition GetCommandFromRaft :: "'s kv_ops \<Rightarrow> kv_env \<Rightarrow> 64 word \<Rightarrow> ApplyMsg \<Rightarrow> 's kvserver \<Rightarrow> exn + 's kvserver" where
  "GetCommandFromRaft E env now message s =
     bindE (parseFromString (kv_raft env) (Command message)) (\<lambda>op.
     if CommandIndex message \<le> m_lastSnapShotRaftLogIndex s then Inr s
     else
       bindE (execute_command E now op s) (\<lambda>s.
       bindE (if m_maxRaftState s \<noteq> -1 then IfNeedToSendSnapShotCommand E env (CommandIndex message) 9 s else Inr s) (\<lambda>s.
       bindE (SendMessageToWaitChan op (CommandIndex message) s) (\<lambda>(s, sent). Inr s))))"

text \<open>One turn of the loop; on an empty queue \<open>Pop\<close> keeps waiting and nothing changes.\<close>

definition ReadRaftApplyCommandLoop_turn :: "'s kv_ops \<Rightarrow> kv_env \<Rightarrow> 64 word \<Rightarrow> 's kvserver \<Rightarrow> exn + 's kvserver" where
  "ReadRaftApplyCommandLoop_turn E env now s =
     (case applyChan (m_raftNode s) of
        [] \<Rightarrow> Inr s
      | message # rest \<Rightarrow>
          let s = s\<lparr>m_raftNode := (m_raftNode s)\<lparr>applyChan := rest\<rparr>\<rparr> in
          bindE (if CommandValid message then GetCommandFromRaft E env now message s else Inr s) (\<lambda>s.
          if SnapshotValid message then GetSnapShotFromRaft E env message s else Inr s))"

section \<open>The RPC handlers\<close>

definition FillGetReply :: "string option \<Rightarrow> GetReply" where
  "FillGetReply value = (case value of
     Some v \<Rightarrow> \<lparr>gr_err = OK, gr_value = v\<rparr> | None \<Rightarrow> \<lparr>gr_err = ErrNoKey, gr_value = []\<rparr>)"

text \<open>
  What the first part of a handler ends with: the reply, or the operation, its log index and the queue
  the handler then waits on.
\<close>

datatype 'r rpc_step = Replied 'r | Waiting Op int nat

definition open_channel :: "int \<Rightarrow> 's kvserver \<Rightarrow> 's kvserver \<times> nat" where
  "open_channel raftIndex s =
     (case waitApplyCh s raftIndex of
        Some c \<Rightarrow> (s, c)
      | None \<Rightarrow>
          (s\<lparr>waitApplyCh := (waitApplyCh s)(raftIndex \<mapsto> next_channel s),
             channels := (channels s)(next_channel s \<mapsto> []), next_channel := Suc (next_channel s)\<rparr>, next_channel s))"

definition close_channel :: "int \<Rightarrow> 's kvserver \<Rightarrow> exn + 's kvserver" where
  "close_channel raftIndex s =
     (case waitApplyCh s raftIndex of
        None \<Rightarrow> Inr s
      | Some c \<Rightarrow>
          (case channels s c of
             None \<Rightarrow> Inl (UndefinedBehaviour ''queue deleted twice'')
           | Some q \<Rightarrow> Inr (s\<lparr>channels := (channels s)(c := None), waitApplyCh := (waitApplyCh s)(raftIndex := None)\<rparr>)))"

text \<open>When \<open>timeOutPop\<close> returns: an element, or \<open>None\<close> when the queue is still empty at the timeout.\<close>

definition timeOutPop :: "nat \<Rightarrow> 's kvserver \<Rightarrow> exn + ('s kvserver \<times> Op option)" where
  "timeOutPop c s =
     (case channels s c of
        None \<Rightarrow> Inl (UndefinedBehaviour ''deleted queue'')
      | Some [] \<Rightarrow> Inr (s, None)
      | Some (op # q) \<Rightarrow> Inr (s\<lparr>channels := (channels s)(c \<mapsto> q)\<rparr>, Some op))"

definition start_and_wait :: "kv_env \<Rightarrow> Op \<Rightarrow> 'r \<Rightarrow> 's kvserver \<Rightarrow> 's kvserver \<times> 'r rpc_step" where
  "start_and_wait env op wrongLeader s =
     (case Start (kv_raft env) op (m_raftNode s) of (r, raftIndex, trm, isLeader) \<Rightarrow>
        let s = s\<lparr>m_raftNode := r\<rparr> in
        if \<not> isLeader then (s, Replied wrongLeader)
        else case open_channel raftIndex s of (s, c) \<Rightarrow> (s, Waiting op raftIndex c))"

definition get_op :: "GetArgs \<Rightarrow> Op" where
  "get_op args = Op_new\<lparr>Operation := ''Get'', Key := ga_key args, Value := [], ClientId := ga_clientid args,
                        RequestId := ga_requestid args\<rparr>"

text \<open>\<open>confirmed\<close>: \<open>ReadIndex\<close> and \<open>WaitForApplied\<close> both returned true.\<close>

definition Get_begin ::
  "'s kv_ops \<Rightarrow> kv_env \<Rightarrow> 64 word \<Rightarrow> bool \<Rightarrow> GetArgs \<Rightarrow> 's kvserver \<Rightarrow> exn + ('s kvserver \<times> GetReply rpc_step)" where
  "Get_begin E env now confirmed args s =
     (let op = get_op args in
      if confirmed
      then bindE (ExecuteReadOnlyGetOpOnKVDB E now op s) (\<lambda>(s, value). Inr (s, Replied (FillGetReply value)))
      else Inr (start_and_wait env op \<lparr>gr_err = ErrWrongLeader, gr_value = []\<rparr> s))"

definition Get_finish ::
  "'s kv_ops \<Rightarrow> 64 word \<Rightarrow> Op \<Rightarrow> int \<Rightarrow> nat \<Rightarrow> 's kvserver \<Rightarrow> exn + ('s kvserver \<times> GetReply)" where
  "Get_finish E now op raftIndex c s =
     (let wrong = \<lparr>gr_err = ErrWrongLeader, gr_value = []\<rparr>;
          read = (\<lambda>s. bindE (ExecuteGetOpOnKVDB E now op s) (\<lambda>(s, value). Inr (s, FillGetReply value)))
      in bindE (timeOutPop c s) (\<lambda>(s, popped).
         bindE (case popped of
             None \<Rightarrow>
               (case GetState (m_raftNode s) of (currentTerm, stillLeader) \<Rightarrow>
                  if ifRequestDuplicate (ClientId op) (RequestId op) s \<and> stillLeader then read s else Inr (s, wrong))
           | Some raftCommitOp \<Rightarrow>
               if ClientId raftCommitOp = ClientId op \<and> RequestId raftCommitOp = RequestId op then read s
               else Inr (s, wrong)) (\<lambda>(s, reply).
         bindE (close_channel raftIndex s) (\<lambda>s. Inr (s, reply)))))"

definition put_append_op :: "64 word \<Rightarrow> PutAppendArgs \<Rightarrow> Op" where
  "put_append_op now args = Op_new\<lparr>Operation := pa_op args, Key := pa_key args, Value := pa_value args,
     ClientId := pa_clientid args, RequestId := pa_requestid args, TtlMs := pa_ttlms args,
     ExpireAtMs := (if sint (pa_ttlms args) > 0 then now + pa_ttlms args else 0)\<rparr>"

definition PutAppend_begin :: "kv_env \<Rightarrow> 64 word \<Rightarrow> PutAppendArgs \<Rightarrow> 's kvserver \<Rightarrow> 's kvserver \<times> string rpc_step" where
  "PutAppend_begin env now args s = start_and_wait env (put_append_op now args) ErrWrongLeader s"

definition PutAppend_finish :: "Op \<Rightarrow> int \<Rightarrow> nat \<Rightarrow> 's kvserver \<Rightarrow> exn + ('s kvserver \<times> string)" where
  "PutAppend_finish op raftIndex c s =
     bindE (timeOutPop c s) (\<lambda>(s, popped).
     let reply = (case popped of
             None \<Rightarrow> if ifRequestDuplicate (ClientId op) (RequestId op) s then OK else ErrWrongLeader
           | Some raftCommitOp \<Rightarrow>
               if ClientId raftCommitOp = ClientId op \<and> RequestId raftCommitOp = RequestId op then OK
               else ErrWrongLeader)
     in bindE (close_channel raftIndex s) (\<lambda>s. Inr (s, reply)))"

section \<open>Starting\<close>

text \<open>
  The constructor on a new engine: the persister on the disk \<open>d\<close>, the Raft node, and the snapshot
  that was stored.  The node and the server share the persister.  Registering the services, the sleeps and the
  threads are left out.
\<close>

definition KvServer_new ::
  "'s kv_ops \<Rightarrow> kv_env \<Rightarrow> 's \<Rightarrow> int \<Rightarrow> int \<Rightarrow> nat \<Rightarrow> int \<Rightarrow> (string \<rightharpoonup> string) \<Rightarrow> exn + 's kvserver" where
  "KvServer_new E env engine me maxraftstate peers now d =
     (let opens = file_open (kv_raft env); persister = Persister_new opens me d in
      bindE (init (kv_raft env) now peers me persister []) (\<lambda>r.
      case ReadSnapshot opens (m_persister r) of (persister, snapshot) \<Rightarrow>
      let s = \<lparr>kv_me = me, m_raftNode = r\<lparr>m_persister := persister\<rparr>, m_maxRaftState = maxraftstate,
               m_serializedKVData = [], m_engine = engine, waitApplyCh = Map.empty, channels = Map.empty,
               next_channel = 0, m_lastRequestId = [], m_lastSnapShotRaftLogIndex = 0, m_expireMap = []\<rparr>
      in if snapshot \<noteq> [] then ReadSnapShotToInstall E env snapshot s else Inr s))"

end
