(* ===== verification/Skip_List.thy ===== *)
theory Skip_List
  imports KV_Prelude
begin

text \<open>
  \<open>SkipList<std::string, std::string>\<close> of \<open>skipList/include/skipList.h\<close>, on an explicit heap: a node
  has an address, and its \<open>forward\<close> array holds addresses or null.  Reading through null, through a
  node that was deleted or outside an array is undefined behaviour.

  Two kinds of loop follow pointers or random numbers and could run for ever.  A walk along \<open>forward\<close>
  gets as many steps as nodes were ever allocated: a walk that needs more has visited a node twice, so it
  never ends, which is the value \<open>Diverges\<close>.  The loop of \<open>get_random_level\<close> ends when \<open>std::rand\<close>
  returns an even number; the numbers it returns are a parameter.  The archive \<open>dump_file\<close> writes with
  boost is a parameter, too.
\<close>

record sl_node =
  key :: string
  val :: string
  node_level :: nat
  forward :: "nat option list"

type_synonym sl_heap = "nat \<rightharpoonup> sl_node"

record skiplist =
  max_level :: nat
  skip_list_level :: nat
  header :: nat
  element_count :: int
  heap :: sl_heap
  allocated :: nat
  rand_pos :: nat

record sl_env =
  rand :: "nat \<Rightarrow> nat"
  dump_oarchive :: "string list \<times> string list \<Rightarrow> string"
  dump_iarchive :: "string \<Rightarrow> exn + (string list \<times> string list)"

section \<open>Nodes\<close>

definition deref :: "sl_heap \<Rightarrow> nat \<Rightarrow> exn + sl_node" where
  "deref h a = (case h a of None \<Rightarrow> Inl (UndefinedBehaviour ''dangling node'') | Some n \<Rightarrow> Inr n)"

definition fwd :: "sl_heap \<Rightarrow> nat \<Rightarrow> nat \<Rightarrow> exn + nat option" where
  "fwd h a i = bindE (deref h a) (\<lambda>n. at_index ''forward'' (forward n) (int i))"

definition set_fwd :: "sl_heap \<Rightarrow> nat \<Rightarrow> nat \<Rightarrow> nat option \<Rightarrow> exn + sl_heap" where
  "set_fwd h a i p =
     bindE (deref h a) (\<lambda>n.
     bindE (upd_index ''forward'' (forward n) (int i) p) (\<lambda>f. Inr (h(a \<mapsto> n\<lparr>forward := f\<rparr>))))"

definition new_node :: "string \<Rightarrow> string \<Rightarrow> nat \<Rightarrow> sl_node" where
  "new_node k v level = \<lparr>key = k, val = v, node_level = level, forward = replicate (level + 1) None\<rparr>"

text \<open>\<open>update[i]\<close>: an entry that was never set is null.\<close>

definition update_at :: "nat option list \<Rightarrow> nat \<Rightarrow> exn + nat" where
  "update_at update i =
     bindE (at_index ''update'' update (int i)) (\<lambda>p.
     case p of None \<Rightarrow> Inl (UndefinedBehaviour ''null pointer'') | Some a \<Rightarrow> Inr a)"

section \<open>Searching\<close>

text \<open>The inner loop: along level \<open>i\<close> while the next key is smaller.\<close>

fun walk :: "sl_heap \<Rightarrow> nat \<Rightarrow> nat \<Rightarrow> nat \<Rightarrow> string \<Rightarrow> exn + nat" where
  "walk h 0 current i k = Inl (Diverges ''walk'')"
| "walk h (Suc fuel) current i k =
     bindE (fwd h current i) (\<lambda>next.
     case next of
       None \<Rightarrow> Inr current
     | Some b \<Rightarrow> bindE (deref h b) (\<lambda>n. if key n < k then walk h fuel b i k else Inr current))"

text \<open>The outer loop over the levels \<open>n - 1\<close> down to 0: where it ends, and where it was on each level.\<close>

fun descend :: "sl_heap \<Rightarrow> nat \<Rightarrow> nat \<Rightarrow> nat \<Rightarrow> string \<Rightarrow> exn + (nat \<times> nat list)" where
  "descend h fuel current 0 k = Inr (current, [])"
| "descend h fuel current (Suc i) k =
     bindE (walk h fuel current i k) (\<lambda>current.
     bindE (descend h fuel current i k) (\<lambda>(end, path). Inr (end, path @ [current])))"

definition find_update :: "skiplist \<Rightarrow> string \<Rightarrow> exn + (nat option \<times> nat option list)" where
  "find_update s k =
     bindE (descend (heap s) (allocated s) (header s) (skip_list_level s + 1) k) (\<lambda>(current, path).
     bindE (fwd (heap s) current 0) (\<lambda>next.
     Inr (next, map Some path @ replicate (max_level s - skip_list_level s) None)))"

definition search_element :: "skiplist \<Rightarrow> string \<Rightarrow> exn + string option" where
  "search_element s k =
     bindE (find_update s k) (\<lambda>(current, update).
     case current of
       None \<Rightarrow> Inr None
     | Some a \<Rightarrow> bindE (deref (heap s) a) (\<lambda>n. Inr (if key n = k then Some (val n) else None)))"

section \<open>Inserting\<close>

partial_function (option) random_loop :: "(nat \<Rightarrow> nat) \<Rightarrow> nat \<Rightarrow> nat \<Rightarrow> (nat \<times> nat) option" where
  "random_loop r pos level =
     (if r pos mod 2 \<noteq> 0 then random_loop r (Suc pos) (level + 1) else Some (level, Suc pos))"

definition get_random_level :: "sl_env \<Rightarrow> skiplist \<Rightarrow> exn + (nat \<times> skiplist)" where
  "get_random_level env s =
     (case random_loop (rand env) (rand_pos s) 1 of
        None \<Rightarrow> Inl (Diverges ''get_random_level'')
      | Some (level, pos) \<Rightarrow> Inr (if level < max_level s then level else max_level s, s\<lparr>rand_pos := pos\<rparr>))"

definition create_node :: "string \<Rightarrow> string \<Rightarrow> nat \<Rightarrow> skiplist \<Rightarrow> nat \<times> skiplist" where
  "create_node k v level s =
     (allocated s, s\<lparr>heap := (heap s)(allocated s \<mapsto> new_node k v level), allocated := Suc (allocated s)\<rparr>)"

fun link_levels :: "nat option list \<Rightarrow> nat \<Rightarrow> nat list \<Rightarrow> sl_heap \<Rightarrow> exn + sl_heap" where
  "link_levels update z [] h = Inr h"
| "link_levels update z (i # is) h =
     bindE (update_at update i) (\<lambda>u.
     bindE (fwd h u i) (\<lambda>next.
     bindE (set_fwd h z i next) (\<lambda>h.
     bindE (set_fwd h u i (Some z)) (\<lambda>h. link_levels update z is h))))"

definition insert_element_locked :: "sl_env \<Rightarrow> skiplist \<Rightarrow> string \<Rightarrow> string \<Rightarrow> exn + (skiplist \<times> int)" where
  "insert_element_locked env s k v =
     bindE (find_update s k) (\<lambda>(current, update).
     bindE (case current of None \<Rightarrow> Inr False | Some a \<Rightarrow> bindE (deref (heap s) a) (\<lambda>n. Inr (key n = k))) (\<lambda>present.
     if present then Inr (s, 1)
     else bindE (get_random_level env s) (\<lambda>(randomLevel, s).
       let update = (if randomLevel > skip_list_level s
                     then foldl (\<lambda>u i. u[i := Some (header s)]) update [skip_list_level s + 1..<randomLevel + 1]
                     else update);
           s = (if randomLevel > skip_list_level s then s\<lparr>skip_list_level := randomLevel\<rparr> else s)
       in case create_node k v randomLevel s of (z, s) \<Rightarrow>
          bindE (link_levels update z [0..<randomLevel + 1] (heap s)) (\<lambda>h.
          Inr (s\<lparr>heap := h, element_count := element_count s + 1\<rparr>, 0)))))"

definition insert_element :: "sl_env \<Rightarrow> skiplist \<Rightarrow> string \<Rightarrow> string \<Rightarrow> exn + (skiplist \<times> int)" where
  "insert_element env s k v = insert_element_locked env s k v"

section \<open>Deleting\<close>

fun unlink_levels :: "nat option list \<Rightarrow> nat \<Rightarrow> nat list \<Rightarrow> sl_heap \<Rightarrow> exn + sl_heap" where
  "unlink_levels update z [] h = Inr h"
| "unlink_levels update z (i # is) h =
     bindE (update_at update i) (\<lambda>u.
     bindE (fwd h u i) (\<lambda>next.
     if next \<noteq> Some z then Inr h
     else bindE (fwd h z i) (\<lambda>after.
          bindE (set_fwd h u i after) (\<lambda>h. unlink_levels update z is h))))"

fun lower_level :: "sl_heap \<Rightarrow> nat \<Rightarrow> nat \<Rightarrow> exn + nat" where
  "lower_level h hdr 0 = Inr 0"
| "lower_level h hdr (Suc l) =
     bindE (fwd h hdr (Suc l)) (\<lambda>next. if next = None then lower_level h hdr l else Inr (Suc l))"

definition delete_element_locked :: "skiplist \<Rightarrow> string \<Rightarrow> exn + (skiplist \<times> bool)" where
  "delete_element_locked s k =
     bindE (find_update s k) (\<lambda>(current, update).
     case current of
       None \<Rightarrow> Inr (s, False)
     | Some z \<Rightarrow>
         bindE (deref (heap s) z) (\<lambda>n.
         if key n \<noteq> k then Inr (s, False)
         else bindE (unlink_levels update z [0..<skip_list_level s + 1] (heap s)) (\<lambda>h.
              bindE (lower_level h (header s) (skip_list_level s)) (\<lambda>l.
              Inr (s\<lparr>heap := h(z := None), skip_list_level := l, element_count := element_count s - 1\<rparr>, True)))))"

definition delete_element :: "skiplist \<Rightarrow> string \<Rightarrow> exn + skiplist" where
  "delete_element s k = bindE (delete_element_locked s k) (\<lambda>(s, deleted). Inr s)"

definition insert_set_element :: "sl_env \<Rightarrow> skiplist \<Rightarrow> string \<Rightarrow> string \<Rightarrow> exn + skiplist" where
  "insert_set_element env s k v =
     bindE (delete_element_locked s k) (\<lambda>(s, deleted).
     bindE (insert_element_locked env s k v) (\<lambda>(s, r). Inr s))"

section \<open>Dump, load, size\<close>

fun collect :: "sl_heap \<Rightarrow> nat \<Rightarrow> nat option \<Rightarrow> exn + (string list \<times> string list)" where
  "collect h fuel None = Inr ([], [])"
| "collect h 0 (Some a) = Inl (Diverges ''dump_file'')"
| "collect h (Suc fuel) (Some a) =
     bindE (deref h a) (\<lambda>n.
     bindE (fwd h a 0) (\<lambda>next.
     bindE (collect h fuel next) (\<lambda>(ks, vs). Inr (key n # ks, val n # vs))))"

definition dump_file :: "sl_env \<Rightarrow> skiplist \<Rightarrow> exn + string" where
  "dump_file env s =
     bindE (fwd (heap s) (header s) 0) (\<lambda>node.
     bindE (collect (heap s) (allocated s) node) (\<lambda>dumper. Inr (dump_oarchive env dumper)))"

text \<open>\<open>clear\<close> frees a chain from its end; the recursion is as deep as the chain is long.\<close>

fun clear_chain :: "nat \<Rightarrow> nat \<Rightarrow> sl_heap \<Rightarrow> exn + sl_heap" where
  "clear_chain 0 cur h = Inl (Diverges ''clear'')"
| "clear_chain (Suc fuel) cur h =
     bindE (fwd h cur 0) (\<lambda>next.
     bindE (case next of None \<Rightarrow> Inr h | Some b \<Rightarrow> clear_chain fuel b h) (\<lambda>h. Inr (h(cur := None))))"

fun reset_forward :: "nat \<Rightarrow> nat list \<Rightarrow> sl_heap \<Rightarrow> exn + sl_heap" where
  "reset_forward hdr [] h = Inr h"
| "reset_forward hdr (i # is) h = bindE (set_fwd h hdr i None) (\<lambda>h. reset_forward hdr is h)"

fun load_pairs :: "sl_env \<Rightarrow> string list \<Rightarrow> string list \<Rightarrow> skiplist \<Rightarrow> exn + skiplist" where
  "load_pairs env [] vs s = Inr s"
| "load_pairs env (k # ks) [] s = Inl (UndefinedBehaviour ''valDumpVt_'')"
| "load_pairs env (k # ks) (v # vs) s =
     bindE (insert_element_locked env s k v) (\<lambda>(s, r). load_pairs env ks vs s)"

definition load_file :: "sl_env \<Rightarrow> skiplist \<Rightarrow> string \<Rightarrow> exn + skiplist" where
  "load_file env s dumpStr =
     bindE (if dumpStr \<noteq> [] then dump_iarchive env dumpStr else Inr ([], [])) (\<lambda>(ks, vs).
     bindE (fwd (heap s) (header s) 0) (\<lambda>first.
     bindE (case first of None \<Rightarrow> Inr (heap s) | Some a \<Rightarrow> clear_chain (allocated s) a (heap s)) (\<lambda>h.
     bindE (reset_forward (header s) [0..<max_level s + 1] h) (\<lambda>h.
     load_pairs env ks vs (s\<lparr>heap := h, skip_list_level := 0, element_count := 0\<rparr>)))))"

definition sl_size :: "skiplist \<Rightarrow> int" where
  "sl_size s = element_count s"

definition SkipList_new :: "nat \<Rightarrow> skiplist" where
  "SkipList_new maxLevel =
     \<lparr>max_level = maxLevel, skip_list_level = 0, header = 0, element_count = 0,
      heap = [0 \<mapsto> new_node [] [] maxLevel], allocated = 1, rand_pos = 0\<rparr>"

section \<open>The text helpers\<close>

definition is_valid_string :: "string \<Rightarrow> bool" where
  "is_valid_string str \<longleftrightarrow> str \<noteq> [] \<and> CHR '':'' \<in> set str"

definition get_key_value_from_string :: "string \<Rightarrow> string \<Rightarrow> string \<Rightarrow> string \<times> string" where
  "get_key_value_from_string str k v =
     (if \<not> is_valid_string str then (k, v)
      else (takeWhile (\<lambda>c. c \<noteq> CHR '':'') str, drop 1 (dropWhile (\<lambda>c. c \<noteq> CHR '':'') str)))"

end
