(* ===== verification/Skip_List_Proofs.thy ===== *)
theory Skip_List_Proofs
  imports Skip_List
begin

text \<open>
  The skip list refines a sorted association list.  Its representation is the list \<open>xs\<close> of the addresses on
  level 0: the nodes are allocated and sorted by key, and on every level \<open>i\<close> the chain from the header
  runs through exactly the nodes of \<open>xs\<close> whose level is at least \<open>i\<close>.
\<close>

definition nkey :: "sl_heap \<Rightarrow> nat \<Rightarrow> string" where "nkey h a = key (the (h a))"
definition nval :: "sl_heap \<Rightarrow> nat \<Rightarrow> string" where "nval h a = val (the (h a))"
definition nlvl :: "sl_heap \<Rightarrow> nat \<Rightarrow> nat" where "nlvl h a = node_level (the (h a))"

fun linked :: "sl_heap \<Rightarrow> nat \<Rightarrow> nat \<Rightarrow> nat list \<Rightarrow> bool" where
  "linked h i a [] \<longleftrightarrow> fwd h a i = Inr None"
| "linked h i a (b # bs) \<longleftrightarrow> fwd h a i = Inr (Some b) \<and> linked h i b bs"

section \<open>Chains\<close>

lemma linked_drop: "linked h i a (ps @ qs) \<Longrightarrow> linked h i (last (a # ps)) qs"
  by (induction ps arbitrary: a) auto

lemma linked_cong: "(\<And>b. b \<in> set (a # ys) \<Longrightarrow> fwd h' b i = fwd h b i) \<Longrightarrow> linked h' i a ys = linked h i a ys"
  by (induction ys arbitrary: a) auto

lemma linked_first: "linked h i a ys \<Longrightarrow> fwd h a i = Inr (case ys of [] \<Rightarrow> None | b # bs \<Rightarrow> Some b)"
  by (cases ys) auto

lemma linked_insert:
  "linked h i a (lo @ hi) \<Longrightarrow> distinct (a # lo @ hi) \<Longrightarrow>
   fwd h' (last (a # lo)) i = Inr (Some z) \<Longrightarrow> fwd h' z i = fwd h (last (a # lo)) i \<Longrightarrow>
   (\<And>b. b \<in> set (a # lo @ hi) \<Longrightarrow> b \<noteq> last (a # lo) \<Longrightarrow> fwd h' b i = fwd h b i) \<Longrightarrow>
   linked h' i a (lo @ z # hi)"
proof (induction lo arbitrary: a)
  case Nil
  show ?case
  proof (cases hi)
    case (Cons b bs)
    have "linked h' i b bs = linked h i b bs"
      by (rule linked_cong) (use Nil.prems(2,5) Cons in auto)
    then show ?thesis using Nil.prems Cons by simp
  qed (use Nil.prems in simp)
next
  case (Cons b lo)
  have "linked h' i b (lo @ z # hi)"
    by (rule Cons.IH) (use Cons.prems in auto)
  moreover have "fwd h' a i = fwd h a i"
    proof -
    have "last (a # b # lo) \<in> set (b # lo)" by simp
    then have "a \<noteq> last (a # b # lo)" using Cons.prems(2) by auto
    then show ?thesis using Cons.prems(5) [of a] by simp
  qed
  ultimately show ?case using Cons.prems(1) by simp
qed

lemma linked_delete:
  "linked h i a (lo @ z # hi) \<Longrightarrow> distinct (a # lo @ z # hi) \<Longrightarrow>
   fwd h' (last (a # lo)) i = fwd h z i \<Longrightarrow>
   (\<And>b. b \<in> set (a # lo @ hi) \<Longrightarrow> b \<noteq> last (a # lo) \<Longrightarrow> fwd h' b i = fwd h b i) \<Longrightarrow>
   linked h' i a (lo @ hi)"
proof (induction lo arbitrary: a)
  case Nil
  show ?case
  proof (cases hi)
    case (Cons b bs)
    have "linked h' i b bs = linked h i b bs"
      by (rule linked_cong) (use Nil.prems(2,4) Cons in auto)
    then show ?thesis using Nil.prems Cons by simp
  qed (use Nil.prems in simp)
next
  case (Cons b lo)
  have "linked h' i b (lo @ hi)"
    by (rule Cons.IH) (use Cons.prems in auto)
  moreover have "fwd h' a i = fwd h a i"
    proof -
    have "last (a # b # lo) \<in> set (b # lo)" by simp
    then have "a \<noteq> last (a # b # lo)" using Cons.prems(2) by auto
    then show ?thesis using Cons.prems(4) [of a] by simp
  qed
  ultimately show ?case using Cons.prems(1) by simp
qed

section \<open>Writing a pointer\<close>

definition static :: "sl_node \<Rightarrow> string \<times> string \<times> nat \<times> nat" where
  "static n = (key n, val n, node_level n, length (forward n))"

definition same_nodes :: "sl_heap \<Rightarrow> sl_heap \<Rightarrow> bool" where
  "same_nodes h h' \<longleftrightarrow> (\<forall>a. map_option static (h a) = map_option static (h' a))"

lemma same_nodes_trans: "same_nodes h h' \<Longrightarrow> same_nodes h' h'' \<Longrightarrow> same_nodes h h''"
  by (simp add: same_nodes_def)

lemma same_nodesD:
  assumes "same_nodes h h'" "h a = Some n"
  shows "\<exists>n'. h' a = Some n' \<and> static n' = static n"
  using assms by (metis (no_types, lifting) map_option_eq_Some option.simps(9) same_nodes_def)

lemma same_nodes_fields:
  assumes "same_nodes h h'" "h a \<noteq> None"
  shows "nkey h' a = nkey h a" "nval h' a = nval h a" "nlvl h' a = nlvl h a"
proof -
  obtain n where n: "h a = Some n" using assms(2) by blast
  obtain n' where "h' a = Some n'" "static n' = static n" using same_nodesD [OF assms(1) n] by blast
  then show "nkey h' a = nkey h a" "nval h' a = nval h a" "nlvl h' a = nlvl h a"
    using n by (simp_all add: nkey_def nval_def nlvl_def static_def)
qed

lemma fwd_Some: "h a = Some n \<Longrightarrow> i < length (forward n) \<Longrightarrow> fwd h a i = Inr (forward n ! i)"
  by (simp add: fwd_def deref_def)

lemma fwd_upd_other: "b \<noteq> a \<Longrightarrow> fwd (h(a := x)) b i = fwd h b i"
  by (simp add: fwd_def deref_def)

lemma set_fwd_ok:
  assumes "fwd h a i = Inr p"
  shows "\<exists>h'. set_fwd h a i q = Inr h' \<and> same_nodes h h' \<and>
    (\<forall>b j. fwd h' b j = (if b = a \<and> j = i then Inr q else fwd h b j))"
proof -
  obtain n where n: "h a = Some n" "i < length (forward n)"
    using assms by (auto simp: fwd_def deref_def bindE_Inr_iff at_index_Inr_iff split: option.splits)
  let ?h = "h(a \<mapsto> n\<lparr>forward := (forward n)[i := q]\<rparr>)"
  have "set_fwd h a i q = Inr ?h" using n by (simp add: set_fwd_def deref_def)
  moreover have "same_nodes h ?h" using n by (simp add: same_nodes_def static_def)
  moreover have "\<forall>b j. fwd ?h b j = (if b = a \<and> j = i then Inr q else fwd h b j)"
    using n by (auto simp: fwd_def deref_def at_index_def)
  ultimately show ?thesis by blast
qed

lemma link_levels_ok:
  assumes "distinct is"
    "\<And>i. i \<in> set is \<Longrightarrow> update_at update i = Inr (u i) \<and> u i \<noteq> z \<and> fwd h (u i) i = Inr (nx i) \<and> (\<exists>p. fwd h z i = Inr p)"
  shows "\<exists>h'. link_levels update z is h = Inr h' \<and> same_nodes h h' \<and>
    (\<forall>i \<in> set is. fwd h' z i = Inr (nx i) \<and> fwd h' (u i) i = Inr (Some z)) \<and>
    (\<forall>a i. i \<notin> set is \<or> a \<noteq> z \<and> a \<noteq> u i \<longrightarrow> fwd h' a i = fwd h a i)"
  using assms
proof (induction "is" arbitrary: h)
  case Nil
  then show ?case by (simp add: same_nodes_def)
next
  case (Cons i "is")
  note i = Cons.prems(2) [of i, simplified]
  obtain p where p: "fwd h z i = Inr p" using i by blast
  obtain h1 where h1: "set_fwd h z i (nx i) = Inr h1" "same_nodes h h1"
    "\<forall>b j. fwd h1 b j = (if b = z \<and> j = i then Inr (nx i) else fwd h b j)"
    using set_fwd_ok [OF p] by blast
  have "fwd h1 (u i) i = Inr (nx i)" using h1(3) i by simp
  from set_fwd_ok [OF this, of "Some z"] obtain h2 where h2: "set_fwd h1 (u i) i (Some z) = Inr h2" "same_nodes h1 h2"
    "\<forall>b j. fwd h2 b j = (if b = u i \<and> j = i then Inr (Some z) else fwd h1 b j)" by blast
  have other: "fwd h2 b j = fwd h b j" if "j \<noteq> i \<or> b \<noteq> z \<and> b \<noteq> u i" for b j using h1(3) h2(3) that by auto
  have "\<exists>h'. link_levels update z is h2 = Inr h' \<and> same_nodes h2 h' \<and>
    (\<forall>i \<in> set is. fwd h' z i = Inr (nx i) \<and> fwd h' (u i) i = Inr (Some z)) \<and>
    (\<forall>a i. i \<notin> set is \<or> a \<noteq> z \<and> a \<noteq> u i \<longrightarrow> fwd h' a i = fwd h2 a i)"
  proof (rule Cons.IH)
    show "distinct is" using Cons.prems(1) by simp
    fix j assume j: "j \<in> set is"
    then have "j \<noteq> i" using Cons.prems(1) by auto
    then show "update_at update j = Inr (u j) \<and> u j \<noteq> z \<and> fwd h2 (u j) j = Inr (nx j) \<and> (\<exists>p. fwd h2 z j = Inr p)"
      using Cons.prems(2) [of j] j other by auto
  qed
  then obtain h' where h': "link_levels update z is h2 = Inr h'" "same_nodes h2 h'"
    "\<forall>i \<in> set is. fwd h' z i = Inr (nx i) \<and> fwd h' (u i) i = Inr (Some z)"
    "\<forall>a i. i \<notin> set is \<or> a \<noteq> z \<and> a \<noteq> u i \<longrightarrow> fwd h' a i = fwd h2 a i" by blast
  have "link_levels update z (i # is) h = Inr h'" using i h1(1) h2(1) h'(1) by simp
  moreover have "same_nodes h h'" using same_nodes_trans h1(2) h2(2) h'(2) by blast
  moreover have "fwd h' z i = Inr (nx i)" "fwd h' (u i) i = Inr (Some z)"
    using h'(4) h1(3) h2(3) i Cons.prems(1) by auto
  moreover have "\<forall>a j. j \<notin> set (i # is) \<or> a \<noteq> z \<and> a \<noteq> u j \<longrightarrow> fwd h' a j = fwd h a j"
    using h'(4) other by (metis list.set_intros(1,2))
  ultimately show ?case using h'(3) by (intro exI [of _ h']) auto
qed

lemma unlink_levels_ok:
  assumes "distinct is"
    "\<And>i. i \<in> set is \<Longrightarrow> update_at update i = Inr (u i) \<and> u i \<noteq> z \<and> fwd h (u i) i = Inr (Some z) \<and> fwd h z i = Inr (nx i)"
    "rest = [] \<or> (\<exists>j js p. rest = j # js \<and> j \<notin> set is \<and> update_at update j = Inr (u j) \<and> fwd h (u j) j = Inr p \<and> p \<noteq> Some z)"
  shows "\<exists>h'. unlink_levels update z (is @ rest) h = Inr h' \<and> same_nodes h h' \<and>
    (\<forall>i \<in> set is. fwd h' (u i) i = Inr (nx i)) \<and>
    (\<forall>a i. i \<notin> set is \<or> a \<noteq> u i \<longrightarrow> fwd h' a i = fwd h a i)"
  using assms
proof (induction "is" arbitrary: h)
  case Nil
  then show ?case by (auto simp: same_nodes_def)
next
  case (Cons i "is")
  note i = Cons.prems(2) [of i, simplified]
  obtain h1 where h1: "set_fwd h (u i) i (nx i) = Inr h1" "same_nodes h h1"
    "\<forall>b j. fwd h1 b j = (if b = u i \<and> j = i then Inr (nx i) else fwd h b j)"
    using set_fwd_ok [of h "u i" i "Some z" "nx i"] i by blast
  have "\<exists>h'. unlink_levels update z (is @ rest) h1 = Inr h' \<and> same_nodes h1 h' \<and>
    (\<forall>i \<in> set is. fwd h' (u i) i = Inr (nx i)) \<and>
    (\<forall>a i. i \<notin> set is \<or> a \<noteq> u i \<longrightarrow> fwd h' a i = fwd h1 a i)"
  proof (rule Cons.IH)
    show "distinct is" using Cons.prems(1) by simp
    fix j assume j: "j \<in> set is"
    then have "j \<noteq> i" using Cons.prems(1) by auto
    then show "update_at update j = Inr (u j) \<and> u j \<noteq> z \<and> fwd h1 (u j) j = Inr (Some z) \<and> fwd h1 z j = Inr (nx j)"
      using Cons.prems(2) [of j] j h1(3) by auto
  next
    show "rest = [] \<or> (\<exists>j js p. rest = j # js \<and> j \<notin> set is \<and> update_at update j = Inr (u j) \<and> fwd h1 (u j) j = Inr p \<and> p \<noteq> Some z)"
      using Cons.prems(3) h1(3) by auto
  qed
  then obtain h' where h': "unlink_levels update z (is @ rest) h1 = Inr h'" "same_nodes h1 h'"
    "\<forall>i \<in> set is. fwd h' (u i) i = Inr (nx i)"
    "\<forall>a i. i \<notin> set is \<or> a \<noteq> u i \<longrightarrow> fwd h' a i = fwd h1 a i" by blast
  have "unlink_levels update z ((i # is) @ rest) h = Inr h'" using i h1(1) h'(1) by simp
  moreover have "same_nodes h h'" using same_nodes_trans h1(2) h'(2) by blast
  moreover have "fwd h' (u i) i = Inr (nx i)" using h'(4) h1(3) Cons.prems(1) by auto
  moreover have "\<forall>a j. j \<notin> set (i # is) \<or> a \<noteq> u j \<longrightarrow> fwd h' a j = fwd h a j"
    using h'(4) h1(3) by (metis list.set_intros(1,2))
  ultimately show ?case using h'(3) by (intro exI [of _ h']) auto
qed

section \<open>The representation\<close>

definition sl_shape :: "sl_heap \<Rightarrow> nat \<Rightarrow> nat \<Rightarrow> nat \<Rightarrow> nat list \<Rightarrow> bool" where
  "sl_shape h M hdr n xs \<longleftrightarrow>
     (\<exists>d. h hdr = Some d \<and> length (forward d) = Suc M) \<and> hdr \<notin> set xs \<and> hdr < n \<and>
     (\<forall>a \<in> set xs. \<exists>d. h a = Some d \<and> length (forward d) = Suc (node_level d) \<and> node_level d \<le> M \<and> a < n) \<and>
     sorted_wrt (<) (map (nkey h) xs) \<and>
     (\<forall>i \<le> M. linked h i hdr (filter (\<lambda>a. i \<le> nlvl h a) xs))"

definition sl_rep :: "skiplist \<Rightarrow> nat list \<Rightarrow> bool" where
  "sl_rep s xs \<longleftrightarrow>
     sl_shape (heap s) (max_level s) (header s) (allocated s) xs \<and>
     (\<forall>a \<in> set xs. nlvl (heap s) a \<le> skip_list_level s) \<and> skip_list_level s \<le> max_level s \<and>
     element_count s = int (length xs)"

definition below :: "sl_heap \<Rightarrow> string \<Rightarrow> nat \<Rightarrow> nat list \<Rightarrow> nat list" where
  "below h k i xs = filter (\<lambda>a. i \<le> nlvl h a \<and> nkey h a < k) xs"

definition above :: "sl_heap \<Rightarrow> string \<Rightarrow> nat \<Rightarrow> nat list \<Rightarrow> nat list" where
  "above h k i xs = filter (\<lambda>a. i \<le> nlvl h a \<and> \<not> nkey h a < k) xs"

definition pred :: "sl_heap \<Rightarrow> nat \<Rightarrow> string \<Rightarrow> nat list \<Rightarrow> nat \<Rightarrow> nat" where
  "pred h hdr k xs i = last (hdr # below h k i xs)"

lemma sl_shapeD:
  assumes "sl_shape h M hdr n xs"
  shows "\<exists>d. h hdr = Some d \<and> length (forward d) = Suc M" "hdr \<notin> set xs" "hdr < n"
    "\<And>a. a \<in> set xs \<Longrightarrow> \<exists>d. h a = Some d \<and> length (forward d) = Suc (node_level d) \<and> node_level d \<le> M \<and> a < n"
    "sorted_wrt (<) (map (nkey h) xs)"
    "\<And>i. i \<le> M \<Longrightarrow> linked h i hdr (filter (\<lambda>a. i \<le> nlvl h a) xs)"
  using assms by (auto simp: sl_shape_def)

lemma sorted_split:
  "sorted_wrt (<) (map f xs) \<Longrightarrow> filter P xs = filter (\<lambda>a. P a \<and> f a < k) xs @ filter (\<lambda>a. P a \<and> \<not> f a < k) xs"
  for f :: "'a \<Rightarrow> 'b::linorder"
proof (induction xs)
  case (Cons x xs)
  have "filter (\<lambda>a. P a \<and> f a < k) xs = []" if "\<not> f x < k"
    using Cons.prems that by (force simp: filter_empty_conv)
  then show ?case using Cons by auto
qed simp

lemma split_levels:
  "sl_shape h M hdr n xs \<Longrightarrow> filter (\<lambda>a. i \<le> nlvl h a) xs = below h k i xs @ above h k i xs"
  unfolding below_def above_def using sorted_split [OF sl_shapeD(5)] .

lemma sl_distinct: "sl_shape h M hdr n xs \<Longrightarrow> distinct (hdr # xs)"
  using sl_shapeD(2,5) [of h M hdr n xs] by (auto simp: strict_sorted_iff distinct_map)

lemma chain:
  assumes "sl_shape h M hdr n xs" "i \<le> M"
  shows "linked h i hdr (below h k i xs @ above h k i xs)"
  using sl_shapeD(6) [OF assms] split_levels [OF assms(1)] by metis

lemma distinct_chain: "sl_shape h M hdr n xs \<Longrightarrow> distinct (hdr # below h k i xs @ above h k i xs)"
  using sl_distinct split_levels [of h M hdr n xs i k] by (metis distinct.simps(2) distinct_filter filter_is_subset subsetD)

lemma pred_next:
  assumes "sl_shape h M hdr n xs" "i \<le> M"
  shows "fwd h (pred h hdr k xs i) i = Inr (case above h k i xs of [] \<Rightarrow> None | b # bs \<Rightarrow> Some b)"
  using linked_first [OF linked_drop [OF chain [OF assms, of k]]] by (simp add: pred_def)

section \<open>Searching\<close>

lemma walk_ok:
  "linked h i cur (lo @ hi) \<Longrightarrow> (\<And>a. a \<in> set lo \<Longrightarrow> h a \<noteq> None \<and> nkey h a < k) \<Longrightarrow>
   (\<And>a. a \<in> set hi \<Longrightarrow> h a \<noteq> None \<and> \<not> nkey h a < k) \<Longrightarrow> length lo < fuel \<Longrightarrow>
   walk h fuel cur i k = Inr (last (cur # lo))"
proof (induction lo arbitrary: cur fuel)
  case Nil
  then obtain f where "fuel = Suc f" by (cases fuel) auto
  then show ?case
  proof (cases hi)
    case (Cons b bs)
    then obtain n where "h b = Some n" "\<not> key n < k" using Nil.prems(3) [of b] by (auto simp: nkey_def)
    then show ?thesis using Nil.prems(1) Cons \<open>fuel = Suc f\<close> by (simp add: deref_def)
  qed (use Nil in simp)
next
  case (Cons a lo)
  then obtain f where f: "fuel = Suc f" by (cases fuel) auto
  obtain n where n: "h a = Some n" "key n < k" using Cons.prems(2) [of a] by (auto simp: nkey_def)
  have "walk h f a i k = Inr (last (a # lo))" by (rule Cons.IH) (use Cons.prems f in auto)
  then show ?case using Cons.prems(1) n f by (simp add: deref_def)
qed

lemma descend_ok:
  assumes "sl_shape h M hdr n xs" "m \<le> Suc M" "length xs < fuel"
    "cur = hdr \<or> cur \<in> set xs \<and> nkey h cur < k \<and> m \<le> Suc (nlvl h cur)"
  shows "descend h fuel cur m k = Inr (if m = 0 then cur else pred h hdr k xs 0, map (pred h hdr k xs) [0..<m])"
  using assms(2,4)
proof (induction m arbitrary: cur)
  case (Suc i)
  have i: "i \<le> M" using Suc.prems(1) by simp
  note ch = chain [OF assms(1) i, of k]
  obtain lo1 lo2 where lo: "below h k i xs = lo1 @ lo2" "cur = last (hdr # lo1)"
  proof (cases "cur = hdr")
    case True
    then show ?thesis using that [of "[]"] by simp
  next
    case False
    then have "cur \<in> set (below h k i xs)" using Suc.prems(2) by (auto simp: below_def)
    then obtain a b where "below h k i xs = a @ cur # b" by (meson split_list)
    then show ?thesis using that [of "a @ [cur]" b] by simp
  qed
  have ln: "linked h i cur (lo2 @ above h k i xs)" using linked_drop [of h i hdr lo1] ch lo by simp
  have fl: "length lo2 < fuel"
  proof -
    have "length (below h k i xs) \<le> length xs" by (simp add: below_def)
    then show ?thesis using assms(3) lo(1) by simp
  qed
  have "walk h fuel cur i k = Inr (last (cur # lo2))"
  proof (rule walk_ok [OF ln _ _ fl])
    fix a assume "a \<in> set lo2"
    then have "a \<in> set (below h k i xs)" using lo(1) by simp
    then show "h a \<noteq> None \<and> nkey h a < k" using sl_shapeD(4) [OF assms(1), of a] by (auto simp: below_def)
  next
    fix a assume "a \<in> set (above h k i xs)"
    then show "h a \<noteq> None \<and> \<not> nkey h a < k" using sl_shapeD(4) [OF assms(1), of a] by (auto simp: above_def)
  qed
  moreover have "last (cur # lo2) = pred h hdr k xs i" using lo by (auto simp: pred_def)
  ultimately have w: "walk h fuel cur i k = Inr (pred h hdr k xs i)" by simp
  have "pred h hdr k xs i = hdr \<or> pred h hdr k xs i \<in> set (below h k i xs)"
    by (auto simp: pred_def)
  then have "descend h fuel (pred h hdr k xs i) i k =
      Inr (if i = 0 then pred h hdr k xs i else pred h hdr k xs 0, map (pred h hdr k xs) [0..<i])"
    using i by (intro Suc.IH) (auto simp: below_def)
  then show ?case using w by simp
qed simp

definition update_of :: "skiplist \<Rightarrow> string \<Rightarrow> nat list \<Rightarrow> nat option list" where
  "update_of s k xs = map (\<lambda>i. Some (pred (heap s) (header s) k xs i)) [0..<Suc (skip_list_level s)] @
     replicate (max_level s - skip_list_level s) None"

definition first :: "'a list \<Rightarrow> 'a option" where
  "first xs = (case xs of [] \<Rightarrow> None | b # bs \<Rightarrow> Some b)"

lemma length_less_alloc:
  assumes "sl_shape h M hdr n xs"
  shows "length xs < n"
proof -
  have "set (hdr # xs) \<subseteq> {..<n}" using sl_shapeD(3,4) [OF assms] by fastforce
  then have "card (set (hdr # xs)) \<le> n" by (metis card_lessThan card_mono finite_lessThan)
  then show ?thesis using distinct_card [OF sl_distinct [OF assms]] by simp
qed

lemma find_update_ok:
  assumes "sl_rep s xs"
  shows "find_update s k = Inr (first (above (heap s) k 0 xs), update_of s k xs)"
proof -
  have sh: "sl_shape (heap s) (max_level s) (header s) (allocated s) xs" and l: "skip_list_level s \<le> max_level s"
    using assms by (auto simp: sl_rep_def)
  show ?thesis
    using descend_ok [OF sh _ length_less_alloc [OF sh], of "Suc (skip_list_level s)" "header s" k] l
      pred_next [OF sh, of 0 k]
    by (simp add: find_update_def update_of_def first_def comp_def)
qed

lemma above0: "above h k 0 xs = filter (\<lambda>a. \<not> nkey h a < k) xs"
  by (simp add: above_def)

lemma below0: "below h k 0 xs = filter (\<lambda>a. nkey h a < k) xs"
  by (simp add: below_def)

lemma split0:
  assumes "sl_shape h M hdr n xs"
  shows "xs = below h k 0 xs @ above h k 0 xs"
  using split_levels [OF assms, of 0 k] by simp

definition pairs_of :: "sl_heap \<Rightarrow> nat list \<Rightarrow> (string \<times> string) list" where
  "pairs_of h xs = map (\<lambda>a. (nkey h a, nval h a)) xs"

lemma map_of_first:
  "sorted_wrt (<) (map f xs) \<Longrightarrow>
   map_of (map (\<lambda>a. (f a, g a)) xs) k =
     (case first (filter (\<lambda>a. \<not> f a < k) xs) of None \<Rightarrow> None | Some a \<Rightarrow> if f a = k then Some (g a) else None)"
  for f :: "'a \<Rightarrow> 'b::linorder"
proof (induction xs)
  case (Cons x xs)
  consider "f x < k" | "f x = k" | "k < f x" by fastforce
  then show ?case
  proof cases
    case 3
    then have "map_of (map (\<lambda>a. (f a, g a)) xs) k = None"
      using Cons.prems by (force simp: map_of_eq_None_iff)
    then show ?thesis using 3 by (auto simp: first_def)
  qed (use Cons in \<open>auto simp: first_def\<close>)
qed (simp add: first_def)

lemma sl_repD:
  assumes "sl_rep s xs"
  shows "sl_shape (heap s) (max_level s) (header s) (allocated s) xs"
    "\<And>a. a \<in> set xs \<Longrightarrow> nlvl (heap s) a \<le> skip_list_level s"
    "skip_list_level s \<le> max_level s" "element_count s = int (length xs)"
  using assms by (auto simp: sl_rep_def)

lemma node_of:
  assumes "sl_shape h M hdr n xs" "a \<in> set xs"
  shows "\<exists>d. h a = Some d \<and> key d = nkey h a \<and> val d = nval h a"
  using sl_shapeD(4) [OF assms] by (auto simp: nkey_def nval_def)

lemma first_in: "first xs = Some a \<Longrightarrow> a \<in> set xs"
  by (auto simp: first_def split: list.splits)

lemma search_element_ok:
  assumes "sl_rep s xs"
  shows "search_element s k = Inr (map_of (pairs_of (heap s) xs) k)"
proof -
  note sh = sl_repD(1) [OF assms]
  have m: "map_of (pairs_of (heap s) xs) k = (case first (above (heap s) k 0 xs) of None \<Rightarrow> None
      | Some a \<Rightarrow> if nkey (heap s) a = k then Some (nval (heap s) a) else None)"
    unfolding pairs_of_def above0 by (rule map_of_first [OF sl_shapeD(5) [OF sh]])
  show ?thesis
  proof (cases "first (above (heap s) k 0 xs)")
    case (Some a)
    then have "a \<in> set xs" by (auto dest!: first_in simp: above_def)
    then obtain d where "heap s a = Some d" "key d = nkey (heap s) a" "val d = nval (heap s) a"
      using node_of [OF sh] by blast
    then show ?thesis using Some m by (simp add: search_element_def find_update_ok [OF assms] deref_def)
  qed (simp add: m search_element_def find_update_ok [OF assms])
qed

section \<open>Inserting\<close>

lemma insert_shape:
  assumes sh: "sl_shape h M hdr n xs" and r: "r \<le> M" and k: "k \<notin> nkey h ` set xs"
    and same: "same_nodes (h(n \<mapsto> new_node k v r)) h'"
    and new: "\<And>i. i \<le> r \<Longrightarrow> fwd h' n i = fwd h (pred h hdr k xs i) i \<and> fwd h' (pred h hdr k xs i) i = Inr (Some n)"
    and frame: "\<And>a i. \<not> i \<le> r \<or> a \<noteq> n \<and> a \<noteq> pred h hdr k xs i \<Longrightarrow> a \<noteq> n \<Longrightarrow> fwd h' a i = fwd h a i"
  shows "sl_shape h' M hdr (Suc n) (below h k 0 xs @ n # above h k 0 xs)"
proof -
  let ?h = "h(n \<mapsto> new_node k v r)" and ?xs = "below h k 0 xs @ n # above h k 0 xs"
  have fresh: "n \<noteq> hdr" "n \<notin> set xs" using sl_shapeD(3,4) [OF sh] by fastforce+
  have set: "set ?xs = insert n (set xs)" using arg_cong [OF split0 [OF sh, of k], of set] by auto
  have old: "nkey h' a = nkey h a" "nlvl h' a = nlvl h a" if "a \<in> set xs" for a
    using same_nodes_fields [OF same, of a] sl_shapeD(4) [OF sh that] that fresh(2) by (auto simp: nkey_def nlvl_def)
  have z: "nkey h' n = k" "nlvl h' n = r"
    using same_nodes_fields [OF same, of n] by (simp_all add: nkey_def nlvl_def new_node_def)
  have hd: "\<exists>d. h' hdr = Some d \<and> length (forward d) = Suc M"
    using same_nodesD [OF same, of hdr] sl_shapeD(1) [OF sh] fresh(1) by (fastforce simp: static_def)
  have nodes: "\<exists>d. h' a = Some d \<and> length (forward d) = Suc (node_level d) \<and> node_level d \<le> M \<and> a < Suc n"
    if "a \<in> set ?xs" for a
  proof (cases "a = n")
    case True
    then show ?thesis using same_nodesD [OF same, of n] r by (fastforce simp: static_def new_node_def)
  next
    case False
    then have "a \<in> set xs" using that by (auto simp: below_def above_def)
    then obtain d where "h a = Some d" "length (forward d) = Suc (node_level d)" "node_level d \<le> M" "a < n"
      using sl_shapeD(4) [OF sh] by blast
    then show ?thesis using same_nodesD [OF same, of a] False by (fastforce simp: static_def)
  qed
  have keys: "map (nkey h') ?xs = map (nkey h) (below h k 0 xs) @ k # map (nkey h) (above h k 0 xs)"
    using old z by (auto simp: below_def above_def)
  have "sorted_wrt (<) (map (nkey h) (below h k 0 xs) @ map (nkey h) (above h k 0 xs))"
    using sl_shapeD(5) [OF sh] split0 [OF sh, of k] by (metis map_append)
  moreover have "\<forall>x \<in> nkey h ` set (above h k 0 xs). k < x" "\<forall>x \<in> nkey h ` set (below h k 0 xs). x < k"
    using k by (force simp: above0 below0)+
  ultimately have sorted: "sorted_wrt (<) (map (nkey h') ?xs)"
    unfolding keys by (auto simp: sorted_wrt_append)
  have flt: "filter (\<lambda>a. i \<le> nlvl h' a) ?xs =
      below h k i xs @ (if i \<le> r then [n] else []) @ above h k i xs" for i
  proof -
    have "filter (\<lambda>a. i \<le> nlvl h' a) (filter P xs) = filter (\<lambda>a. i \<le> nlvl h a \<and> P a) xs" for P
      by (simp add: conj_commute cong: conj_cong) (rule filter_cong, use old in auto)
    then show ?thesis using z by (simp add: below_def above_def)
  qed
  have links: "linked h' i hdr (filter (\<lambda>a. i \<le> nlvl h' a) ?xs)" if "i \<le> M" for i
  proof -
    note ch = chain [OF sh that, of k] and di = distinct_chain [OF sh, of k i]
    have nn: "n \<notin> set (hdr # below h k i xs @ above h k i xs)" using fresh by (auto simp: below_def above_def)
    show ?thesis
    proof (cases "i \<le> r")
      case True
      have "linked h' i hdr (below h k i xs @ n # above h k i xs)"
      proof (rule linked_insert [OF ch di])
        show "fwd h' (last (hdr # below h k i xs)) i = Inr (Some n)"
          "fwd h' n i = fwd h (last (hdr # below h k i xs)) i"
          using new [OF True] by (simp_all add: pred_def)
        fix b assume "b \<in> set (hdr # below h k i xs @ above h k i xs)" "b \<noteq> last (hdr # below h k i xs)"
        then show "fwd h' b i = fwd h b i" using nn by (intro frame) (auto simp: pred_def)
      qed
      then show ?thesis unfolding flt using True by simp
    next
      case False
      have "linked h' i hdr (below h k i xs @ above h k i xs) = linked h i hdr (below h k i xs @ above h k i xs)"
      proof (rule linked_cong)
        fix b assume "b \<in> set (hdr # below h k i xs @ above h k i xs)"
        then have "b \<noteq> n" using nn by blast
        then show "fwd h' b i = fwd h b i" using frame False by blast
      qed
      then show ?thesis unfolding flt using ch False by simp
    qed
  qed
  have "hdr \<notin> set ?xs" "hdr < Suc n" using sl_shapeD(2,3) [OF sh] fresh(1) set by auto
  then show ?thesis
    unfolding sl_shape_def using hd nodes sorted links by (intro conjI ballI allI impI)
qed

definition rand_ok :: "sl_env \<Rightarrow> bool" where
  "rand_ok env \<longleftrightarrow> (\<forall>n. \<exists>m \<ge> n. rand env m mod 2 = 0)"

lemma random_loop_ok:
  assumes "r m mod 2 = 0" "pos \<le> m"
  shows "\<exists>level' pos'. random_loop r pos level = Some (level', pos')"
  using assms(2)
proof (induction "m - pos" arbitrary: pos level)
  case 0
  then have "pos = m" by simp
  then show ?case using assms(1) by (simp add: random_loop.simps)
next
  case (Suc d)
  show ?case
  proof (cases "r pos mod 2 = 0")
    case False
    have "d = m - Suc pos" "Suc pos \<le> m" using Suc.hyps(2) by auto
    from Suc.hyps(1) [OF this, of "level + 1"] False show ?thesis by (subst random_loop.simps) simp
  qed (subst random_loop.simps, simp)
qed

lemma get_random_level_ok:
  assumes "rand_ok env"
  shows "\<exists>r pos. get_random_level env s = Inr (r, s\<lparr>rand_pos := pos\<rparr>)"
proof -
  obtain m where m: "rand_pos s \<le> m" "rand env m mod 2 = 0"
    using assms [unfolded rand_ok_def, THEN spec, of "rand_pos s"] by (elim exE conjE)
  obtain l pos where "random_loop (rand env) (rand_pos s) 1 = Some (l, pos)"
    using random_loop_ok [of "rand env" m "rand_pos s" 1, OF m(2,1)] by (elim exE)
  then show ?thesis unfolding get_random_level_def by auto
qed

lemma get_random_level_bound:
  "get_random_level env s = Inr (r, s') \<Longrightarrow> r \<le> max_level s \<and> (\<exists>pos. s' = s\<lparr>rand_pos := pos\<rparr>)"
  by (auto simp: get_random_level_def split: option.splits if_splits)

lemma update_atI: "i < length u \<Longrightarrow> u ! i = Some a \<Longrightarrow> update_at u i = Inr a"
  by (simp add: update_at_def)

lemma foldl_update:
  "length (foldl (\<lambda>u i. u[i := x]) u is) = length u"
  "j < length u \<Longrightarrow> foldl (\<lambda>u i. u[i := x]) u is ! j = (if j \<in> set is then x else u ! j)"
  by (induction "is" arbitrary: u) (auto simp: nth_list_update)

lemma length_update_of: "skip_list_level s \<le> max_level s \<Longrightarrow> length (update_of s k xs) = Suc (max_level s)"
  by (simp add: update_of_def)

lemma nth_update_of:
  "i \<le> skip_list_level s \<Longrightarrow> update_of s k xs ! i = Some (pred (heap s) (header s) k xs i)"
  by (simp add: update_of_def nth_append del: upt_Suc)

lemma pred_high:
  assumes "sl_rep s xs" "skip_list_level s < i"
  shows "pred (heap s) (header s) k xs i = header s"
proof -
  have "below (heap s) k i xs = []"
    using sl_repD(2) [OF assms(1)] assms(2) by (fastforce simp: below_def filter_empty_conv)
  then show ?thesis by (simp add: pred_def)
qed

lemma pred_in:
  "pred h hdr k xs i = hdr \<or> pred h hdr k xs i \<in> set xs \<and> i \<le> nlvl h (pred h hdr k xs i)"
proof (cases "below h k i xs = []")
  case False
  then have "pred h hdr k xs i \<in> set (below h k i xs)" by (simp add: pred_def)
  then show ?thesis by (simp add: below_def)
qed (simp add: pred_def)

lemma pred_old:
  assumes "sl_shape h M hdr n xs"
  shows "pred h hdr k xs i < n"
  using pred_in [of h hdr k xs i] sl_shapeD(3) [OF assms] sl_shapeD(4) [OF assms] by fastforce

lemma present_iff:
  assumes "sl_rep s xs"
  shows "bindE (case first (above (heap s) k 0 xs) of None \<Rightarrow> Inr False
      | Some a \<Rightarrow> bindE (deref (heap s) a) (\<lambda>n. Inr (key n = k))) f = f (k \<in> nkey (heap s) ` set xs)"
proof -
  note sh = sl_repD(1) [OF assms]
  have "map_of (map (\<lambda>a. (nkey (heap s) a, ())) xs) k = (case first (above (heap s) k 0 xs) of None \<Rightarrow> None
      | Some a \<Rightarrow> if nkey (heap s) a = k then Some () else None)"
    unfolding above0 by (rule map_of_first [OF sl_shapeD(5) [OF sh]])
  moreover have "k \<in> nkey (heap s) ` set xs \<longleftrightarrow> map_of (map (\<lambda>a. (nkey (heap s) a, ())) xs) k \<noteq> None"
    by (auto simp: map_of_eq_None_iff image_image)
  moreover have "deref (heap s) a = Inr (the (heap s a))" if "first (above (heap s) k 0 xs) = Some a" for a
    using node_of [OF sh, of a] first_in [OF that] by (auto simp: above_def deref_def)
  ultimately show ?thesis
    by (cases "first (above (heap s) k 0 xs)") (auto simp: nkey_def)
qed

lemma insert_present:
  assumes "sl_rep s xs" "k \<in> nkey (heap s) ` set xs"
  shows "insert_element_locked env s k v = Inr (s, 1)"
  using assms by (simp add: insert_element_locked_def find_update_ok present_iff)

lemma insert_absent:
  assumes rep: "sl_rep s xs" and k: "k \<notin> nkey (heap s) ` set xs"
    and rl: "get_random_level env s = Inr (r, s1)"
  shows "\<exists>s'. insert_element_locked env s k v = Inr (s', 0) \<and>
    sl_rep s' (below (heap s) k 0 xs @ allocated s # above (heap s) k 0 xs) \<and>
    pairs_of (heap s') (below (heap s) k 0 xs @ allocated s # above (heap s) k 0 xs) =
      pairs_of (heap s) (below (heap s) k 0 xs) @ (k, v) # pairs_of (heap s) (above (heap s) k 0 xs) \<and>
    max_level s' = max_level s \<and> header s' = header s"
proof -
  let ?h = "heap s" and ?z = "allocated s" and ?L = "skip_list_level s" and ?hdr = "header s" and ?M = "max_level s"
  let ?xs = "below ?h k 0 xs @ ?z # above ?h k 0 xs" and ?p = "pred ?h ?hdr k xs"
  note sh = sl_repD(1) [OF rep]
  obtain pos where r: "r \<le> ?M" "s1 = s\<lparr>rand_pos := pos\<rparr>" using get_random_level_bound [OF rl] by blast
  let ?u = "if r > ?L then foldl (\<lambda>u i. u[i := Some ?hdr]) (update_of s k xs) [?L + 1..<r + 1] else update_of s k xs"
  let ?hz = "?h(?z \<mapsto> new_node k v r)"
  have u: "update_at ?u i = Inr (?p i)" if "i \<le> r" for i
  proof (cases "i \<le> ?L")
    case True
    then show ?thesis
      using that r(1) sl_repD(3) [OF rep] nth_update_of [OF True, of k xs]
      by (intro update_atI) (auto simp: foldl_update length_update_of)
  next
    case False
    then show ?thesis
      using that r(1) sl_repD(3) [OF rep] pred_high [OF rep, of i k]
      by (intro update_atI) (auto simp: foldl_update length_update_of nth_list_update)
  qed
  have old: "?p i \<noteq> ?z" for i using pred_old [OF sh, of k i] by simp
  have memb: "set [0..<r + 1] = {i. i \<le> r}" by auto
  have nx: "fwd ?h (?p i) i = Inr (first (above ?h k i xs))" if "i \<le> r" for i
    using pred_next [OF sh, of i k] that r(1) by (simp add: first_def)
  have "\<exists>h'. link_levels ?u ?z [0..<r + 1] ?hz = Inr h' \<and> same_nodes ?hz h' \<and>
    (\<forall>i \<in> set [0..<r + 1]. fwd h' ?z i = Inr (first (above ?h k i xs)) \<and> fwd h' (?p i) i = Inr (Some ?z)) \<and>
    (\<forall>a i. i \<notin> set [0..<r + 1] \<or> a \<noteq> ?z \<and> a \<noteq> ?p i \<longrightarrow> fwd h' a i = fwd ?hz a i)"
  proof (rule link_levels_ok [where u = ?p and nx = "\<lambda>i. first (above ?h k i xs)"])
    fix i assume "i \<in> set [0..<r + 1]"
    then have i: "i \<le> r" by auto
    have "fwd ?hz ?z i = Inr None" using i by (subst fwd_Some) (auto simp: new_node_def nth_Cons split: nat.split)
    then show "update_at ?u i = Inr (?p i) \<and> ?p i \<noteq> ?z \<and> fwd ?hz (?p i) i = Inr (first (above ?h k i xs)) \<and>
        (\<exists>p. fwd ?hz ?z i = Inr p)"
      using u [OF i] old nx [OF i] by (simp add: fwd_upd_other)
  qed simp
  then obtain h' where h': "link_levels ?u ?z [0..<r + 1] ?hz = Inr h'" "same_nodes ?hz h'"
    "\<And>i. i \<le> r \<Longrightarrow> fwd h' ?z i = Inr (first (above ?h k i xs)) \<and> fwd h' (?p i) i = Inr (Some ?z)"
    "\<And>a i. \<not> i \<le> r \<or> a \<noteq> ?z \<and> a \<noteq> ?p i \<Longrightarrow> fwd h' a i = fwd ?hz a i"
    unfolding memb by blast
  have shape: "sl_shape h' ?M ?hdr (Suc ?z) ?xs"
    by (rule insert_shape [OF sh r(1) k h'(2)]) (use h'(3,4) nx in \<open>auto simp: fwd_upd_other\<close>)
  let ?s' = "s1\<lparr>skip_list_level := max r ?L, allocated := Suc ?z, heap := h', element_count := element_count s + 1\<rparr>"
  have run: "insert_element_locked env s k v = Inr (?s', 0)"
    using k r(2) rl h'(1)
    by (auto simp: insert_element_locked_def find_update_ok [OF rep] present_iff [OF rep] create_node_def max_def Let_def)
  have new: "nlvl h' ?z = r" "nkey h' ?z = k" "nval h' ?z = v"
    using same_nodes_fields [OF h'(2), of ?z] by (simp_all add: nlvl_def nkey_def nval_def new_node_def)
  have same: "nlvl h' a = nlvl ?h a" "nkey h' a = nkey ?h a" "nval h' a = nval ?h a" if "a \<in> set xs" for a
  proof -
    have "a \<noteq> ?z" "?h a \<noteq> None" using sl_shapeD(4) [OF sh that] by auto
    then show "nlvl h' a = nlvl ?h a" "nkey h' a = nkey ?h a" "nval h' a = nval ?h a"
      using same_nodes_fields [OF h'(2), of a] by (simp_all add: nlvl_def nkey_def nval_def)
  qed
  have "length ?xs = Suc (length xs)" using arg_cong [OF split0 [OF sh, of k], of length] by simp
  then have "sl_rep ?s' ?xs"
    using shape r sl_repD(2,3,4) [OF rep] new(1) same(1)
    by (auto simp: sl_rep_def below_def above_def le_max_iff_disj)
  moreover have "pairs_of h' ?xs = pairs_of ?h (below ?h k 0 xs) @ (k, v) # pairs_of ?h (above ?h k 0 xs)"
    using new same by (auto simp: pairs_of_def below_def above_def)
  ultimately show ?thesis using run r(2) by (intro exI [of _ ?s']) simp
qed

section \<open>Deleting\<close>

lemma delete_shape:
  assumes sh: "sl_shape h M hdr n xs" and ab: "above h k 0 xs = z # hi" and r: "nlvl h z = r"
    and same: "same_nodes h h'"
    and new: "\<And>i. i \<le> r \<Longrightarrow> fwd h' (pred h hdr k xs i) i = fwd h z i"
    and frame: "\<And>a i. \<not> i \<le> r \<or> a \<noteq> pred h hdr k xs i \<Longrightarrow> fwd h' a i = fwd h a i"
  shows "sl_shape (h'(z := None)) M hdr n (below h k 0 xs @ hi)"
proof -
  let ?h = "h'(z := None)" and ?xs = "below h k 0 xs @ hi"
  have xs: "xs = below h k 0 xs @ z # hi" using split0 [OF sh, of k] ab by simp
  have dist: "distinct (hdr # below h k 0 xs @ z # hi)" using sl_distinct [OF sh] xs by simp
  have z: "z \<noteq> hdr" "z \<notin> set ?xs" using dist by auto
  have sub: "set ?xs \<subseteq> set xs" using xs by (metis Un_subset_iff set_append set_subset_Cons subset_trans sup_ge1 sup_ge2 subsetI)
  have old: "nkey ?h a = nkey h a" "nlvl ?h a = nlvl h a" if "a \<in> set ?xs" for a
  proof -
    have "a \<in> set xs" "a \<noteq> z" using that sub z(2) by auto
    then show "nkey ?h a = nkey h a" "nlvl ?h a = nlvl h a"
      using same_nodes_fields [OF same, of a] sl_shapeD(4) [OF sh, of a] by (auto simp: nkey_def nlvl_def)
  qed
  have hd: "\<exists>d. ?h hdr = Some d \<and> length (forward d) = Suc M"
    using same_nodesD [OF same, of hdr] sl_shapeD(1) [OF sh] z(1) by (fastforce simp: static_def)
  have nodes: "\<exists>d. ?h a = Some d \<and> length (forward d) = Suc (node_level d) \<and> node_level d \<le> M \<and> a < n"
    if "a \<in> set ?xs" for a
  proof -
    have a: "a \<in> set xs" "a \<noteq> z" using that sub z(2) by auto
    then obtain d where "h a = Some d" "length (forward d) = Suc (node_level d)" "node_level d \<le> M" "a < n"
      using sl_shapeD(4) [OF sh] by blast
    then show ?thesis using same_nodesD [OF same, of a] a(2) by (fastforce simp: static_def)
  qed
  have "sorted_wrt (<) (map (nkey h) (below h k 0 xs @ z # hi))" using sl_shapeD(5) [OF sh] xs by metis
  then have "sorted_wrt (<) (map (nkey h) ?xs)" by (simp add: sorted_wrt_append)
  moreover have "map (nkey ?h) ?xs = map (nkey h) ?xs" by (rule map_cong [OF refl old(1)])
  ultimately have sorted: "sorted_wrt (<) (map (nkey ?h) ?xs)" by metis
  have abi: "above h k i xs = (if i \<le> r then [z] else []) @ filter (\<lambda>a. i \<le> nlvl h a) hi" for i
  proof -
    have "above h k i xs = filter (\<lambda>a. i \<le> nlvl h a) (above h k 0 xs)"
      by (simp add: above_def conj_commute)
    then show ?thesis using r by (simp add: ab)
  qed
  have flt: "filter (\<lambda>a. i \<le> nlvl ?h a) ?xs = below h k i xs @ filter (\<lambda>a. i \<le> nlvl h a) hi" for i
  proof -
    have "filter (\<lambda>a. i \<le> nlvl ?h a) ?xs = filter (\<lambda>a. i \<le> nlvl h a) ?xs"
      by (rule filter_cong [OF refl]) (simp add: old(2))
    also have "\<dots> = below h k i xs @ filter (\<lambda>a. i \<le> nlvl h a) hi" by (simp add: below_def conj_commute)
    finally show ?thesis .
  qed
  have links: "linked ?h i hdr (filter (\<lambda>a. i \<le> nlvl ?h a) ?xs)" if "i \<le> M" for i
  proof -
    let ?fh = "filter (\<lambda>a. i \<le> nlvl h a) hi"
    note ch = chain [OF sh that, of k] and di = distinct_chain [OF sh, of k i]
    have nz: "b \<noteq> z" if "b \<in> set (hdr # below h k i xs @ ?fh)" for b
      using that z by (auto simp: below_def)
    have "linked h' i hdr (below h k i xs @ ?fh)"
    proof (cases "i \<le> r")
      case True
      show ?thesis
      proof (rule linked_delete [of h i hdr "below h k i xs" z])
        show "linked h i hdr (below h k i xs @ z # ?fh)" "distinct (hdr # below h k i xs @ z # ?fh)"
          using ch di True by (simp_all add: abi)
        show "fwd h' (last (hdr # below h k i xs)) i = fwd h z i" using new [OF True] by (simp add: pred_def)
        fix b assume "b \<noteq> last (hdr # below h k i xs)"
        then show "fwd h' b i = fwd h b i" by (intro frame) (simp add: pred_def)
      qed
    next
      case False
      have "linked h' i hdr (below h k i xs @ ?fh) = linked h i hdr (below h k i xs @ ?fh)"
        by (rule linked_cong) (use frame False in auto)
      then show ?thesis using ch False by (simp add: abi)
    qed
    moreover have "linked ?h i hdr (below h k i xs @ ?fh) = linked h' i hdr (below h k i xs @ ?fh)"
      by (rule linked_cong) (rule fwd_upd_other [OF nz])
    ultimately show ?thesis unfolding flt by simp
  qed
  have "hdr \<notin> set ?xs" "hdr < n" using sl_shapeD(3) [OF sh] dist by auto
  then show ?thesis
    unfolding sl_shape_def using hd nodes sorted links by (intro conjI ballI allI impI)
qed

lemma lower_level_ok:
  assumes "\<And>j. j \<le> l \<Longrightarrow> \<exists>p. fwd h hdr j = Inr p"
  shows "\<exists>l'. lower_level h hdr l = Inr l' \<and> l' \<le> l \<and> (\<forall>j. l' < j \<longrightarrow> j \<le> l \<longrightarrow> fwd h hdr j = Inr None)"
  using assms
proof (induction l)
  case (Suc l)
  then obtain l' where l': "lower_level h hdr l = Inr l'" "l' \<le> l" "\<forall>j. l' < j \<longrightarrow> j \<le> l \<longrightarrow> fwd h hdr j = Inr None"
    by (meson le_Suc_eq)
  obtain p where p: "fwd h hdr (Suc l) = Inr p" using Suc.prems [of "Suc l"] by auto
  show ?case
  proof (cases p)
    case None
    then show ?thesis using l' p by (auto simp: le_Suc_eq)
  qed (use p in auto)
qed simp

lemma levels_bound:
  assumes "sl_shape h M hdr n xs" "a \<in> set xs" "\<And>j. l < j \<Longrightarrow> j \<le> m \<Longrightarrow> fwd h hdr j = Inr None" "nlvl h a \<le> m" "m \<le> M"
  shows "nlvl h a \<le> l"
proof (rule ccontr)
  assume "\<not> nlvl h a \<le> l"
  then have "fwd h hdr (nlvl h a) = Inr None" using assms(3,4) by simp
  moreover have "linked h (nlvl h a) hdr (filter (\<lambda>b. nlvl h a \<le> nlvl h b) xs)"
    using sl_shapeD(6) [OF assms(1)] assms(4,5) by simp
  moreover have "filter (\<lambda>b. nlvl h a \<le> nlvl h b) xs \<noteq> []" using assms(2) by (auto simp: filter_empty_conv)
  ultimately show False by (auto dest!: linked_first split: list.splits)
qed

lemma key_present:
  assumes "sl_rep s xs" "k \<in> nkey (heap s) ` set xs"
  obtains z hi where "above (heap s) k 0 xs = z # hi" "nkey (heap s) z = k" "z \<in> set xs"
proof -
  have "bindE (case first (above (heap s) k 0 xs) of None \<Rightarrow> Inr False
      | Some a \<Rightarrow> bindE (deref (heap s) a) (\<lambda>n. Inr (key n = k))) Inr = Inr True"
    unfolding present_iff [OF assms(1)] using assms(2) by simp
  then obtain z hi where z: "above (heap s) k 0 xs = z # hi" "deref (heap s) z = Inr n \<Longrightarrow> key n = k" for n
    by (auto simp: first_def bindE_Inr_iff split: list.splits option.splits)
  have "z \<in> set (above (heap s) k 0 xs)" using z(1) by simp
  then have "z \<in> set xs" by (simp add: above_def)
  then show thesis using that [OF z(1)] z(2) node_of [OF sl_repD(1) [OF assms(1)]] by (force simp: deref_def)
qed

lemma delete_present:
  assumes rep: "sl_rep s xs" and k: "k \<in> nkey (heap s) ` set xs"
  shows "\<exists>s' z hi. delete_element_locked s k = Inr (s', True) \<and> above (heap s) k 0 xs = z # hi \<and> nkey (heap s) z = k \<and>
    sl_rep s' (below (heap s) k 0 xs @ hi) \<and>
    pairs_of (heap s') (below (heap s) k 0 xs @ hi) = pairs_of (heap s) (below (heap s) k 0 xs @ hi) \<and>
    max_level s' = max_level s"
proof -
  let ?h = "heap s" and ?L = "skip_list_level s" and ?hdr = "header s" and ?M = "max_level s"
  let ?p = "pred ?h ?hdr k xs" and ?u = "update_of s k xs"
  note sh = sl_repD(1) [OF rep]
  obtain z hi where z: "above ?h k 0 xs = z # hi" "nkey ?h z = k" "z \<in> set xs" using key_present [OF rep k] .
  let ?r = "nlvl ?h z"
  have r: "?r \<le> ?L" "?L \<le> ?M" using sl_repD(2,3) [OF rep] z(3) by auto
  have u: "update_at ?u i = Inr (?p i)" if "i \<le> ?L" for i
    using that r nth_update_of [OF that] by (intro update_atI) (simp_all add: length_update_of)
  have above_mem: "above ?h k i xs = filter (\<lambda>a. i \<le> nlvl ?h a) (z # hi)" for i
    using z(1) [symmetric] by (simp add: above_def conj_commute)
  have nx: "fwd ?h (?p i) i = Inr (first (above ?h k i xs))" if "i \<le> ?M" for i
    using pred_next [OF sh that] by (simp add: first_def)
  have pz: "?p i \<noteq> z" for i
  proof -
    have "?p i = ?hdr \<or> ?p i \<in> set (below ?h k i xs)" by (simp add: pred_def)
    then show ?thesis using z(2,3) sl_shapeD(2) [OF sh] by (auto simp: below_def)
  qed
  obtain d where d: "?h z = Some d" "length (forward d) = Suc ?r"
    using sl_shapeD(4) [OF sh z(3)] by (auto simp: nlvl_def)
  have lv: "[0..<?L + 1] = [0..<?r + 1] @ [?r + 1..<?L + 1]"
    using upt_add_eq_append [of 0 "?r + 1" "?L - ?r"] r(1) by simp
  have memb: "set [0..<?r + 1] = {i. i \<le> ?r}" by auto
  have "\<exists>h'. unlink_levels ?u z ([0..<?r + 1] @ [?r + 1..<?L + 1]) ?h = Inr h' \<and> same_nodes ?h h' \<and>
    (\<forall>i \<in> set [0..<?r + 1]. fwd h' (?p i) i = Inr (forward d ! i)) \<and>
    (\<forall>a i. i \<notin> set [0..<?r + 1] \<or> a \<noteq> ?p i \<longrightarrow> fwd h' a i = fwd ?h a i)"
  proof (rule unlink_levels_ok [where u = ?p and nx = "\<lambda>i. forward d ! i"])
    fix i assume "i \<in> set [0..<?r + 1]"
    then have i: "i \<le> ?r" by auto
    have "above ?h k i xs = z # filter (\<lambda>a. i \<le> nlvl ?h a) hi" using i by (simp add: above_mem)
    then have "fwd ?h (?p i) i = Inr (Some z)" using nx [of i] i r by (simp add: first_def)
    then show "update_at ?u i = Inr (?p i) \<and> ?p i \<noteq> z \<and> fwd ?h (?p i) i = Inr (Some z) \<and> fwd ?h z i = Inr (forward d ! i)"
      using u [of i] i r(1) pz d by (simp add: fwd_Some)
  next
    show "[?r + 1..<?L + 1] = [] \<or> (\<exists>j js p. [?r + 1..<?L + 1] = j # js \<and> j \<notin> set [0..<?r + 1] \<and>
        update_at ?u j = Inr (?p j) \<and> fwd ?h (?p j) j = Inr p \<and> p \<noteq> Some z)"
    proof (cases "?r = ?L")
      case False
      then have j: "?r + 1 \<le> ?L" using r(1) by simp
      have "z \<notin> set (above ?h k (?r + 1) xs)" by (simp add: above_def)
      then have "first (above ?h k (?r + 1) xs) \<noteq> Some z" using first_in by fastforce
      moreover have "[?r + 1..<?L + 1] = (?r + 1) # [?r + 2..<?L + 1]" using j by (simp add: upt_conv_Cons)
      ultimately show ?thesis using u [OF j] nx [of "?r + 1"] j r(2) by auto
    qed simp
  qed simp
  then obtain h' where h': "unlink_levels ?u z [0..<?L + 1] ?h = Inr h'" "same_nodes ?h h'"
    "\<And>i. i \<le> ?r \<Longrightarrow> fwd h' (?p i) i = Inr (forward d ! i)"
    "\<And>a i. \<not> i \<le> ?r \<or> a \<noteq> ?p i \<Longrightarrow> fwd h' a i = fwd ?h a i"
    unfolding memb lv by blast
  let ?hf = "h'(z := None)" and ?ys = "below ?h k 0 xs @ hi"
  have shape: "sl_shape ?hf ?M ?hdr (allocated s) ?ys"
    by (rule delete_shape [OF sh z(1) refl h'(2)]) (use h'(3,4) d in \<open>auto simp: fwd_Some\<close>)
  have hz: "z \<noteq> ?hdr" using z(3) sl_shapeD(2) [OF sh] by auto
  have top: "fwd h' ?hdr j = fwd ?hf ?hdr j" for j using hz by (simp add: fwd_upd_other)
  have def: "\<exists>p. fwd h' ?hdr j = Inr p" if "j \<le> ?L" for j
    using sl_shapeD(6) [OF shape, of j] that r(2) by (auto simp: top dest!: linked_first)
  obtain l where l: "lower_level h' ?hdr ?L = Inr l" "l \<le> ?L" "\<forall>j. l < j \<longrightarrow> j \<le> ?L \<longrightarrow> fwd h' ?hdr j = Inr None"
    using lower_level_ok [of ?L h' ?hdr] def by blast
  let ?s' = "s\<lparr>heap := ?hf, skip_list_level := l, element_count := element_count s - 1\<rparr>"
  have run: "delete_element_locked s k = Inr (?s', True)"
  proof -
    have "deref ?h z = Inr d" "key d = k" using d z(2) by (simp_all add: deref_def nkey_def)
    then show ?thesis using h'(1) l(1) z(1)
      by (simp add: delete_element_locked_def find_update_ok [OF rep] first_def)
  qed
  have ys: "a \<in> set xs \<and> a \<noteq> z" if "a \<in> set ?ys" for a
  proof -
    have "a \<in> set (above ?h k 0 xs) \<or> a \<in> set (below ?h k 0 xs)" using that z(1) by auto
    moreover have "z \<notin> set ?ys" using sl_distinct [OF sh] split0 [OF sh, of k] z(1) by (metis distinct.simps(2) distinct_append not_distinct_conv_prefix Un_iff set_append disjoint_iff list.set_intros(1))
    ultimately show ?thesis using that by (auto simp: above_def below_def)
  qed
  have same: "nlvl ?hf a = nlvl ?h a" "nkey ?hf a = nkey ?h a" "nval ?hf a = nval ?h a" if "a \<in> set ?ys" for a
  proof -
    have "a \<noteq> z" "?h a \<noteq> None" using ys [OF that] sl_shapeD(4) [OF sh, of a] by auto
    then show "nlvl ?hf a = nlvl ?h a" "nkey ?hf a = nkey ?h a" "nval ?hf a = nval ?h a"
      using same_nodes_fields [OF h'(2), of a] by (simp_all add: nlvl_def nkey_def nval_def)
  qed
  have "nlvl ?hf a \<le> l" if "a \<in> set ?ys" for a
  proof (rule levels_bound [OF shape that _ _ r(2)])
    show "nlvl ?hf a \<le> ?L" using same(1) [OF that] ys [OF that] sl_repD(2) [OF rep] by simp
    fix j assume "l < j" "j \<le> ?L"
    then show "fwd ?hf ?hdr j = Inr None" using l(3) by (simp add: top)
  qed
  moreover have "length xs = Suc (length ?ys)" using arg_cong [OF split0 [OF sh, of k], of length] z(1) by simp
  ultimately have "sl_rep ?s' ?ys" using shape l(2) r(2) sl_repD(4) [OF rep] by (simp add: sl_rep_def)
  moreover have "pairs_of ?hf ?ys = pairs_of ?h ?ys" unfolding pairs_of_def using same by (intro map_cong) auto
  ultimately show ?thesis using run z(1,2) by (intro exI [of _ ?s'] exI [of _ z] exI [of _ hi]) simp
qed

end
