(* ===== verification/Lru_Cache.thy ===== *)
theory Lru_Cache
  imports KV_Prelude "HOL-Library.Multiset"
begin

text \<open>
  \<open>LRUCache\<close> of \<open>storage/include/lru_cache.h\<close>: a doubly linked list of pairs, most recently
  used first, and an index from keys to list iterators.  A list node is identified by the
  number it was created with (\<open>node_id\<close>), an iterator is such a number, and dereferencing an
  iterator whose node is gone is undefined behaviour.  The lemmas show that the index and the
  list always agree, that no operation dereferences a dangling iterator, that the cache never
  exceeds its capacity, and that the operations refine move-to-front on a list of pairs.
\<close>

record node =
  node_id :: nat
  node_key :: string
  node_val :: string

record lru =
  m_capacity :: nat
  m_items :: "node list"
  m_index :: "string \<rightharpoonup> nat"
  m_next_node :: nat

definition lru_new :: "nat \<Rightarrow> lru" where
  "lru_new capacity = \<lparr>m_capacity = capacity, m_items = [], m_index = Map.empty, m_next_node = 0\<rparr>"

text \<open>\<open>std::list\<close>: dereference, splice of one node to the front, erase at an iterator.\<close>

definition list_deref :: "nat \<Rightarrow> node list \<Rightarrow> exn + node" where
  "list_deref it xs =
     (case find (\<lambda>n. node_id n = it) xs of
        None \<Rightarrow> Inl (UndefinedBehaviour ''dangling list iterator'')
      | Some n \<Rightarrow> Inr n)"

definition splice_front :: "nat \<Rightarrow> node list \<Rightarrow> node list" where
  "splice_front it xs = filter (\<lambda>n. node_id n = it) xs @ filter (\<lambda>n. node_id n \<noteq> it) xs"

definition list_erase :: "nat \<Rightarrow> node list \<Rightarrow> node list" where
  "list_erase it xs = filter (\<lambda>n. node_id n \<noteq> it) xs"

definition list_assign :: "nat \<Rightarrow> string \<Rightarrow> node list \<Rightarrow> node list" where
  "list_assign it v xs = map (\<lambda>n. if node_id n = it then n\<lparr>node_val := v\<rparr> else n) xs"

definition lru_Get :: "lru \<Rightarrow> string \<Rightarrow> exn + lru \<times> string option" where
  "lru_Get c key =
     (if m_capacity c = 0 then Inr (c, None)
      else case m_index c key of
             None \<Rightarrow> Inr (c, None)
           | Some it \<Rightarrow>
               bindE (list_deref it (m_items c)) (\<lambda>n.
                 Inr (c\<lparr>m_items := splice_front it (m_items c)\<rparr>, Some (node_val n))))"

definition lru_Put :: "lru \<Rightarrow> string \<Rightarrow> string \<Rightarrow> exn + lru" where
  "lru_Put c key value =
     (if m_capacity c = 0 then Inr c
      else case m_index c key of
             Some it \<Rightarrow>
               bindE (list_deref it (m_items c)) (\<lambda>_.
                 Inr (c\<lparr>m_items := splice_front it (list_assign it value (m_items c))\<rparr>))
           | None \<Rightarrow>
               (let items = \<lparr>node_id = m_next_node c, node_key = key, node_val = value\<rparr> # m_items c;
                    index = (m_index c)(key \<mapsto> m_next_node c);
                    c1 = c\<lparr>m_items := items, m_index := index, m_next_node := Suc (m_next_node c)\<rparr>
                in if length items > m_capacity c
                   then Inr (c1\<lparr>m_items := butlast items, m_index := index(node_key (last items) := None)\<rparr>)
                   else Inr c1))"

definition lru_Delete :: "lru \<Rightarrow> string \<Rightarrow> exn + lru" where
  "lru_Delete c key =
     (case m_index c key of
        None \<Rightarrow> Inr c
      | Some it \<Rightarrow>
          bindE (list_deref it (m_items c)) (\<lambda>_.
            Inr (c\<lparr>m_items := list_erase it (m_items c), m_index := (m_index c)(key := None)\<rparr>)))"

definition lru_Clear :: "lru \<Rightarrow> lru" where
  "lru_Clear c = c\<lparr>m_items := [], m_index := Map.empty\<rparr>"

definition lru_Size :: "lru \<Rightarrow> nat" where
  "lru_Size c = length (m_items c)"

section \<open>The index and the list agree\<close>

definition lru_inv :: "lru \<Rightarrow> bool" where
  "lru_inv c \<longleftrightarrow>
     distinct (map node_id (m_items c)) \<and> distinct (map node_key (m_items c)) \<and>
     (\<forall>n \<in> set (m_items c). node_id n < m_next_node c) \<and>
     m_index c = map_of (map (\<lambda>n. (node_key n, node_id n)) (m_items c)) \<and>
     length (m_items c) \<le> m_capacity c"

text \<open>The abstract cache: pairs, most recently used first.\<close>

definition pairs :: "node list \<Rightarrow> (string \<times> string) list" where
  "pairs xs = map (\<lambda>n. (node_key n, node_val n)) xs"

definition lru_abs :: "lru \<Rightarrow> (string \<times> string) list" where
  "lru_abs c = pairs (m_items c)"

definition to_front :: "string \<Rightarrow> (string \<times> string) list \<Rightarrow> (string \<times> string) list" where
  "to_front k ps = filter (\<lambda>p. fst p = k) ps @ filter (\<lambda>p. fst p \<noteq> k) ps"

definition lru_view :: "lru \<Rightarrow> string \<rightharpoonup> string" where
  "lru_view c = map_of (lru_abs c)"

lemma lru_invD:
  assumes "lru_inv c"
  shows "distinct (map node_id (m_items c))" "distinct (map node_key (m_items c))"
    "\<And>n. n \<in> set (m_items c) \<Longrightarrow> node_id n < m_next_node c"
    "m_index c = map_of (map (\<lambda>n. (node_key n, node_id n)) (m_items c))"
    "length (m_items c) \<le> m_capacity c"
  using assms by (auto simp: lru_inv_def)

lemma lru_inv_new [simp]: "lru_inv (lru_new capacity)"
  by (simp add: lru_inv_def lru_new_def)

lemma map_of_node_index:
  "distinct (map node_key xs) \<Longrightarrow>
   map_of (map (\<lambda>n. (node_key n, f n)) xs) k = Some i \<longleftrightarrow> (\<exists>n \<in> set xs. node_key n = k \<and> f n = i)"
  by (induction xs) (auto simp: image_iff)

lemma map_of_node_none:
  "map_of (map (\<lambda>n. (node_key n, f n)) xs) k = None \<longleftrightarrow> k \<notin> node_key ` set xs"
  by (induction xs) auto

text \<open>An iterator found in the index points at the one node of the list that has the key.\<close>

lemma index_hit:
  assumes "lru_inv c" "m_index c k = Some it"
  obtains n where "n \<in> set (m_items c)" "node_key n = k" "node_id n = it"
    "list_deref it (m_items c) = Inr n" "lru_view c k = Some (node_val n)"
    "\<And>m. m \<in> set (m_items c) \<Longrightarrow> node_id m = it \<longleftrightarrow> node_key m = k"
proof -
  note inv = lru_invD [OF assms(1)]
  from assms(2) obtain n where n: "n \<in> set (m_items c)" "node_key n = k" "node_id n = it"
    by (auto simp: inv(4) map_of_node_index [OF inv(2)])
  have same: "node_id m = it \<longleftrightarrow> node_key m = k" if "m \<in> set (m_items c)" for m
    using n that inv(1,2) by (auto simp: distinct_map dest: inj_onD)
  have uniq: "m = n" if "m \<in> set (m_items c)" "node_id m = it" for m
    using n that inv(1) by (auto simp: distinct_map dest: inj_onD)
  have "find (\<lambda>m. node_id m = it) (m_items c) = Some n"
  proof (cases "find (\<lambda>m. node_id m = it) (m_items c)")
    case None
    then show ?thesis using n by (auto simp: find_None_iff)
  next
    case (Some m)
    then have "m \<in> set (m_items c)" "node_id m = it" by (auto simp: find_Some_iff)
    with Some uniq show ?thesis by simp
  qed
  then have "list_deref it (m_items c) = Inr n" by (simp add: list_deref_def)
  moreover have "lru_view c k = Some (node_val n)"
    using n by (auto simp: lru_view_def lru_abs_def pairs_def map_of_node_index [OF inv(2)])
  ultimately show thesis using that n same by blast
qed

lemma index_miss:
  assumes "lru_inv c" "m_index c k = None"
  shows "lru_view c k = None" "k \<notin> node_key ` set (m_items c)"
  using assms by (auto simp: lru_view_def lru_abs_def pairs_def lru_invD(4) map_of_node_none)

lemma pairs_filter: "pairs (filter (\<lambda>n. P (node_key n)) xs) = filter (\<lambda>p. P (fst p)) (pairs xs)"
  by (induction xs) (auto simp: pairs_def)

lemma pairs_append [simp]: "pairs (xs @ ys) = pairs xs @ pairs ys"
  by (simp add: pairs_def)

lemma pairs_Cons [simp]: "pairs (n # xs) = (node_key n, node_val n) # pairs xs"
  by (simp add: pairs_def)

lemma pairs_butlast: "pairs (butlast xs) = butlast (pairs xs)"
  by (simp add: pairs_def map_butlast)

lemma splice_front_by_key:
  assumes "\<And>m. m \<in> set xs \<Longrightarrow> node_id m = it \<longleftrightarrow> node_key m = k"
  shows "splice_front it xs = filter (\<lambda>n. node_key n = k) xs @ filter (\<lambda>n. node_key n \<noteq> k) xs"
proof -
  have "filter (\<lambda>n. node_id n = it) xs = filter (\<lambda>n. node_key n = k) xs"
    "filter (\<lambda>n. node_id n \<noteq> it) xs = filter (\<lambda>n. node_key n \<noteq> k) xs"
    using assms by (auto intro: filter_cong)
  then show ?thesis by (simp add: splice_front_def)
qed

lemma mset_splice_front: "mset (splice_front it xs) = mset xs"
  by (simp add: splice_front_def) 

lemma splice_front_distinct:
  "distinct (map f xs) \<Longrightarrow> distinct (map f (splice_front it xs))"
  by (metis mset_eq_imp_distinct_iff mset_map mset_splice_front)

lemma set_splice_front [simp]: "set (splice_front it xs) = set xs"
  by (auto simp: splice_front_def)

lemma length_splice_front [simp]: "length (splice_front it xs) = length xs"
  by (metis mset_splice_front size_mset)

lemma map_of_splice_front:
  assumes "distinct (map node_key xs)"
  shows "map_of (map (\<lambda>n. (node_key n, node_id n)) (splice_front it xs)) =
         map_of (map (\<lambda>n. (node_key n, node_id n)) xs)"
proof (rule map_of_eqI)
  show "set (map fst (map (\<lambda>n. (node_key n, node_id n)) (splice_front it xs))) =
        set (map fst (map (\<lambda>n. (node_key n, node_id n)) xs))" by simp
next
  show "\<forall>k \<in> set (map fst (map (\<lambda>n. (node_key n, node_id n)) (splice_front it xs))).
      map_of (map (\<lambda>n. (node_key n, node_id n)) (splice_front it xs)) k =
      map_of (map (\<lambda>n. (node_key n, node_id n)) xs) k"
  proof
    fix k
    have "map_of (map (\<lambda>n. (node_key n, node_id n)) (splice_front it xs)) k = Some i \<longleftrightarrow>
          map_of (map (\<lambda>n. (node_key n, node_id n)) xs) k = Some i" for i
      using assms splice_front_distinct [OF assms, of it] by (simp add: map_of_node_index)
    then show "map_of (map (\<lambda>n. (node_key n, node_id n)) (splice_front it xs)) k =
      map_of (map (\<lambda>n. (node_key n, node_id n)) xs) k"
      by (metis not_None_eq)
  qed
qed

text \<open>Splicing keeps the invariant, whatever values the nodes hold.\<close>

lemma list_assign_frame [simp]:
  "map node_id (list_assign it v xs) = map node_id xs"
  "map node_key (list_assign it v xs) = map node_key xs"
  "length (list_assign it v xs) = length xs"
  "map (\<lambda>n. (node_key n, node_id n)) (list_assign it v xs) = map (\<lambda>n. (node_key n, node_id n)) xs"
  by (auto simp: list_assign_def)

lemma lru_inv_frame:
  assumes "lru_inv c"
    and same: "map (\<lambda>n. (node_key n, node_id n)) xs = map (\<lambda>n. (node_key n, node_id n)) (m_items c)"
  shows "lru_inv (c\<lparr>m_items := splice_front it xs\<rparr>)"
proof -
  note inv = lru_invD [OF assms(1)]
  have keys: "map node_key xs = map node_key (m_items c)"
    using arg_cong [OF same, of "map fst"] by (simp add: comp_def)
  have ids: "map node_id xs = map node_id (m_items c)"
    using arg_cong [OF same, of "map snd"] by (simp add: comp_def)
  have bound: "\<forall>n \<in> set xs. node_id n < m_next_node c"
    using inv(3) arg_cong [OF ids, of set] by (metis (no_types, lifting) image_iff image_set)
  have len: "length xs \<le> m_capacity c" using inv(5) map_eq_imp_length_eq [OF ids] by simp
  show ?thesis
    using bound len map_of_splice_front [of xs it] inv(4) same
      splice_front_distinct [of node_id xs it] splice_front_distinct [of node_key xs it]
    by (simp add: lru_inv_def ids keys inv(1,2))
qed

section \<open>Every operation refines move-to-front and keeps the invariant\<close>

lemma lru_Get_ok:
  assumes "lru_inv c"
  shows "\<exists>c'. lru_Get c k = Inr (c', lru_view c k) \<and> lru_inv c' \<and>
              lru_abs c' = to_front k (lru_abs c) \<and> m_capacity c' = m_capacity c"
proof (cases "m_capacity c = 0")
  case True
  then have "m_items c = []" using lru_invD(5) [OF assms] by simp
  then show ?thesis using True assms
    by (simp add: lru_Get_def lru_view_def lru_abs_def pairs_def to_front_def)
next
  case False
  show ?thesis
  proof (cases "m_index c k")
    case None
    have "filter (\<lambda>p. fst p = k) (lru_abs c) = []" "filter (\<lambda>p. fst p \<noteq> k) (lru_abs c) = lru_abs c"
      using index_miss(2) [OF assms None] by (auto simp: lru_abs_def pairs_def filter_empty_conv filter_id_conv)
    then show ?thesis
      using None index_miss(1) [OF assms None] assms by (simp add: lru_Get_def to_front_def)
  next
    case (Some it)
    obtain n where n: "list_deref it (m_items c) = Inr n" "lru_view c k = Some (node_val n)"
      and same: "\<And>m. m \<in> set (m_items c) \<Longrightarrow> node_id m = it \<longleftrightarrow> node_key m = k"
      using index_hit [OF assms Some] by metis
    have "pairs (splice_front it (m_items c)) = to_front k (lru_abs c)"
      by (simp add: splice_front_by_key [OF same] pairs_filter [of "\<lambda>x. x = k"]
          pairs_filter [of "\<lambda>x. x \<noteq> k"] to_front_def lru_abs_def)
    then show ?thesis
      using Some n False lru_inv_frame [OF assms, of "m_items c" it]
      by (simp add: lru_Get_def lru_abs_def)
  qed
qed

lemma filter_key_single:
  "distinct (map f xs) \<Longrightarrow> n \<in> set xs \<Longrightarrow> filter (\<lambda>m. f m = f n) xs = [n]"
  by (induction xs) (auto simp: filter_empty_conv image_iff)

lemma pairs_assign_hit:
  assumes "distinct (map node_key xs)" "n \<in> set xs" "node_key n = k"
    and same: "\<And>m. m \<in> set xs \<Longrightarrow> node_id m = it \<longleftrightarrow> node_key m = k"
  shows "pairs (splice_front it (list_assign it v xs)) = (k, v) # filter (\<lambda>p. fst p \<noteq> k) (pairs xs)"
proof -
  have 1: "filter (\<lambda>m. node_id m = it) (list_assign it v xs) = [n\<lparr>node_val := v\<rparr>]"
  proof -
    have "filter (\<lambda>m. node_id m = it) (list_assign it v xs) =
          map (\<lambda>m. m\<lparr>node_val := v\<rparr>) (filter (\<lambda>m. node_id m = it) xs)"
      by (induction xs) (auto simp: list_assign_def)
    also have "filter (\<lambda>m. node_id m = it) xs = filter (\<lambda>m. node_key m = node_key n) xs"
      using same assms(3) by (auto intro: filter_cong)
    also have "\<dots> = [n]" using assms(1,2) by (rule filter_key_single)
    finally show ?thesis by simp
  qed
  have 2: "filter (\<lambda>m. node_id m \<noteq> it) (list_assign it v xs) = filter (\<lambda>m. node_key m \<noteq> k) xs"
  proof -
    have "filter (\<lambda>m. node_id m \<noteq> it) (list_assign it v xs) = filter (\<lambda>m. node_id m \<noteq> it) xs"
      by (induction xs) (auto simp: list_assign_def)
    also have "\<dots> = filter (\<lambda>m. node_key m \<noteq> k) xs" using same by (auto intro: filter_cong)
    finally show ?thesis .
  qed
  show ?thesis
    by (simp add: splice_front_def 1 2 assms(3) pairs_filter [of "\<lambda>x. x \<noteq> k"] pairs_def [of "[]"])
qed

lemma lru_Put_hit:
  assumes "lru_inv c" "m_index c k = Some it" "m_capacity c \<noteq> 0"
  shows "\<exists>c'. lru_Put c k v = Inr c' \<and> lru_inv c' \<and> m_capacity c' = m_capacity c \<and>
              lru_abs c' = (k, v) # filter (\<lambda>p. fst p \<noteq> k) (lru_abs c)"
proof -
  obtain n where n: "n \<in> set (m_items c)" "node_key n = k" "list_deref it (m_items c) = Inr n"
    and same: "\<And>m. m \<in> set (m_items c) \<Longrightarrow> node_id m = it \<longleftrightarrow> node_key m = k"
    using index_hit [OF assms(1,2)] by metis
  have "lru_inv (c\<lparr>m_items := splice_front it (list_assign it v (m_items c))\<rparr>)"
    by (rule lru_inv_frame [OF assms(1)]) simp
  then show ?thesis
    using assms(2,3) n(3) pairs_assign_hit [OF lru_invD(2) [OF assms(1)] n(1,2) same, of v]
    by (simp add: lru_Put_def lru_abs_def)
qed

lemma map_of_filter_key:
  "map_of (map (\<lambda>n. (node_key n, f n)) (filter (\<lambda>m. node_key m \<noteq> k) xs)) x =
   (if x = k then None else map_of (map (\<lambda>n. (node_key n, f n)) xs) x)"
  by (induction xs) auto

lemma map_of_remove_key:
  "(map_of (map (\<lambda>n. (node_key n, f n)) xs))(k := None) =
   map_of (map (\<lambda>n. (node_key n, f n)) (filter (\<lambda>m. node_key m \<noteq> k) xs))"
  by (rule ext) (simp add: map_of_filter_key)

text \<open>A miss: the new node is fresh in the list and in the index.\<close>

lemma lru_inv_cons:
  assumes "lru_inv c" "m_index c k = None" "length (m_items c) < m_capacity c"
  shows "lru_inv (c\<lparr>m_items := \<lparr>node_id = m_next_node c, node_key = k, node_val = v\<rparr> # m_items c,
                   m_index := (m_index c)(k \<mapsto> m_next_node c), m_next_node := Suc (m_next_node c)\<rparr>)"
  using lru_invD [OF assms(1)] index_miss(2) [OF assms(1,2)] assms(3)
  by (fastforce simp: lru_inv_def less_Suc_eq)

lemma lru_inv_evict:
  assumes "distinct (map node_id xs)" "distinct (map node_key xs)" "xs \<noteq> []"
    "\<forall>n \<in> set xs. node_id n < m_next_node c" "length xs \<le> Suc (m_capacity c)"
    "ix = map_of (map (\<lambda>n. (node_key n, node_id n)) xs)"
  shows "lru_inv (c\<lparr>m_items := butlast xs, m_index := ix(node_key (last xs) := None)\<rparr>)"
proof -
  obtain ys n where xs: "xs = ys @ [n]" using assms(3) by (metis append_butlast_last_id)
  have "(map_of (map (\<lambda>n. (node_key n, node_id n)) xs))(node_key n := None) =
        map_of (map (\<lambda>n. (node_key n, node_id n)) ys)"
  proof -
    have "filter (\<lambda>m. node_key m \<noteq> node_key n) xs = ys"
      using assms(2) by (auto simp: xs filter_id_conv image_iff)
    then show ?thesis by (simp add: map_of_remove_key)
  qed
  then show ?thesis using assms by (auto simp: lru_inv_def xs)
qed

lemma lru_Put_miss:
  assumes "lru_inv c" "m_index c k = None" "m_capacity c \<noteq> 0"
  shows "\<exists>c'. lru_Put c k v = Inr c' \<and> lru_inv c' \<and> m_capacity c' = m_capacity c \<and>
              lru_abs c' = take (m_capacity c) ((k, v) # lru_abs c)"
proof (cases "length (m_items c) < m_capacity c")
  case True
  then show ?thesis
    using lru_inv_cons [OF assms(1,2) True, of v] assms(2,3)
    by (auto simp: lru_Put_def lru_abs_def pairs_def Let_def take_Cons')
next
  case False
  note inv = lru_invD [OF assms(1)]
  let ?n = "\<lparr>node_id = m_next_node c, node_key = k, node_val = v\<rparr>"
  let ?xs = "?n # m_items c"
  have len: "length (m_items c) = m_capacity c" using False inv(5) by simp
  have "lru_inv ((c\<lparr>m_next_node := Suc (m_next_node c)\<rparr>)\<lparr>m_items := butlast ?xs,
          m_index := ((m_index c)(k \<mapsto> m_next_node c))(node_key (last ?xs) := None)\<rparr>)"
    using inv index_miss(2) [OF assms(1,2)] len
    by (intro lru_inv_evict) (fastforce simp: less_Suc_eq)+
  moreover have "pairs (butlast ?xs) = take (m_capacity c) ((k, v) # lru_abs c)"
    using assms(3) by (cases "m_capacity c")
      (auto simp: pairs_butlast butlast_conv_take lru_abs_def pairs_def len take_map simp del: butlast.simps)
  ultimately show ?thesis
    using assms(2,3) len by (auto simp: lru_Put_def lru_abs_def Let_def)
qed

lemma lru_Put_ok:
  assumes "lru_inv c"
  shows "\<exists>c'. lru_Put c k v = Inr c' \<and> lru_inv c' \<and> m_capacity c' = m_capacity c \<and>
              lru_abs c' = take (m_capacity c) ((k, v) # filter (\<lambda>p. fst p \<noteq> k) (lru_abs c))"
proof (cases "m_capacity c = 0")
  case True
  then have "m_items c = []" using lru_invD(5) [OF assms] by simp
  then show ?thesis using True assms by (simp add: lru_Put_def lru_abs_def pairs_def)
next
  case False
  show ?thesis
  proof (cases "m_index c k")
    case None
    have "filter (\<lambda>p. fst p \<noteq> k) (lru_abs c) = lru_abs c"
      using index_miss(2) [OF assms None] by (auto simp: lru_abs_def pairs_def filter_id_conv)
    then show ?thesis using lru_Put_miss [OF assms None False, of v] by simp
  next
    case (Some it)
    then obtain c' where c': "lru_Put c k v = Inr c'" "lru_inv c'" "m_capacity c' = m_capacity c"
      "lru_abs c' = (k, v) # filter (\<lambda>p. fst p \<noteq> k) (lru_abs c)"
      using lru_Put_hit [OF assms Some False, of v] by metis
    have "length (lru_abs c') \<le> m_capacity c"
      using lru_invD(5) [OF c'(2)] c'(3) by (simp add: lru_abs_def pairs_def)
    then show ?thesis using c' by (metis take_all)
  qed
qed

lemma lru_Delete_ok:
  assumes "lru_inv c"
  shows "\<exists>c'. lru_Delete c k = Inr c' \<and> lru_inv c' \<and> m_capacity c' = m_capacity c \<and>
              lru_abs c' = filter (\<lambda>p. fst p \<noteq> k) (lru_abs c)"
proof (cases "m_index c k")
  case None
  have "filter (\<lambda>p. fst p \<noteq> k) (lru_abs c) = lru_abs c"
    using index_miss(2) [OF assms None] by (auto simp: lru_abs_def pairs_def filter_id_conv)
  then show ?thesis using None assms by (simp add: lru_Delete_def)
next
  case (Some it)
  note inv = lru_invD [OF assms]
  obtain n where n: "list_deref it (m_items c) = Inr n"
    and same: "\<And>m. m \<in> set (m_items c) \<Longrightarrow> node_id m = it \<longleftrightarrow> node_key m = k"
    using index_hit [OF assms Some] by metis
  have er: "list_erase it (m_items c) = filter (\<lambda>m. node_key m \<noteq> k) (m_items c)"
    using same by (auto simp: list_erase_def intro: filter_cong)
  have "(m_index c)(k := None) =
        map_of (map (\<lambda>n. (node_key n, node_id n)) (filter (\<lambda>m. node_key m \<noteq> k) (m_items c)))"
    unfolding inv(4) by (rule map_of_remove_key)
  then have "lru_inv (c\<lparr>m_items := list_erase it (m_items c), m_index := (m_index c)(k := None)\<rparr>)"
    using inv by (auto simp: lru_inv_def er distinct_map_filter intro: le_trans [OF length_filter_le])
  then show ?thesis
    using Some n by (simp add: lru_Delete_def lru_abs_def er pairs_filter [of "\<lambda>x. x \<noteq> k"])
qed

lemma lru_Clear_ok:
  assumes "lru_inv c"
  shows "lru_inv (lru_Clear c)" "lru_abs (lru_Clear c) = []"
  by (auto simp: lru_inv_def lru_Clear_def lru_abs_def pairs_def)

lemma lru_Size_abs: "lru_Size c = length (lru_abs c)"
  by (simp add: lru_Size_def lru_abs_def pairs_def)

lemma lru_Size_bound: "lru_inv c \<Longrightarrow> lru_Size c \<le> m_capacity c"
  by (simp add: lru_Size_def lru_inv_def)

end
