(* ===== verification/Cached_Engine.thy ===== *)
theory Cached_Engine
  imports Kv_Engine Lru_Cache
begin

text \<open>
  \<open>CachedKVEngine\<close> of \<open>storage/include/cached_kv_engine.h\<close>: an engine that puts an LRU cache in
  front of another one.  It relies on nothing but the engine interface, so the lemmas are proved
  inside its locale: the cache never holds a value the base engine does not have, hence the
  cached engine promises what its base promises.  The metrics the code records on the way are
  not part of the state.
\<close>

record 's cached =
  m_base :: 's
  m_cache :: lru

definition cached_Get :: "'s kv_ops \<Rightarrow> 's cached \<Rightarrow> string \<Rightarrow> 's cached \<times> (exn + string option)" where
  "cached_Get E c key =
     (case lru_Get (m_cache c) key of
        Inl e \<Rightarrow> (c, Inl e)
      | Inr (cache, Some v) \<Rightarrow> (c\<lparr>m_cache := cache\<rparr>, Inr (Some v))
      | Inr (cache, None) \<Rightarrow>
          (case eGet E (m_base c) key of
             (b, Inl e) \<Rightarrow> (\<lparr>m_base = b, m_cache = cache\<rparr>, Inl e)
           | (b, Inr None) \<Rightarrow> (\<lparr>m_base = b, m_cache = cache\<rparr>, Inr None)
           | (b, Inr (Some v)) \<Rightarrow>
               (case lru_Put cache key v of
                  Inl e \<Rightarrow> (\<lparr>m_base = b, m_cache = cache\<rparr>, Inl e)
                | Inr cache' \<Rightarrow> (\<lparr>m_base = b, m_cache = cache'\<rparr>, Inr (Some v)))))"

definition cached_Put :: "'s kv_ops \<Rightarrow> 's cached \<Rightarrow> string \<Rightarrow> string \<Rightarrow> 's cached \<times> exn option" where
  "cached_Put E c key value =
     (case ePut E (m_base c) key value of
        (b, Some e) \<Rightarrow> (c\<lparr>m_base := b\<rparr>, Some e)
      | (b, None) \<Rightarrow>
          (case lru_Put (m_cache c) key value of
             Inl e \<Rightarrow> (c\<lparr>m_base := b\<rparr>, Some e)
           | Inr cache \<Rightarrow> (\<lparr>m_base = b, m_cache = cache\<rparr>, None)))"

definition cached_Delete :: "'s kv_ops \<Rightarrow> 's cached \<Rightarrow> string \<Rightarrow> 's cached \<times> exn option" where
  "cached_Delete E c key =
     (case eDelete E (m_base c) key of
        (b, Some e) \<Rightarrow> (c\<lparr>m_base := b\<rparr>, Some e)
      | (b, None) \<Rightarrow>
          (case lru_Delete (m_cache c) key of
             Inl e \<Rightarrow> (c\<lparr>m_base := b\<rparr>, Some e)
           | Inr cache \<Rightarrow> (\<lparr>m_base = b, m_cache = cache\<rparr>, None)))"

definition cached_Snapshot :: "'s kv_ops \<Rightarrow> 's cached \<Rightarrow> exn + string" where
  "cached_Snapshot E c = eSnapshot E (m_base c)"

definition cached_Restore :: "'s kv_ops \<Rightarrow> 's cached \<Rightarrow> string \<Rightarrow> 's cached \<times> exn option" where
  "cached_Restore E c snapshot =
     (case eRestore E (m_base c) snapshot of
        (b, Some e) \<Rightarrow> (c\<lparr>m_base := b\<rparr>, Some e)
      | (b, None) \<Rightarrow> (\<lparr>m_base = b, m_cache = lru_Clear (m_cache c)\<rparr>, None))"

definition cached_Size :: "'s kv_ops \<Rightarrow> 's cached \<Rightarrow> int" where
  "cached_Size E c = eSize E (m_base c)"

definition cached_ops :: "'s kv_ops \<Rightarrow> 's cached kv_ops" where
  "cached_ops E = \<lparr>eGet = cached_Get E, ePut = cached_Put E, eDelete = cached_Delete E,
                   eSnapshot = cached_Snapshot E, eRestore = cached_Restore E, eSize = cached_Size E\<rparr>"

definition cached_new :: "'s \<Rightarrow> nat \<Rightarrow> 's cached" where
  "cached_new base capacity = \<lparr>m_base = base, m_cache = lru_new capacity\<rparr>"

text \<open>Coherence: a cached value is the value of the base engine.\<close>

definition coherent :: "(string \<rightharpoonup> string) \<Rightarrow> lru \<Rightarrow> bool" where
  "coherent m c \<longleftrightarrow> lru_inv c \<and> lru_view c \<subseteq>\<^sub>m m"

definition cached_inv :: "('s \<Rightarrow> bool) \<Rightarrow> ('s \<Rightarrow> string \<rightharpoonup> string) \<Rightarrow> 's cached \<Rightarrow> bool" where
  "cached_inv ok view c \<longleftrightarrow> ok (m_base c) \<and> coherent (view (m_base c)) (m_cache c)"

definition cached_view :: "('s \<Rightarrow> string \<rightharpoonup> string) \<Rightarrow> 's cached \<Rightarrow> string \<rightharpoonup> string" where
  "cached_view view c = view (m_base c)"

lemma map_of_filter_neq: "map_of (filter (\<lambda>p. fst p \<noteq> k) ps) x = (if x = k then None else map_of ps x)"
  by (induction ps) auto

lemma map_of_filter_eq: "map_of (filter (\<lambda>p. fst p = k) ps) x = (if x = k then map_of ps x else None)"
  by (induction ps) auto

lemma map_of_take: "distinct (map fst ps) \<Longrightarrow> map_of (take n ps) \<subseteq>\<^sub>m map_of ps"
  unfolding map_le_def by (metis domD in_set_takeD map_of_SomeD map_of_is_SomeI)

lemma lru_abs_distinct: "lru_inv c \<Longrightarrow> distinct (map fst (lru_abs c))"
  by (simp add: lru_inv_def lru_abs_def pairs_def comp_def)

section \<open>The cache never disagrees with the base\<close>

lemma coherent_Get:
  assumes "coherent m c"
  shows "\<exists>c'. lru_Get c k = Inr (c', lru_view c k) \<and> coherent m c' \<and> lru_view c' = lru_view c"
proof -
  have ok: "lru_inv c" using assms by (simp add: coherent_def)
  obtain c' where c': "lru_Get c k = Inr (c', lru_view c k)" "lru_inv c'"
    "lru_abs c' = to_front k (lru_abs c)" using lru_Get_ok [OF ok] by metis
  have "lru_view c' = lru_view c"
    by (rule ext) (simp add: lru_view_def c'(3) to_front_def map_add_def map_of_filter_eq map_of_filter_neq
        split: option.split)
  then show ?thesis using c' assms by (simp add: coherent_def)
qed

lemma coherent_Put:
  assumes "coherent m c"
  shows "\<exists>c'. lru_Put c k v = Inr c' \<and> coherent (m(k \<mapsto> v)) c'"
proof -
  have ok: "lru_inv c" and le: "lru_view c \<subseteq>\<^sub>m m" using assms by (auto simp: coherent_def)
  let ?ps = "(k, v) # filter (\<lambda>p. fst p \<noteq> k) (lru_abs c)"
  obtain c' where c': "lru_Put c k v = Inr c'" "lru_inv c'" "lru_abs c' = take (m_capacity c) ?ps"
    using lru_Put_ok [OF ok] by metis
  have "distinct (map fst ?ps)"
    using lru_abs_distinct [OF ok] by (auto simp: distinct_map_filter)
  then have "lru_view c' \<subseteq>\<^sub>m map_of ?ps"
    by (simp only: lru_view_def c'(3) map_of_take)
  moreover have "map_of ?ps \<subseteq>\<^sub>m m(k \<mapsto> v)"
    using le by (auto simp: map_le_def lru_view_def map_of_filter_neq)
  ultimately have "lru_view c' \<subseteq>\<^sub>m m(k \<mapsto> v)" by (rule map_le_trans)
  then show ?thesis using c' by (simp add: coherent_def)
qed

lemma coherent_Delete:
  assumes "coherent m c"
  shows "\<exists>c'. lru_Delete c k = Inr c' \<and> coherent (m(k := None)) c'"
proof -
  have ok: "lru_inv c" and le: "lru_view c \<subseteq>\<^sub>m m" using assms by (auto simp: coherent_def)
  obtain c' where c': "lru_Delete c k = Inr c'" "lru_inv c'"
    "lru_abs c' = filter (\<lambda>p. fst p \<noteq> k) (lru_abs c)"
    using lru_Delete_ok [OF ok] by metis
  have "lru_view c' \<subseteq>\<^sub>m m(k := None)"
    using le by (auto simp: map_le_def lru_view_def c'(3) map_of_filter_neq split: if_splits)
  then show ?thesis using c' by (simp add: coherent_def)
qed

lemma coherent_Clear: "coherent m c \<Longrightarrow> coherent m' (lru_Clear c)"
  using lru_Clear_ok [of c] by (simp add: coherent_def lru_view_def)

lemma coherent_new: "coherent m (lru_new capacity)"
  by (simp add: coherent_def lru_view_def lru_abs_def pairs_def lru_new_def lru_inv_def)

section \<open>The cached engine over any engine\<close>

context kv_engine
begin

lemma cached_get:
  assumes "cached_inv ok view c"
  shows "\<exists>c'. cached_Get E c k = (c', Inr (view (m_base c) k)) \<and> cached_inv ok view c' \<and>
              view (m_base c') = view (m_base c)"
proof -
  have ok: "ok (m_base c)" and coh: "coherent (view (m_base c)) (m_cache c)"
    using assms by (auto simp: cached_inv_def)
  obtain q where q: "lru_Get (m_cache c) k = Inr (q, lru_view (m_cache c) k)"
    "coherent (view (m_base c)) q" using coherent_Get [OF coh] by blast
  obtain b where b: "eGet E (m_base c) k = (b, Inr (view (m_base c) k))" "ok b" "view b = view (m_base c)"
    using get_law [OF ok] by blast
  show ?thesis
  proof (cases "lru_view (m_cache c) k")
    case (Some v)
    then have "view (m_base c) k = Some v"
      using coh by (metis coherent_def domI map_le_def)
    then show ?thesis using q ok Some by (simp add: cached_Get_def cached_inv_def)
  next
    case None
    show ?thesis
    proof (cases "view (m_base c) k")
      case None
      then show ?thesis using q b \<open>lru_view (m_cache c) k = None\<close>
        by (simp add: cached_Get_def cached_inv_def)
    next
      case (Some v)
      obtain q' where q': "lru_Put q k v = Inr q'" "coherent ((view (m_base c))(k \<mapsto> v)) q'"
        using coherent_Put [OF q(2)] by blast
      have "(view (m_base c))(k \<mapsto> v) = view b" using b(3) Some by (simp add: fun_upd_idem)
      then show ?thesis using q q' b Some None by (simp add: cached_Get_def cached_inv_def)
    qed
  qed
qed

lemma cached_put:
  assumes "cached_inv ok view c" "cached_Put E c k v = (c', None)"
  shows "cached_inv ok view c' \<and> view (m_base c') = (view (m_base c))(k \<mapsto> v)"
proof -
  have ok: "ok (m_base c)" and coh: "coherent (view (m_base c)) (m_cache c)"
    using assms(1) by (auto simp: cached_inv_def)
  obtain q where q: "lru_Put (m_cache c) k v = Inr q" "coherent ((view (m_base c))(k \<mapsto> v)) q"
    using coherent_Put [OF coh] by blast
  obtain b where b: "ePut E (m_base c) k v = (b, None)" and c': "c' = \<lparr>m_base = b, m_cache = q\<rparr>"
    using assms(2) q(1) by (auto simp: cached_Put_def split: prod.splits option.splits)
  show ?thesis using put_law [OF ok b] q(2) by (auto simp: c' cached_inv_def)
qed

lemma cached_delete:
  assumes "cached_inv ok view c" "cached_Delete E c k = (c', None)"
  shows "cached_inv ok view c' \<and> view (m_base c') = (view (m_base c))(k := None)"
proof -
  have ok: "ok (m_base c)" and coh: "coherent (view (m_base c)) (m_cache c)"
    using assms(1) by (auto simp: cached_inv_def)
  obtain q where q: "lru_Delete (m_cache c) k = Inr q" "coherent ((view (m_base c))(k := None)) q"
    using coherent_Delete [OF coh] by blast
  obtain b where b: "eDelete E (m_base c) k = (b, None)" and c': "c' = \<lparr>m_base = b, m_cache = q\<rparr>"
    using assms(2) q(1) by (auto simp: cached_Delete_def split: prod.splits option.splits)
  show ?thesis using delete_law [OF ok b] q(2) by (auto simp: c' cached_inv_def)
qed

lemma cached_restore:
  assumes "cached_inv ok view s" "cached_inv ok view t" "fits (view (m_base s))"
    "cached_Snapshot E s = Inr data" "cached_Restore E t data = (t', None)"
  shows "cached_inv ok view t' \<and> view (m_base t') = view (m_base s)"
proof -
  obtain b where b: "eRestore E (m_base t) data = (b, None)"
    and t': "t' = \<lparr>m_base = b, m_cache = lru_Clear (m_cache t)\<rparr>"
    using assms(5) by (auto simp: cached_Restore_def split: prod.splits option.splits)
  have "eSnapshot E (m_base s) = Inr data" using assms(4) by (simp add: cached_Snapshot_def)
  then show ?thesis
    using t' assms(1,2) restore_law [OF _ _ assms(3) _ b] coherent_Clear [of _ "m_cache t"]
    by (auto simp: cached_inv_def)
qed

lemma cached_kv_engine: "kv_engine (cached_ops E) (cached_view view) (cached_inv ok view)"
proof
  fix s k
  assume "cached_inv ok view s"
  then show "\<exists>s'. eGet (cached_ops E) s k = (s', Inr (cached_view view s k)) \<and>
      cached_inv ok view s' \<and> cached_view view s' = cached_view view s"
    unfolding cached_ops_def cached_view_def kv_ops.simps by (rule cached_get)
next
  fix s k v s'
  assume "cached_inv ok view s" "ePut (cached_ops E) s k v = (s', None)"
  then show "cached_inv ok view s' \<and> cached_view view s' = (cached_view view s)(k \<mapsto> v)"
    unfolding cached_ops_def cached_view_def kv_ops.simps by (rule cached_put)
next
  fix s k s'
  assume "cached_inv ok view s" "eDelete (cached_ops E) s k = (s', None)"
  then show "cached_inv ok view s' \<and> cached_view view s' = (cached_view view s)(k := None)"
    unfolding cached_ops_def cached_view_def kv_ops.simps by (rule cached_delete)
next
  fix s
  assume "cached_inv ok view s"
  then show "\<exists>data. eSnapshot (cached_ops E) s = Inr data"
    using snapshot_law by (simp add: cached_ops_def cached_Snapshot_def cached_inv_def)
next
  fix s t data t'
  assume "cached_inv ok view s" "cached_inv ok view t" "fits (cached_view view s)"
    "eSnapshot (cached_ops E) s = Inr data" "eRestore (cached_ops E) t data = (t', None)"
  then show "cached_inv ok view t' \<and> cached_view view t' = cached_view view s"
    unfolding cached_ops_def cached_view_def kv_ops.simps by (rule cached_restore)
next
  fix s
  assume "cached_inv ok view s" "card (dom (cached_view view s)) < 2 ^ 31"
  then show "eSize (cached_ops E) s = int (card (dom (cached_view view s)))"
    using size_law by (simp add: cached_ops_def cached_view_def cached_Size_def cached_inv_def)
qed

end

context total_engine
begin

lemma cached_total_engine: "total_engine (cached_ops E) (cached_view view) (cached_inv ok view)"
proof (intro total_engine.intro total_engine_axioms.intro cached_kv_engine)
  fix c k v
  assume c: "cached_inv ok view c"
  then obtain b where "ePut E (m_base c) k v = (b, None)" using put_total [of "m_base c" k v] by (auto simp: cached_inv_def)
  moreover obtain q where "lru_Put (m_cache c) k v = Inr q" using c coherent_Put [of "view (m_base c)" "m_cache c" k v] by (auto simp: cached_inv_def)
  ultimately show "\<exists>c'. ePut (cached_ops E) c k v = (c', None)" by (simp add: cached_ops_def cached_Put_def)
next
  fix c k
  assume c: "cached_inv ok view c"
  then obtain b where "eDelete E (m_base c) k = (b, None)" using delete_total [of "m_base c" k] by (auto simp: cached_inv_def)
  moreover obtain q where "lru_Delete (m_cache c) k = Inr q" using c coherent_Delete [of "view (m_base c)" "m_cache c" k] by (auto simp: cached_inv_def)
  ultimately show "\<exists>c'. eDelete (cached_ops E) c k = (c', None)" by (simp add: cached_ops_def cached_Delete_def)
next
  fix s t data
  assume "cached_inv ok view s" "cached_inv ok view t" "eSnapshot (cached_ops E) s = Inr data"
  then obtain b where "eRestore E (m_base t) data = (b, None)"
    using restore_total [of "m_base s" "m_base t" data] by (auto simp: cached_inv_def cached_ops_def cached_Snapshot_def)
  then show "\<exists>t'. eRestore (cached_ops E) t data = (t', None)" by (simp add: cached_ops_def cached_Restore_def)
qed

end

end
