(* ===== verification/Skiplist_Engine.thy ===== *)
theory Skiplist_Engine
  imports Skip_List_Proofs Cached_Engine
begin

text \<open>
  \<open>SkipListEngine\<close> of \<open>storage/include/skiplist_engine.h\<close>: the skip list behind the engine
  interface.  The lemmas say that every operation, run on a well-formed list, keeps it well-formed and
  does to its pairs what the interface promises; the interpretations make it an engine, alone and
  behind the cache, which is what the server runs when the log-structured engine is disabled.
\<close>

section \<open>The engine\<close>

definition SkipListEngine_new :: "nat \<Rightarrow> skiplist" where
  "SkipListEngine_new maxLevel = SkipList_new maxLevel"

definition skiplist_Get :: "skiplist \<Rightarrow> string \<Rightarrow> exn + string option" where
  "skiplist_Get s k = search_element s k"

definition skiplist_Put :: "sl_env \<Rightarrow> skiplist \<Rightarrow> string \<Rightarrow> string \<Rightarrow> skiplist proc" where
  "skiplist_Put env s k v = (case insert_set_element env s k v of Inl e \<Rightarrow> (s, Some e) | Inr s' \<Rightarrow> (s', None))"

definition skiplist_Delete :: "skiplist \<Rightarrow> string \<Rightarrow> skiplist proc" where
  "skiplist_Delete s k = (case delete_element s k of Inl e \<Rightarrow> (s, Some e) | Inr s' \<Rightarrow> (s', None))"

definition skiplist_Snapshot :: "sl_env \<Rightarrow> skiplist \<Rightarrow> exn + string" where
  "skiplist_Snapshot env s = dump_file env s"

definition skiplist_Restore :: "sl_env \<Rightarrow> skiplist \<Rightarrow> string \<Rightarrow> skiplist proc" where
  "skiplist_Restore env s snapshot = (case load_file env s snapshot of Inl e \<Rightarrow> (s, Some e) | Inr s' \<Rightarrow> (s', None))"

definition skiplist_Size :: "skiplist \<Rightarrow> int" where
  "skiplist_Size s = sl_size s"

definition skiplist_ops :: "sl_env \<Rightarrow> skiplist kv_ops" where
  "skiplist_ops env = \<lparr>eGet = (\<lambda>s k. (s, skiplist_Get s k)), ePut = skiplist_Put env, eDelete = skiplist_Delete,
     eSnapshot = skiplist_Snapshot env, eRestore = skiplist_Restore env, eSize = skiplist_Size\<rparr>"

section \<open>Contents\<close>

text \<open>What the chain on level 0 holds.\<close>

definition sl_pairs :: "skiplist \<Rightarrow> (string \<times> string) list" where
  "sl_pairs s = (case bindE (fwd (heap s) (header s) 0) (collect (heap s) (allocated s)) of
     Inl e \<Rightarrow> [] | Inr (ks, vs) \<Rightarrow> zip ks vs)"

definition sl_view :: "skiplist \<Rightarrow> string \<rightharpoonup> string" where
  "sl_view s = map_of (sl_pairs s)"

definition sl_good :: "skiplist \<Rightarrow> bool" where
  "sl_good s \<longleftrightarrow> (\<exists>xs. sl_rep s xs)"

lemma sl_goodI: "sl_rep s xs \<Longrightarrow> sl_good s"
  by (auto simp: sl_good_def)

lemma collect_ok:
  "linked h 0 a ys \<Longrightarrow> \<forall>b \<in> set ys. h b \<noteq> None \<Longrightarrow> length ys \<le> fuel \<Longrightarrow>
   bindE (fwd h a 0) (collect h fuel) = Inr (map (nkey h) ys, map (nval h) ys)"
proof (induction ys arbitrary: a fuel)
  case (Cons b ys)
  then obtain f where f: "fuel = Suc f" "length ys \<le> f" by (cases fuel) auto
  obtain n where n: "h b = Some n" using Cons.prems(2) by auto
  have "bindE (fwd h b 0) (collect h f) = Inr (map (nkey h) ys, map (nval h) ys)"
    using Cons.IH [of b f] Cons.prems f(2) by simp
  then show ?case using Cons.prems(1) n f(1)
    by (auto simp: deref_def nkey_def nval_def bindE_Inr_iff)
qed simp

lemma sl_collect:
  assumes "sl_rep s xs"
  shows "bindE (fwd (heap s) (header s) 0) (collect (heap s) (allocated s)) =
    Inr (map (nkey (heap s)) xs, map (nval (heap s)) xs)"
proof -
  note sh = sl_repD(1) [OF assms]
  have "linked (heap s) 0 (header s) xs" using sl_shapeD(6) [OF sh, of 0] by simp
  moreover have "\<forall>b \<in> set xs. heap s b \<noteq> None" using sl_shapeD(4) [OF sh] by auto
  ultimately show ?thesis using collect_ok length_less_alloc [OF sh] by simp
qed

lemma sl_pairs_eq: "sl_rep s xs \<Longrightarrow> sl_pairs s = pairs_of (heap s) xs"
  by (simp add: sl_pairs_def sl_collect pairs_of_def zip_map_map zip_same_conv_map)

lemma sl_view_eq: "sl_rep s xs \<Longrightarrow> sl_view s = map_of (pairs_of (heap s) xs)"
  by (simp add: sl_view_def sl_pairs_eq)

lemma dom_pairs_of: "dom (map_of (pairs_of h xs)) = nkey h ` set xs"
  by (simp add: dom_map_of_conv_image_fst pairs_of_def image_image)

lemma sl_pairs_sorted: "sl_good s \<Longrightarrow> sorted_wrt (<) (map fst (sl_pairs s))"
  using sl_shapeD(5) [OF sl_repD(1)] by (auto simp: sl_good_def sl_pairs_eq pairs_of_def comp_def)

lemma sl_size_eq:
  assumes "sl_good s"
  shows "sl_size s = int (card (dom (sl_view s)))"
proof -
  obtain xs where rep: "sl_rep s xs" using assms by (auto simp: sl_good_def)
  have "distinct (map (nkey (heap s)) xs)" using sl_shapeD(5) [OF sl_repD(1) [OF rep]] by (simp add: strict_sorted_iff)
  then have "card (nkey (heap s) ` set xs) = length xs" using distinct_card by force
  then show ?thesis using sl_repD(4) [OF rep] by (simp add: sl_size_def sl_view_eq [OF rep] dom_pairs_of)
qed

section \<open>The operations on the contents\<close>

lemma search_view: "sl_good s \<Longrightarrow> search_element s k = Inr (sl_view s k)"
  by (auto simp: sl_good_def search_element_ok sl_view_eq)

lemma map_of_split_pairs:
  assumes "sl_shape h M hdr n xs"
  shows "map_of (pairs_of h (below h k 0 xs) @ ps @ pairs_of h (above h k 0 xs)) =
    map_of (pairs_of h xs) ++ map_of ps \<or> dom (map_of ps) \<inter> nkey h ` set xs \<noteq> {}"
proof (cases "dom (map_of ps) \<inter> nkey h ` set xs = {}")
  case True
  let ?b = "pairs_of h (below h k 0 xs)" and ?a = "pairs_of h (above h k 0 xs)"
  have all: "map_of (pairs_of h xs) = map_of ?a ++ map_of ?b"
    using split0 [OF assms, of k] by (metis map_append map_of_append pairs_of_def)
  have "dom (map_of ?b) \<inter> dom (map_of ps) = {}" using True by (auto simp: dom_pairs_of below_def)
  then have "map_of ps ++ map_of ?b = map_of ?b ++ map_of ps" by (simp add: map_add_comm)
  then have "map_of (?b @ ps @ ?a) = map_of (pairs_of h xs) ++ map_of ps"
    unfolding all by (metis map_add_assoc map_of_append)
  then show ?thesis by blast
qed simp

lemma insert_good:
  assumes "sl_good s" "insert_element_locked env s k v = Inr (s', r)"
  shows "sl_good s' \<and> sl_view s' = (if sl_view s k = None then (sl_view s)(k \<mapsto> v) else sl_view s)"
proof -
  obtain xs where rep: "sl_rep s xs" using assms(1) by (auto simp: sl_good_def)
  note sh = sl_repD(1) [OF rep]
  have dom: "k \<in> nkey (heap s) ` set xs \<longleftrightarrow> sl_view s k \<noteq> None"
    by (metis domIff dom_pairs_of sl_view_eq [OF rep])
  show ?thesis
  proof (cases "k \<in> nkey (heap s) ` set xs")
    case True
    then show ?thesis using assms insert_present [OF rep True, of env v] dom by auto
  next
    case False
    obtain r1 s1 where rl: "get_random_level env s = Inr (r1, s1)"
      using assms(2) False
      by (cases "get_random_level env s") (simp_all add: insert_element_locked_def find_update_ok [OF rep] present_iff [OF rep], force)
    let ?ys = "below (heap s) k 0 xs @ allocated s # above (heap s) k 0 xs"
    have s': "sl_rep s' ?ys" "pairs_of (heap s') ?ys =
        pairs_of (heap s) (below (heap s) k 0 xs) @ [(k, v)] @ pairs_of (heap s) (above (heap s) k 0 xs)"
      using insert_absent [OF rep False rl, of v] assms(2) by auto
    have "map_of (pairs_of (heap s') ?ys) = (sl_view s)(k \<mapsto> v)"
      unfolding s'(2) using map_of_split_pairs [OF sh, of k "[(k, v)]"] False sl_view_eq [OF rep] by simp
    then show ?thesis using sl_view_eq [OF s'(1)] sl_goodI [OF s'(1)] False dom by simp
  qed
qed

lemma insert_total:
  assumes "sl_good s" "rand_ok env"
  shows "\<exists>s' r. insert_element_locked env s k v = Inr (s', r)"
proof -
  obtain xs where rep: "sl_rep s xs" using assms(1) by (auto simp: sl_good_def)
  show ?thesis
    using insert_present [OF rep] insert_absent [OF rep] get_random_level_ok [OF assms(2), of s] by metis
qed

lemma map_of_remove:
  "map_of (A @ B) k = None \<Longrightarrow> map_of (A @ B) = (map_of (A @ (k, v) # B))(k := None)"
  by (induction A) (auto simp: fun_eq_iff)

lemma delete_good:
  assumes "sl_good s"
  shows "\<exists>s'. delete_element_locked s k = Inr (s', sl_view s k \<noteq> None) \<and> sl_good s' \<and> sl_view s' = (sl_view s)(k := None)"
proof -
  obtain xs where rep: "sl_rep s xs" using assms by (auto simp: sl_good_def)
  note sh = sl_repD(1) [OF rep]
  have dom: "k \<in> nkey (heap s) ` set xs \<longleftrightarrow> sl_view s k \<noteq> None"
    by (metis domIff dom_pairs_of sl_view_eq [OF rep])
  show ?thesis
  proof (cases "k \<in> nkey (heap s) ` set xs")
    case True
    obtain s' z hi where s': "delete_element_locked s k = Inr (s', True)" "above (heap s) k 0 xs = z # hi"
      "nkey (heap s) z = k" "sl_rep s' (below (heap s) k 0 xs @ hi)"
      "pairs_of (heap s') (below (heap s) k 0 xs @ hi) = pairs_of (heap s) (below (heap s) k 0 xs @ hi)"
      using delete_present [OF rep True] by blast
    have xs: "xs = below (heap s) k 0 xs @ z # hi" using split0 [OF sh, of k] s'(2) by simp
    have d: "distinct (map (nkey (heap s)) (below (heap s) k 0 xs @ z # hi))"
      using sl_shapeD(5) [OF sh] xs by (metis strict_sorted_iff)
    let ?A = "pairs_of (heap s) (below (heap s) k 0 xs)" and ?B = "pairs_of (heap s) hi"
    have old: "sl_view s = map_of (?A @ (k, nval (heap s) z) # ?B)"
      using arg_cong [OF xs, of "\<lambda>l. map_of (pairs_of (heap s) l)"] s'(3) unfolding sl_view_eq [OF rep]
      by (simp add: pairs_of_def)
    have new: "sl_view s' = map_of (?A @ ?B)" unfolding sl_view_eq [OF s'(4)] s'(5) by (simp add: pairs_of_def)
    have "map_of (?A @ ?B) k = None"
      using d s'(3) by (simp add: pairs_of_def map_of_eq_None_iff image_Un image_image)
    then have "sl_view s' = (sl_view s)(k := None)"
      unfolding old new by (intro map_of_remove)
    then show ?thesis using s'(1) sl_goodI [OF s'(4)] True dom by auto
  next
    case False
    then have "map_of (pairs_of (heap s) xs) k = None" using dom sl_view_eq [OF rep] by simp
    moreover have "delete_element_locked s k = Inr (s, False)"
    proof -
      have "bindE (case first (above (heap s) k 0 xs) of None \<Rightarrow> Inr False
        | Some a \<Rightarrow> bindE (deref (heap s) a) (\<lambda>n. Inr (key n = k))) Inr = Inr False"
        unfolding present_iff [OF rep] using False by simp
      then show ?thesis
        by (auto simp: delete_element_locked_def find_update_ok [OF rep] bindE_Inr_iff split: option.splits)
    qed
    ultimately show ?thesis using assms False dom sl_view_eq [OF rep] by (auto simp: fun_upd_idem)
  qed
qed

lemma insert_set_good:
  assumes "sl_good s" "insert_set_element env s k v = Inr s'"
  shows "sl_good s' \<and> sl_view s' = (sl_view s)(k \<mapsto> v)"
proof -
  obtain s1 where s1: "delete_element_locked s k = Inr (s1, sl_view s k \<noteq> None)" "sl_good s1" "sl_view s1 = (sl_view s)(k := None)"
    using delete_good [OF assms(1), of k] by blast
  obtain r where "insert_element_locked env s1 k v = Inr (s', r)"
    using assms(2) s1(1) by (auto simp: insert_set_element_def bindE_Inr_iff)
  then show ?thesis using insert_good [OF s1(2)] s1(3) by auto
qed

lemma insert_set_total:
  assumes "sl_good s" "rand_ok env"
  shows "\<exists>s'. insert_set_element env s k v = Inr s'"
proof -
  obtain s1 where s1: "delete_element_locked s k = Inr (s1, sl_view s k \<noteq> None)" "sl_good s1"
    using delete_good [OF assms(1), of k] by blast
  obtain s2 r where "insert_element_locked env s1 k v = Inr (s2, r)" using insert_total [OF s1(2) assms(2)] by blast
  then show ?thesis using s1(1) by (simp add: insert_set_element_def)
qed

lemma delete_element_good:
  "sl_good s \<Longrightarrow> \<exists>s'. delete_element s k = Inr s' \<and> sl_good s' \<and> sl_view s' = (sl_view s)(k := None)"
  using delete_good [of s k] by (auto simp: delete_element_def)

lemma new_good: "sl_good (SkipListEngine_new m)" "sl_view (SkipListEngine_new m) = Map.empty"
proof -
  have rep: "sl_rep (SkipListEngine_new m) []"
    by (auto simp: SkipListEngine_new_def SkipList_new_def sl_rep_def sl_shape_def new_node_def fwd_Some simp del: replicate_Suc)
  show "sl_good (SkipListEngine_new m)" using sl_goodI [OF rep] .
  show "sl_view (SkipListEngine_new m) = Map.empty" by (simp add: sl_view_eq [OF rep] pairs_of_def)
qed

section \<open>Snapshots\<close>

lemma clear_chain_ok:
  "linked h 0 a ys \<Longrightarrow> length ys < fuel \<Longrightarrow>
   clear_chain fuel a h = Inr (\<lambda>b. if b \<in> set (a # ys) then None else h b)"
proof (induction ys arbitrary: a fuel)
  case Nil
  then show ?case by (cases fuel) auto
next
  case (Cons b ys)
  then obtain f where f: "fuel = Suc f" "length ys < f" by (cases fuel) auto
  have "clear_chain f b h = Inr (\<lambda>c. if c \<in> set (b # ys) then None else h c)"
    using Cons.IH [of b f] Cons.prems f(2) by simp
  then show ?case using Cons.prems(1) f(1) by (auto simp: fun_eq_iff)
qed

lemma reset_forward_ok:
  "h hdr = Some d \<Longrightarrow> length (forward d) = Suc M \<Longrightarrow> \<forall>i \<in> set is. i \<le> M \<Longrightarrow>
   \<exists>h' d'. reset_forward hdr is h = Inr h' \<and> h' hdr = Some d' \<and> length (forward d') = Suc M \<and>
     (\<forall>i \<in> set is. fwd h' hdr i = Inr None) \<and> (\<forall>i. fwd h hdr i = Inr None \<longrightarrow> fwd h' hdr i = Inr None)"
proof (induction "is" arbitrary: h d)
  case (Cons i "is")
  have "fwd h hdr i = Inr (forward d ! i)" using Cons.prems by (simp add: fwd_Some)
  from set_fwd_ok [OF this, of None] obtain h1 where h1: "set_fwd h hdr i None = Inr h1" "same_nodes h h1"
    "\<forall>b j. fwd h1 b j = (if b = hdr \<and> j = i then Inr None else fwd h b j)" by blast
  obtain d1 where d1: "h1 hdr = Some d1" "length (forward d1) = Suc M"
    using same_nodesD [OF h1(2) Cons.prems(1)] Cons.prems(2) by (auto simp: static_def)
  have "\<forall>i \<in> set is. i \<le> M" using Cons.prems(3) by simp
  from Cons.IH [of h1 d1, OF d1 this] obtain h' d' where h': "reset_forward hdr is h1 = Inr h'" "h' hdr = Some d'"
    "length (forward d') = Suc M" "\<forall>i \<in> set is. fwd h' hdr i = Inr None"
    "\<forall>i. fwd h1 hdr i = Inr None \<longrightarrow> fwd h' hdr i = Inr None" by blast
  moreover have "fwd h' hdr i = Inr None" "\<forall>i. fwd h hdr i = Inr None \<longrightarrow> fwd h' hdr i = Inr None"
    using h1(3) h'(5) by auto
  ultimately show ?case using h1(1) by auto
qed auto

text \<open>What \<open>load_file\<close> leaves before it inserts the pairs: the empty list.\<close>

lemma cleared_good:
  assumes "sl_good s"
  shows "\<exists>h1 h2. bindE (fwd (heap s) (header s) 0) (\<lambda>first.
      case first of None \<Rightarrow> Inr (heap s) | Some a \<Rightarrow> clear_chain (allocated s) a (heap s)) = Inr h1 \<and>
    reset_forward (header s) [0..<max_level s + 1] h1 = Inr h2 \<and>
    sl_rep (s\<lparr>heap := h2, skip_list_level := 0, element_count := 0\<rparr>) []"
proof -
  let ?h = "heap s" and ?hdr = "header s"
  obtain xs where rep: "sl_rep s xs" using assms by (auto simp: sl_good_def)
  note sh = sl_repD(1) [OF rep]
  have ln: "linked ?h 0 ?hdr xs" using sl_shapeD(6) [OF sh, of 0] by simp
  obtain d where d: "?h ?hdr = Some d" "length (forward d) = Suc (max_level s)" using sl_shapeD(1) [OF sh] by blast
  have "\<exists>h1. bindE (fwd ?h ?hdr 0) (\<lambda>first.
      case first of None \<Rightarrow> Inr ?h | Some a \<Rightarrow> clear_chain (allocated s) a ?h) = Inr h1 \<and> h1 ?hdr = Some d"
  proof (cases xs)
    case (Cons a ys)
    then have "clear_chain (allocated s) a ?h = Inr (\<lambda>b. if b \<in> set (a # ys) then None else ?h b)"
      using ln length_less_alloc [OF sh] by (intro clear_chain_ok) auto
    then show ?thesis using ln d(1) Cons sl_shapeD(2) [OF sh] by simp
  qed (use ln d in simp)
  then obtain h1 where h1: "bindE (fwd ?h ?hdr 0) (\<lambda>first.
      case first of None \<Rightarrow> Inr ?h | Some a \<Rightarrow> clear_chain (allocated s) a ?h) = Inr h1" "h1 ?hdr = Some d" by blast
  obtain h2 d2 where h2: "reset_forward ?hdr [0..<max_level s + 1] h1 = Inr h2" "h2 ?hdr = Some d2"
    "length (forward d2) = Suc (max_level s)" "\<forall>i \<in> set [0..<max_level s + 1]. fwd h2 ?hdr i = Inr None"
    using reset_forward_ok [of h1 ?hdr d "max_level s" "[0..<max_level s + 1]"] h1(2) d(2) by auto
  have "sl_rep (s\<lparr>heap := h2, skip_list_level := 0, element_count := 0\<rparr>) []"
    using h2 sl_shapeD(3) [OF sh] by (auto simp: sl_rep_def sl_shape_def)
  then show ?thesis using h1(1) h2(1) by blast
qed

lemma load_pairs_good:
  "load_pairs env ks vs s = Inr s' \<Longrightarrow> sl_good s \<Longrightarrow>
   sl_good s' \<and> sl_view s' = map_of (zip ks vs) ++ sl_view s"
proof (induction env ks vs s rule: load_pairs.induct)
  case (3 env k ks v vs s)
  obtain s1 r where s1: "insert_element_locked env s k v = Inr (s1, r)" "load_pairs env ks vs s1 = Inr s'"
    using "3.prems"(1) by (auto simp: bindE_Inr_iff)
  have good: "sl_good s1" "sl_view s1 = (if sl_view s k = None then (sl_view s)(k \<mapsto> v) else sl_view s)"
    using insert_good [OF "3.prems"(2) s1(1)] by auto
  have "sl_good s' \<and> sl_view s' = map_of (zip ks vs) ++ sl_view s1"
    using "3.IH" [OF _ _ s1(2) good(1)] s1(1) by simp
  then show ?case using good(2) by (auto simp: fun_eq_iff map_add_def split: option.split)
qed auto

lemma load_pairs_total:
  "length ks = length vs \<Longrightarrow> sl_good s \<Longrightarrow> rand_ok env \<Longrightarrow> \<exists>s'. load_pairs env ks vs s = Inr s'"
proof (induction env ks vs s rule: load_pairs.induct)
  case (3 env k ks v vs s)
  obtain s1 r where s1: "insert_element_locked env s k v = Inr (s1, r)"
    using insert_total [OF "3.prems"(2,3)] by blast
  then show ?case using "3.IH" [of "(s1, r)" s1 r] insert_good [OF "3.prems"(2) s1] "3.prems" by simp
qed auto

text \<open>What boost promises: reading an archive gives back what was written, and an archive is not empty.\<close>

definition dump_ok :: "sl_env \<Rightarrow> bool" where
  "dump_ok env \<longleftrightarrow> (\<forall>x. dump_oarchive env x \<noteq> [] \<and> dump_iarchive env (dump_oarchive env x) = Inr x)"

lemma dump_good:
  "sl_good s \<Longrightarrow> dump_file env s = Inr (dump_oarchive env (map fst (sl_pairs s), map snd (sl_pairs s)))"
proof -
  assume "sl_good s"
  then obtain xs where rep: "sl_rep s xs" by (auto simp: sl_good_def)
  show ?thesis using sl_collect [OF rep]
    by (auto simp: dump_file_def sl_pairs_eq [OF rep] pairs_of_def comp_def bindE_Inr_iff)
qed

lemma load_run:
  assumes "sl_good t" "dump_iarchive env data = Inr (ks, vs)" "data \<noteq> []"
  shows "\<exists>t0. sl_good t0 \<and> sl_view t0 = Map.empty \<and> load_file env t data = load_pairs env ks vs t0"
proof -
  obtain h1 h2 where h: "bindE (fwd (heap t) (header t) 0) (\<lambda>first.
      case first of None \<Rightarrow> Inr (heap t) | Some a \<Rightarrow> clear_chain (allocated t) a (heap t)) = Inr h1"
    "reset_forward (header t) [0..<max_level t + 1] h1 = Inr h2"
    "sl_rep (t\<lparr>heap := h2, skip_list_level := 0, element_count := 0\<rparr>) []"
    using cleared_good [OF assms(1)] by blast
  have "load_file env t data = load_pairs env ks vs (t\<lparr>heap := h2, skip_list_level := 0, element_count := 0\<rparr>)"
    using h(1,2) assms(2,3) by (auto simp: load_file_def bindE_Inr_iff simp del: upt_Suc)
  then show ?thesis using sl_goodI [OF h(3)] sl_view_eq [OF h(3)] by (auto simp: pairs_of_def)
qed

lemma load_dump_good:
  assumes "sl_good s" "sl_good t" "dump_ok env" "dump_file env s = Inr data" "load_file env t data = Inr t'"
  shows "sl_good t' \<and> sl_view t' = sl_view s"
proof -
  have data: "data = dump_oarchive env (map fst (sl_pairs s), map snd (sl_pairs s))"
    using assms(4) dump_good [OF assms(1)] by simp
  obtain t0 where t0: "sl_good t0" "sl_view t0 = Map.empty"
    "load_file env t data = load_pairs env (map fst (sl_pairs s)) (map snd (sl_pairs s)) t0"
    using load_run [OF assms(2)] assms(3) by (metis data dump_ok_def)
  then show ?thesis
    using load_pairs_good [of env _ _ t0 t'] assms(5) by (simp add: sl_view_def zip_map_fst_snd)
qed

lemma load_dump_total:
  assumes "sl_good s" "sl_good t" "dump_ok env" "rand_ok env" "dump_file env s = Inr data"
  shows "\<exists>t'. load_file env t data = Inr t'"
proof -
  have data: "data = dump_oarchive env (map fst (sl_pairs s), map snd (sl_pairs s))"
    using assms(5) dump_good [OF assms(1)] by simp
  obtain t0 where t0: "sl_good t0"
    "load_file env t data = load_pairs env (map fst (sl_pairs s)) (map snd (sl_pairs s)) t0"
    using load_run [OF assms(2)] assms(3) by (metis data dump_ok_def)
  then show ?thesis using load_pairs_total [OF _ t0(1) assms(4)] by simp
qed

section \<open>The skip list is an engine\<close>

text \<open>
  What the engine needs beside a well-formed list: archives that can be read back, and a random source
  that returns an even number again and again.  Then it is an engine that never throws.
\<close>

definition skiplist_ok :: "sl_env \<Rightarrow> skiplist \<Rightarrow> bool" where
  "skiplist_ok env s \<longleftrightarrow> sl_good s \<and> dump_ok env \<and> rand_ok env"

interpretation skiplist: total_engine "skiplist_ops env" sl_view "skiplist_ok env" for env
proof
  fix s k
  assume "skiplist_ok env s"
  then show "\<exists>s'. eGet (skiplist_ops env) s k = (s', Inr (sl_view s k)) \<and> skiplist_ok env s' \<and> sl_view s' = sl_view s"
    by (simp add: skiplist_ops_def skiplist_Get_def skiplist_ok_def search_view)
next
  fix s k v s'
  assume "skiplist_ok env s" "ePut (skiplist_ops env) s k v = (s', None)"
  then show "skiplist_ok env s' \<and> sl_view s' = (sl_view s)(k \<mapsto> v)"
    using insert_set_good [of s env k v s'] by (simp add: skiplist_ops_def skiplist_Put_def skiplist_ok_def split: sum.splits)
next
  fix s k s'
  assume "skiplist_ok env s" "eDelete (skiplist_ops env) s k = (s', None)"
  then show "skiplist_ok env s' \<and> sl_view s' = (sl_view s)(k := None)"
    using delete_element_good [of s k] by (auto simp: skiplist_ops_def skiplist_Delete_def skiplist_ok_def split: sum.splits)
next
  fix s
  assume "skiplist_ok env s"
  then show "\<exists>data. eSnapshot (skiplist_ops env) s = Inr data"
    by (simp add: skiplist_ops_def skiplist_Snapshot_def skiplist_ok_def dump_good)
next
  fix s t data t'
  assume "skiplist_ok env s" "skiplist_ok env t" "eSnapshot (skiplist_ops env) s = Inr data"
    "eRestore (skiplist_ops env) t data = (t', None)"
  then show "skiplist_ok env t' \<and> sl_view t' = sl_view s"
    using load_dump_good [of s t env data t']
    by (simp add: skiplist_ops_def skiplist_Snapshot_def skiplist_Restore_def skiplist_ok_def split: sum.splits)
next
  fix s
  assume "skiplist_ok env s"
  then show "eSize (skiplist_ops env) s = int (card (dom (sl_view s)))"
    by (simp add: skiplist_ops_def skiplist_Size_def skiplist_ok_def sl_size_eq)
next
  fix s k v
  assume "skiplist_ok env s"
  then show "\<exists>s'. ePut (skiplist_ops env) s k v = (s', None)"
    using insert_set_total [of s env k v] by (auto simp: skiplist_ops_def skiplist_Put_def skiplist_ok_def)
next
  fix s k
  assume "skiplist_ok env s"
  then show "\<exists>s'. eDelete (skiplist_ops env) s k = (s', None)"
    using delete_element_good [of s k] by (auto simp: skiplist_ops_def skiplist_Delete_def skiplist_ok_def)
next
  fix s t data
  assume "skiplist_ok env s" "skiplist_ok env t" "eSnapshot (skiplist_ops env) s = Inr data"
  then show "\<exists>t'. eRestore (skiplist_ops env) t data = (t', None)"
    using load_dump_total [of s t env data]
    by (auto simp: skiplist_ops_def skiplist_Snapshot_def skiplist_Restore_def skiplist_ok_def)
qed

text \<open>The engine the server is built with by default: the skip list of six levels behind the cache.\<close>

definition default_ops :: "sl_env \<Rightarrow> skiplist cached kv_ops" where
  "default_ops env = cached_ops (skiplist_ops env)"

definition default_view :: "skiplist cached \<Rightarrow> string \<rightharpoonup> string" where
  "default_view = cached_view sl_view"

definition default_ok :: "sl_env \<Rightarrow> skiplist cached \<Rightarrow> bool" where
  "default_ok env = cached_inv (skiplist_ok env) sl_view"

interpretation default_engine: total_engine "default_ops env" default_view "default_ok env" for env
  unfolding default_ops_def default_view_def default_ok_def by (rule skiplist.cached_total_engine)

definition CreateDefaultKVEngine :: "skiplist cached" where
  "CreateDefaultKVEngine = cached_new (SkipListEngine_new 6) 1024"

lemma default_new:
  "dump_ok env \<Longrightarrow> rand_ok env \<Longrightarrow> default_ok env CreateDefaultKVEngine"
  "default_view CreateDefaultKVEngine = Map.empty"
  by (simp_all add: default_ok_def default_view_def CreateDefaultKVEngine_def cached_inv_def cached_view_def cached_new_def
      skiplist_ok_def new_good coherent_new)

end
