(* ===== verification/Kv_Apply.thy ===== *)
theory Kv_Apply
  imports Kv_Server Skiplist_Engine
begin

text \<open>
  What the KV server promises: a deterministic state machine with exactly-once requests.  The
  specification \<open>kv_exec\<close> works on three maps; the lemmas, inside the engine interface, say that applying
  a message refines it, that reads answer from it, and that a snapshot carries it whole.
\<close>

section \<open>The abstract state machine\<close>

record kv_state =
  kv_map :: "string \<rightharpoonup> string"
  kv_expire :: "string \<rightharpoonup> 64 word"
  kv_done :: "string \<rightharpoonup> int"

definition kv_expired :: "64 word \<Rightarrow> kv_state \<Rightarrow> string \<Rightarrow> bool" where
  "kv_expired now a k = (case kv_expire a k of None \<Rightarrow> False | Some t \<Rightarrow> now > t)"

text \<open>What a reader sees at a time.\<close>

definition kv_read :: "64 word \<Rightarrow> kv_state \<Rightarrow> string \<Rightarrow> string option" where
  "kv_read now a k = (if kv_expired now a k then None else kv_map a k)"

definition kv_seen :: "kv_state \<Rightarrow> Op \<Rightarrow> bool" where
  "kv_seen a op = (case kv_done a (ClientId op) of None \<Rightarrow> False | Some n \<Rightarrow> RequestId op \<le> n)"

definition kv_write :: "Op \<Rightarrow> string \<Rightarrow> kv_state \<Rightarrow> kv_state" where
  "kv_write op v a = \<lparr>kv_map = (kv_map a)(Key op \<mapsto> v),
     kv_expire = (kv_expire a)(Key op := (if sint (ExpireAtMs op) > 0 then Some (ExpireAtMs op) else None)),
     kv_done = (kv_done a)(ClientId op \<mapsto> RequestId op)\<rparr>"

definition kv_exec :: "64 word \<Rightarrow> Op \<Rightarrow> kv_state \<Rightarrow> kv_state" where
  "kv_exec now op a =
     (if kv_seen a op then a
      else if Operation op = ''Put'' then kv_write op (Value op) a
      else if Operation op = ''Append''
      then kv_write op (case kv_read now a (Key op) of None \<Rightarrow> Value op | Some old \<Rightarrow> old @ Value op) a
      else a)"

definition kv_abs :: "('s \<Rightarrow> string \<rightharpoonup> string) \<Rightarrow> 's kvserver \<Rightarrow> kv_state" where
  "kv_abs view s = \<lparr>kv_map = view (m_engine s), kv_expire = map_of (m_expireMap s), kv_done = map_of (m_lastRequestId s)\<rparr>"

lemma kv_abs_simps [simp]:
  "kv_map (kv_abs view s) = view (m_engine s)"
  "kv_expire (kv_abs view s) = map_of (m_expireMap s)"
  "kv_done (kv_abs view s) = map_of (m_lastRequestId s)"
  by (simp_all add: kv_abs_def)

lemma kv_abs_upd [simp]:
  "kv_abs view (s\<lparr>m_raftNode := r\<rparr>) = kv_abs view s" "kv_abs view (s\<lparr>channels := cs\<rparr>) = kv_abs view s"
  "kv_abs view (s\<lparr>waitApplyCh := w\<rparr>) = kv_abs view s" "kv_abs view (s\<lparr>m_lastSnapShotRaftLogIndex := i\<rparr>) = kv_abs view s"
  "kv_abs view (s\<lparr>next_channel := c\<rparr>) = kv_abs view s" "kv_abs view (s\<lparr>m_serializedKVData := d\<rparr>) = kv_abs view s"
  by (simp_all add: kv_abs_def)

lemma map_of_smap_erase [simp]: "map_of (smap_erase k m) = (map_of m)(k := None)"
  unfolding smap_erase_def by (induction m) auto

lemma smap_wf_erase: "smap_wf m \<Longrightarrow> smap_wf (smap_erase k m)"
  by (simp add: smap_wf_def smap_erase_def sorted_wrt_map sorted_wrt_filter)

lemma expired_abs: "isKeyExpired now s k = kv_expired now (kv_abs view s) k"
  by (simp add: isKeyExpired_def kv_expired_def)

lemma duplicate_abs: "ifRequestDuplicate (ClientId op) (RequestId op) s = kv_seen (kv_abs view s) op"
  by (simp add: ifRequestDuplicate_def kv_seen_def)

lemma setKeyExpire_simps [simp]:
  "m_engine (setKeyExpire k t s) = m_engine s" "m_lastRequestId (setKeyExpire k t s) = m_lastRequestId s"
  "m_raftNode (setKeyExpire k t s) = m_raftNode s" "waitApplyCh (setKeyExpire k t s) = waitApplyCh s"
  "channels (setKeyExpire k t s) = channels s" "m_maxRaftState (setKeyExpire k t s) = m_maxRaftState s"
  "m_lastSnapShotRaftLogIndex (setKeyExpire k t s) = m_lastSnapShotRaftLogIndex s"
  "next_channel (setKeyExpire k t s) = next_channel s"
  by (simp_all add: setKeyExpire_def)

lemma setKeyExpire_map:
  "map_of (m_expireMap (setKeyExpire k t s)) = (map_of (m_expireMap s))(k := (if sint t > 0 then Some t else None))"
  by (simp add: setKeyExpire_def)

text \<open>What the RPC side keeps: everything but the data, the clients' requests and the expiry times.\<close>

definition same_rpc :: "'s kvserver \<Rightarrow> 's kvserver \<Rightarrow> bool" where
  "same_rpc s t \<longleftrightarrow> waitApplyCh t = waitApplyCh s \<and> channels t = channels s \<and> next_channel t = next_channel s \<and>
     m_maxRaftState t = m_maxRaftState s \<and> m_lastSnapShotRaftLogIndex t = m_lastSnapShotRaftLogIndex s"

lemma same_rpcD:
  assumes "same_rpc s t"
  shows "waitApplyCh t = waitApplyCh s" "channels t = channels s" "next_channel t = next_channel s"
    "m_maxRaftState t = m_maxRaftState s" "m_lastSnapShotRaftLogIndex t = m_lastSnapShotRaftLogIndex s"
  using assms by (simp_all add: same_rpc_def)

text \<open>What the archive of the server state promises.\<close>

definition kv_archive_ok :: "kv_env \<Rightarrow> bool" where
  "kv_archive_ok env \<longleftrightarrow> codecs_ok (kv_raft env) \<and>
     (\<forall>x. kv_oarchive env x \<noteq> [] \<and> kv_iarchive env (kv_oarchive env x) = Inr x)"

lemma kv_archive_okD:
  assumes "kv_archive_ok env"
  shows "kv_oarchive env x \<noteq> []" "kv_iarchive env (kv_oarchive env x) = Inr x"
    "parseFromString (kv_raft env) (asString (kv_raft env) op) = Inr op" "codecs_ok (kv_raft env)"
  using assms by (cases x; simp add: kv_archive_ok_def parseFromString_def asString_def codecs_ok_def)+

text \<open>The two ways a command message is handled.\<close>

lemma get_command_cases:
  assumes "GetCommandFromRaft E env now m s = Inr s'"
  obtains (old) op where "parseFromString (kv_raft env) (Command m) = Inr op"
      "CommandIndex m \<le> m_lastSnapShotRaftLogIndex s" "s' = s"
  | (run) op s1 s2 b where "parseFromString (kv_raft env) (Command m) = Inr op"
      "m_lastSnapShotRaftLogIndex s < CommandIndex m" "execute_command E now op s = Inr s1"
      "(if m_maxRaftState s1 \<noteq> -1 then IfNeedToSendSnapShotCommand E env (CommandIndex m) 9 s1 else Inr s1) = Inr s2"
      "SendMessageToWaitChan op (CommandIndex m) s2 = Inr (s', b)"
proof -
  obtain op where op: "parseFromString (kv_raft env) (Command m) = Inr op"
    using assms by (cases "parseFromString (kv_raft env) (Command m)") (simp_all add: GetCommandFromRaft_def)
  show thesis
  proof (cases "CommandIndex m \<le> m_lastSnapShotRaftLogIndex s")
    case True
    then have "s' = s" using assms op by (simp add: GetCommandFromRaft_def)
    then show thesis by (rule old [OF op True])
  next
    case False
    then obtain s1 s2 b where rest: "execute_command E now op s = Inr s1"
      "(if m_maxRaftState s1 \<noteq> -1 then IfNeedToSendSnapShotCommand E env (CommandIndex m) 9 s1 else Inr s1) = Inr s2"
      "SendMessageToWaitChan op (CommandIndex m) s2 = Inr (s', b)"
      using assms op by (simp add: GetCommandFromRaft_def bindE_Inr_iff split_beta) blast
    have "m_lastSnapShotRaftLogIndex s < CommandIndex m" using False by simp
    then show thesis by (rule run [OF op _ rest])
  qed
qed

section \<open>The server refines it\<close>

context kv_engine
begin

lemma engine_get_ok:
  assumes "ok (m_engine s)"
  shows "\<exists>e. engine_get E k s = Inr (s\<lparr>m_engine := e\<rparr>, view (m_engine s) k) \<and> ok e \<and> view e = view (m_engine s)"
  using get_law [OF assms, of k] by (auto simp: engine_get_def)

lemma engine_put_ok:
  assumes "ok (m_engine s)" "engine_do (\<lambda>e. ePut E e k v) s = Inr s'"
  shows "\<exists>e. s' = s\<lparr>m_engine := e\<rparr> \<and> ok e \<and> view e = (view (m_engine s))(k \<mapsto> v)"
  using assms(2) put_law [OF assms(1), of k v]
  by (auto simp: engine_do_def split: prod.splits option.splits)

lemma engine_delete_ok:
  assumes "ok (m_engine s)" "engine_do (\<lambda>e. eDelete E e k) s = Inr s'"
  shows "\<exists>e. s' = s\<lparr>m_engine := e\<rparr> \<and> ok e \<and> view e = (view (m_engine s))(k := None)"
  using assms(2) delete_law [OF assms(1), of k]
  by (auto simp: engine_do_def split: prod.splits option.splits)

lemma execute_put_ok:
  assumes "ok (m_engine s)" "ExecutePutOpOnKVDB E op s = Inr s'"
  shows "ok (m_engine s') \<and> kv_abs view s' = kv_write op (Value op) (kv_abs view s) \<and> same_rpc s s' \<and>
    m_raftNode s' = m_raftNode s"
  using assms(2)
  by (auto simp: ExecutePutOpOnKVDB_def bindE_Inr_iff Let_def kv_write_def kv_abs_def setKeyExpire_map same_rpc_def
      dest!: engine_put_ok [OF assms(1)])

lemma execute_append_ok:
  assumes "ok (m_engine s)" "ExecuteAppendOpOnKVDB E now op s = Inr s'"
  shows "ok (m_engine s') \<and> same_rpc s s' \<and> m_raftNode s' = m_raftNode s \<and> kv_abs view s' =
    kv_write op (case kv_read now (kv_abs view s) (Key op) of None \<Rightarrow> Value op | Some old \<Rightarrow> old @ Value op) (kv_abs view s)"
proof -
  let ?k = "Key op" and ?old = "kv_read now (kv_abs view s) (Key op)"
  obtain s1 where s1: "ok (m_engine s1)" "view (m_engine s1) ?k = ?old" "\<forall>x. x \<noteq> ?k \<longrightarrow> view (m_engine s1) x = view (m_engine s) x"
    "(map_of (m_expireMap s1))(?k := q) = (map_of (m_expireMap s))(?k := q)" "m_lastRequestId s1 = m_lastRequestId s"
    "same_rpc s s1" "m_raftNode s1 = m_raftNode s"
    and run: "bindE (engine_get E ?k s1) (\<lambda>(s, oldValue).
       let newValue = (case oldValue of None \<Rightarrow> Value op | Some old \<Rightarrow> old @ Value op) in
       bindE (engine_do (\<lambda>e. ePut E e ?k newValue) s) (\<lambda>s.
       let s = setKeyExpire ?k (ExpireAtMs op) s in
       Inr (s\<lparr>m_lastRequestId := smap_put (ClientId op) (RequestId op) (m_lastRequestId s)\<rparr>))) = Inr s'" for q
  proof (cases "isKeyExpired now s ?k")
    case True
    obtain t where t: "engine_do (\<lambda>e. eDelete E e ?k) s = Inr t"
      using assms(2) True by (auto simp: ExecuteAppendOpOnKVDB_def bindE_Inr_iff)
    obtain e where e: "t = s\<lparr>m_engine := e\<rparr>" "ok e" "view e = (view (m_engine s))(?k := None)"
      using engine_delete_ok [OF assms(1) t] by blast
    show thesis
      by (rule that [of "t\<lparr>m_expireMap := smap_erase ?k (m_expireMap t)\<rparr>"])
        (use assms(2) True t e in \<open>auto simp: ExecuteAppendOpOnKVDB_def kv_read_def expired_abs [symmetric] same_rpc_def\<close>)
  next
    case False
    then show thesis
      using that [of s] assms by (simp add: ExecuteAppendOpOnKVDB_def kv_read_def expired_abs [symmetric] same_rpc_def)
  qed
  obtain e where e: "engine_get E ?k s1 = Inr (s1\<lparr>m_engine := e\<rparr>, ?old)" "ok e" "view e = view (m_engine s1)"
    using engine_get_ok [OF s1(1), of ?k] s1(2) by auto
  let ?v = "case ?old of None \<Rightarrow> Value op | Some old \<Rightarrow> old @ Value op"
  obtain t where t: "engine_do (\<lambda>e. ePut E e ?k ?v) (s1\<lparr>m_engine := e\<rparr>) = Inr t"
    and s': "s' = (let s = setKeyExpire ?k (ExpireAtMs op) t in
       s\<lparr>m_lastRequestId := smap_put (ClientId op) (RequestId op) (m_lastRequestId s)\<rparr>)"
    using run e(1) by (auto simp: bindE_Inr_iff Let_def)
  obtain e' where "t = s1\<lparr>m_engine := e'\<rparr>" "ok e'" "view e' = (view e)(?k \<mapsto> ?v)"
    using engine_put_ok [OF _ t] e(2) by auto
  then show ?thesis
    using s' s1 e(3) by (auto simp: kv_abs_def kv_write_def setKeyExpire_map same_rpc_def Let_def fun_eq_iff)
qed

lemma execute_get_ok:
  assumes "ok (m_engine s)" "ExecuteGetOpOnKVDB E now op s = Inr (s', value)"
  shows "ok (m_engine s') \<and> value = kv_read now (kv_abs view s) (Key op) \<and> same_rpc s s' \<and> m_raftNode s' = m_raftNode s \<and>
    kv_done (kv_abs view s') = (kv_done (kv_abs view s))(ClientId op \<mapsto> RequestId op) \<and>
    (\<forall>t \<ge> now. kv_read t (kv_abs view s') = kv_read t (kv_abs view s))"
proof (cases "isKeyExpired now s (Key op)")
  case True
  then obtain e where e: "s' = s\<lparr>m_engine := e, m_expireMap := smap_erase (Key op) (m_expireMap s),
      m_lastRequestId := smap_put (ClientId op) (RequestId op) (m_lastRequestId s)\<rparr>"
    "ok e" "view e = (view (m_engine s))(Key op := None)" "value = None"
    using assms(2) by (auto simp: ExecuteGetOpOnKVDB_def bindE_Inr_iff dest!: engine_delete_ok [OF assms(1)])
  obtain x where x: "map_of (m_expireMap s) (Key op) = Some x" "x < now"
    using True by (auto simp: isKeyExpired_def split: option.splits)
  have "kv_read t (kv_abs view s') = kv_read t (kv_abs view s)" if "now \<le> t" for t
    using e x that by (auto simp: kv_read_def kv_expired_def fun_eq_iff dest: order.strict_trans2)
  then show ?thesis using e True by (auto simp: kv_read_def expired_abs [symmetric] same_rpc_def)
next
  case False
  then obtain e where "s' = s\<lparr>m_engine := e, m_lastRequestId := smap_put (ClientId op) (RequestId op) (m_lastRequestId s)\<rparr>"
    "ok e" "view e = view (m_engine s)" "value = view (m_engine s) (Key op)"
    using engine_get_ok [OF assms(1), of "Key op"] assms(2) by (auto simp: ExecuteGetOpOnKVDB_def bindE_Inr_iff)
  moreover have "kv_read now (kv_abs view s) (Key op) = view (m_engine s) (Key op)"
    using False by (simp add: kv_read_def expired_abs [of _ _ _ view])
  ultimately show ?thesis by (auto simp: same_rpc_def kv_read_def kv_expired_def fun_eq_iff)
qed

lemma read_only_ok:
  assumes "ok (m_engine s)"
  shows "\<exists>e. ExecuteReadOnlyGetOpOnKVDB E now op s = Inr (s\<lparr>m_engine := e\<rparr>, kv_read now (kv_abs view s) (Key op)) \<and>
    ok e \<and> view e = view (m_engine s)"
proof (cases "isKeyExpired now s (Key op)")
  case True
  then show ?thesis using assms
    by (intro exI [of _ "m_engine s"]) (simp add: ExecuteReadOnlyGetOpOnKVDB_def kv_read_def expired_abs [symmetric])
next
  case False
  then show ?thesis using engine_get_ok [OF assms, of "Key op"]
    by (simp add: ExecuteReadOnlyGetOpOnKVDB_def kv_read_def expired_abs [symmetric])
qed

section \<open>Snapshots\<close>

lemma make_snapshot_ok:
  assumes "ok (m_engine s)"
  shows "\<exists>data. eSnapshot E (m_engine s) = Inr data \<and>
    MakeSnapShot E env s = Inr (s\<lparr>m_serializedKVData := []\<rparr>, kv_oarchive env (data, m_lastRequestId s, m_expireMap s))"
  using snapshot_law [OF assms] by (auto simp: MakeSnapShot_def getSnapshotData_def)

lemma install_snapshot_ok:
  assumes "kv_archive_ok env" "ok (m_engine s)" "ok (m_engine t)" "fits (view (m_engine s))"
    "MakeSnapShot E env s = Inr (s', snapshot)" "ReadSnapShotToInstall E env snapshot t = Inr t'"
  shows "ok (m_engine t') \<and> kv_abs view t' = kv_abs view s \<and> same_rpc t t' \<and> m_raftNode t' = m_raftNode t"
proof -
  obtain data where data: "eSnapshot E (m_engine s) = Inr data"
    "snapshot = kv_oarchive env (data, m_lastRequestId s, m_expireMap s)"
    using make_snapshot_ok [OF assms(2), of env] assms(5) by auto
  note ar = kv_archive_okD [OF assms(1)]
  obtain e where e: "eRestore E (m_engine t) data = (e, None)"
    and t': "t' = t\<lparr>m_engine := e, m_serializedKVData := [], m_lastRequestId := m_lastRequestId s, m_expireMap := m_expireMap s\<rparr>"
    using assms(6) ar by (auto simp: data(2) ReadSnapShotToInstall_def kv_parseFromString_def engine_do_def bindE_Inr_iff Let_def
        split: prod.splits option.splits)
  show ?thesis using restore_law [OF assms(2,3,4) data(1) e] t' by (simp add: kv_abs_def same_rpc_def)
qed

lemma if_need_ok:
  assumes "ok (m_engine s)" "IfNeedToSendSnapShotCommand E env i p s = Inr s'"
  shows "ok (m_engine s') \<and> kv_abs view s' = kv_abs view s \<and> same_rpc s s'"
  using assms make_snapshot_ok [OF assms(1), of env]
  by (auto simp: IfNeedToSendSnapShotCommand_def bindE_Inr_iff kv_abs_def same_rpc_def split: if_splits)

section \<open>Applying\<close>

lemma send_ok:
  "SendMessageToWaitChan op i s = Inr (s', b) \<Longrightarrow>
   m_engine s' = m_engine s \<and> kv_abs view s' = kv_abs view s \<and> m_raftNode s' = m_raftNode s \<and>
   m_lastSnapShotRaftLogIndex s' = m_lastSnapShotRaftLogIndex s \<and> waitApplyCh s' = waitApplyCh s"
  by (auto simp: SendMessageToWaitChan_def kv_abs_def split: option.splits)

lemma execute_command_ok:
  assumes "ok (m_engine s)" "execute_command E now op s = Inr s'"
  shows "ok (m_engine s') \<and> kv_abs view s' = kv_exec now op (kv_abs view s) \<and> same_rpc s s' \<and> m_raftNode s' = m_raftNode s"
  using assms execute_put_ok [OF assms(1)] execute_append_ok [OF assms(1)]
  by (auto simp: execute_command_def duplicate_abs [of _ _ view] kv_exec_def same_rpc_def split: if_splits)

lemma get_command_ok:
  assumes "ok (m_engine s)" "parseFromString (kv_raft env) (Command m) = Inr op"
    "m_lastSnapShotRaftLogIndex s < CommandIndex m" "GetCommandFromRaft E env now m s = Inr s'"
  shows "ok (m_engine s') \<and> kv_abs view s' = kv_exec now op (kv_abs view s) \<and>
    m_lastSnapShotRaftLogIndex s' = m_lastSnapShotRaftLogIndex s"
  using assms(4)
proof (cases rule: get_command_cases)
  case (run op' s1 s2 b)
  have "op' = op" using run(1) assms(2) by simp
  then have "ok (m_engine s1) \<and> kv_abs view s1 = kv_exec now op (kv_abs view s) \<and> same_rpc s s1"
    using execute_command_ok [OF assms(1)] run(3) by blast
  moreover have "ok (m_engine s2) \<and> kv_abs view s2 = kv_abs view s1 \<and> same_rpc s1 s2" if "ok (m_engine s1)"
    using run(4) if_need_ok [OF that] that by (auto simp: same_rpc_def split: if_splits)
  ultimately show ?thesis using send_ok [OF run(5)] by (auto simp: same_rpc_def)
qed (use assms in simp)

end

end
