(* ===== verification/Raft_Log.thy ===== *)
theory Raft_Log
  imports Raft_Node
begin

text \<open>
  Lemmas on the log of a node: where an index is found, what the loop of \<open>AppendEntries1\<close> does to the
  log (the entries of the request overwrite a segment, everything behind it stays), and the backward
  search.
\<close>

named_theorems raft_defs \<open>definitions the proofs about handlers unfold\<close>

text \<open>The entries carry consecutive indices, starting behind the snapshot.\<close>

definition indexed_from :: "int \<Rightarrow> LogEntry list \<Rightarrow> bool" where
  "indexed_from start es \<longleftrightarrow> (\<forall>i < length es. logindex (es ! i) = start + int i)"

definition log_ok :: "raft \<Rightarrow> bool" where
  "log_ok r \<longleftrightarrow> indexed_from (m_lastSnapshotIncludeIndex r + 1) (m_logs r)"

lemma indexed_from_Nil [simp]: "indexed_from s []"
  by (simp add: indexed_from_def)

lemma indexed_from_Cons: "indexed_from s (e # es) \<longleftrightarrow> logindex e = s \<and> indexed_from (s + 1) es"
proof
  assume "indexed_from s (e # es)"
  then have a: "\<And>i. i < Suc (length es) \<Longrightarrow> logindex ((e # es) ! i) = s + int i"
    by (simp add: indexed_from_def)
  show "logindex e = s \<and> indexed_from (s + 1) es"
    using a [of 0] a [of "Suc _"] by (auto simp: indexed_from_def)
next
  assume "logindex e = s \<and> indexed_from (s + 1) es"
  then show "indexed_from s (e # es)"
    by (auto simp: indexed_from_def nth_Cons split: nat.split)
qed

lemma indexed_from_append:
  "indexed_from s (xs @ ys) \<longleftrightarrow> indexed_from s xs \<and> indexed_from (s + int (length xs)) ys"
  by (induction xs arbitrary: s) (auto simp: indexed_from_Cons algebra_simps)

lemma indexed_from_drop: "indexed_from s xs \<Longrightarrow> k \<le> length xs \<Longrightarrow> indexed_from (s + int k) (drop k xs)"
  by (auto simp: indexed_from_def)

lemma indexed_from_take: "indexed_from s xs \<Longrightarrow> indexed_from s (take k xs)"
  by (auto simp: indexed_from_def)

lemma indexed_from_update:
  "indexed_from s xs \<Longrightarrow> logindex e = s + int k \<Longrightarrow> indexed_from s (xs[k := e])"
  unfolding indexed_from_def by (metis length_list_update nth_list_update_eq nth_list_update_neq)

lemma getLastLogIndex_eq: "log_ok r \<Longrightarrow> getLastLogIndex r = m_lastSnapshotIncludeIndex r + int (length (m_logs r))"
  by (auto simp: getLastLogIndex_def getLastLogIndexAndTerm_def log_ok_def indexed_from_def last_conv_nth
      of_nat_diff Suc_leI)

lemma log_ok_cong:
  "m_logs r' = m_logs r \<Longrightarrow> m_lastSnapshotIncludeIndex r' = m_lastSnapshotIncludeIndex r \<Longrightarrow> log_ok r' = log_ok r"
  by (simp add: log_ok_def)

lemma getSlices_ok:
  "log_ok r \<Longrightarrow> m_lastSnapshotIncludeIndex r < i \<Longrightarrow> i \<le> getLastLogIndex r \<Longrightarrow>
   getSlicesIndexFromLogIndex r i = Inr (i - m_lastSnapshotIncludeIndex r - 1)"
  by (simp add: getSlicesIndexFromLogIndex_def)

lemma log_at_ok:
  "log_ok r \<Longrightarrow> m_lastSnapshotIncludeIndex r < i \<Longrightarrow> i \<le> getLastLogIndex r \<Longrightarrow>
   log_at r i = Inr (m_logs r ! nat (i - m_lastSnapshotIncludeIndex r - 1))"
  by (simp add: log_at_def getSlices_ok getLastLogIndex_eq)

lemma log_at_index:
  assumes "log_ok r" "log_at r i = Inr e"
  shows "logindex e = i"
proof -
  from assms(2) have "m_lastSnapshotIncludeIndex r < i" "i \<le> getLastLogIndex r"
    by (auto simp: log_at_def getSlicesIndexFromLogIndex_def bindE_Inr_iff assertE_Inr_iff)
  with assms show ?thesis
    by (auto simp: log_at_ok log_ok_def indexed_from_def getLastLogIndex_eq)
qed

text \<open>The term of an index that the node has: the snapshot's or that of an entry.\<close>

definition term_at :: "raft \<Rightarrow> int \<Rightarrow> int" where
  "term_at r i = (if i = m_lastSnapshotIncludeIndex r then m_lastSnapshotIncludeTerm r
     else logterm (m_logs r ! nat (i - m_lastSnapshotIncludeIndex r - 1)))"

lemma getLogTerm_ok:
  "log_ok r \<Longrightarrow> m_lastSnapshotIncludeIndex r \<le> i \<Longrightarrow> i \<le> getLastLogIndex r \<Longrightarrow>
   getLogTermFromLogIndex r i = Inr (term_at r i)"
  by (auto simp: getLogTermFromLogIndex_def term_at_def log_at_ok)

lemma matchLog_ok:
  "log_ok r \<Longrightarrow> m_lastSnapshotIncludeIndex r \<le> i \<Longrightarrow> i \<le> getLastLogIndex r \<Longrightarrow>
   matchLog r i t = Inr (t = term_at r i)"
  by (simp add: matchLog_def getLogTerm_ok)

section \<open>The entries of a request\<close>

text \<open>No entry has index and term of an entry of the log and another command.\<close>

fun compatible :: "LogEntry list \<Rightarrow> LogEntry list \<Rightarrow> bool" where
  "compatible (x # xs) (e # es) \<longleftrightarrow> (logterm x = logterm e \<longrightarrow> command x = command e) \<and> compatible xs es"
| "compatible _ _ \<longleftrightarrow> True"

definition overwrite :: "nat \<Rightarrow> LogEntry list \<Rightarrow> LogEntry list \<Rightarrow> LogEntry list" where
  "overwrite k es logs = take k logs @ es @ drop (k + length es) logs"

lemma overwrite_Nil: "overwrite k [] logs = logs"
  by (simp add: overwrite_def)

lemma length_overwrite: "k \<le> length logs \<Longrightarrow> length (overwrite k es logs) = max (length logs) (k + length es)"
  by (simp add: overwrite_def)

lemma indexed_from_overwrite:
  assumes "indexed_from s logs" "indexed_from (s + int k) es" "k \<le> length logs"
  shows "indexed_from s (overwrite k es logs)"
proof -
  have "indexed_from (s + int k + int (length es)) (drop (k + length es) logs)"
    using assms(1) indexed_from_drop [of s logs "k + length es"]
    by (cases "k + length es \<le> length logs") (auto simp: algebra_simps)
  then show ?thesis
    using assms by (simp add: overwrite_def indexed_from_append indexed_from_take min_absorb2)
qed

lemma LogEntry_eqI: "command x = command y \<Longrightarrow> logterm x = logterm y \<Longrightarrow> logindex x = logindex y \<Longrightarrow> x = (y :: LogEntry)"
  by simp

definition diff_command :: exn where
  "diff_command = AssertFail ''AppendEntries: same log index and term, but command differs''"

lemma append_entries_loop_eq:
  assumes "log_ok r" "indexed_from (m_lastSnapshotIncludeIndex r + 1 + int k) es" "k \<le> length (m_logs r)"
  shows "append_entries_loop es r =
    (if compatible (drop k (m_logs r)) es then Inr (r\<lparr>m_logs := overwrite k es (m_logs r)\<rparr>) else Inl diff_command)"
  using assms
proof (induction es arbitrary: r k)
  case Nil
  then show ?case by (simp add: overwrite_Nil)
next
  case (Cons e es)
  let ?s = "m_lastSnapshotIncludeIndex r"
  have ei: "logindex e = ?s + 1 + int k" and es: "indexed_from (?s + 1 + int (Suc k)) es"
    using Cons.prems(2) by (auto simp: indexed_from_Cons algebra_simps)
  have lst: "getLastLogIndex r = ?s + int (length (m_logs r))"
    using Cons.prems(1) by (rule getLastLogIndex_eq)
  show ?case
  proof (cases "k = length (m_logs r)")
    case True
    let ?r = "r\<lparr>m_logs := m_logs r @ [e]\<rparr>"
    have "log_ok ?r"
      using Cons.prems(1) ei True by (simp add: log_ok_def indexed_from_append indexed_from_Cons)
    then have "append_entries_loop es ?r = Inr (?r\<lparr>m_logs := overwrite (Suc k) es (m_logs ?r)\<rparr>)"
      using Cons.IH [of ?r "Suc k"] es True by simp
    then show ?thesis using True ei lst by (simp add: overwrite_def)
  next
    case False
    with Cons.prems(3) have k: "k < length (m_logs r)" by simp
    let ?x = "m_logs r ! k" and ?r = "r\<lparr>m_logs := (m_logs r)[k := e]\<rparr>"
    have dk: "drop k (m_logs r) = ?x # drop (Suc k) (m_logs r)" using k by (simp add: Cons_nth_drop_Suc)
    have xi: "logindex ?x = logindex e"
      using Cons.prems(1) k ei by (simp add: log_ok_def indexed_from_def)
    have at: "getSlicesIndexFromLogIndex r (logindex e) = Inr (int k)"
      using ei lst k by (simp add: getSlicesIndexFromLogIndex_def)
    have same: "(m_logs r)[k := e] = m_logs r" if "logterm ?x = logterm e" "command ?x = command e"
    proof -
      have "?x = e" using that xi by (intro LogEntry_eqI) auto
      then show ?thesis by (metis list_update_id)
    qed
    have "log_ok ?r"
      using Cons.prems(1) ei by (simp add: log_ok_def indexed_from_update)
    then have ih: "append_entries_loop es ?r =
        (if compatible (drop (Suc k) (m_logs r)) es then Inr (?r\<lparr>m_logs := overwrite (Suc k) es (m_logs ?r)\<rparr>)
         else Inl diff_command)"
      using Cons.IH [of ?r "Suc k"] es k by simp
    have ov: "overwrite (Suc k) es ((m_logs r)[k := e]) = overwrite k (e # es) (m_logs r)"
      using k by (simp add: overwrite_def take_Suc_conv_app_nth)
    show ?thesis
    proof (cases "logterm ?x = logterm e")
      case True
      then show ?thesis
        using same [OF True] ih ov at k dk ei lst
        by (cases "command ?x = command e") (simp_all add: assertE_def diff_command_def)
    next
      case neq: False
      then show ?thesis
        using ih ov at k dk ei lst by (auto simp: assertE_def diff_command_def)
    qed
  qed
qed

section \<open>The backward search\<close>

lemma conflict_scan_ok:
  assumes "log_ok r" "prev \<le> getLastLogIndex r" "m_lastSnapshotIncludeIndex r \<le> prev" "index \<le> prev"
  shows "\<exists>res. conflict_scan r prev index = Inr res \<and>
    (case res of
       None \<Rightarrow> \<forall>i. m_lastSnapshotIncludeIndex r \<le> i \<longrightarrow> i \<le> index \<longrightarrow> term_at r i = term_at r prev
     | Some j \<Rightarrow> m_lastSnapshotIncludeIndex r < j \<and> j \<le> index + 1 \<and> term_at r (j - 1) \<noteq> term_at r prev \<and>
         (\<forall>i. j \<le> i \<longrightarrow> i \<le> index \<longrightarrow> term_at r i = term_at r prev))"
  using assms
proof (induction r prev index rule: conflict_scan.induct)
  case (1 r prev index)
  show ?case
  proof (cases "index \<ge> m_lastSnapshotIncludeIndex r")
    case False
    then show ?thesis by (simp add: conflict_scan.simps [of r prev index])
  next
    case True
    have t: "getLogTermFromLogIndex r index = Inr (term_at r index)"
      "getLogTermFromLogIndex r prev = Inr (term_at r prev)"
      using True "1.prems" by (auto intro!: getLogTerm_ok)
    show ?thesis
    proof (cases "term_at r index = term_at r prev")
      case False
      then show ?thesis using True t by (simp add: conflict_scan.simps [of r prev index])
    next
      case eq: True
      obtain res where res: "conflict_scan r prev (index - 1) = Inr res"
        "case res of
           None \<Rightarrow> \<forall>i. m_lastSnapshotIncludeIndex r \<le> i \<longrightarrow> i \<le> index - 1 \<longrightarrow> term_at r i = term_at r prev
         | Some j \<Rightarrow> m_lastSnapshotIncludeIndex r < j \<and> j \<le> index - 1 + 1 \<and> term_at r (j - 1) \<noteq> term_at r prev \<and>
             (\<forall>i. j \<le> i \<longrightarrow> i \<le> index - 1 \<longrightarrow> term_at r i = term_at r prev)"
        using "1.IH" [OF True t] eq "1.prems" by auto
      have "conflict_scan r prev index = Inr res"
        using True t eq res(1) by (simp add: conflict_scan.simps [of r prev index])
      moreover have le: "i \<le> index \<longleftrightarrow> i = index \<or> i \<le> index - 1" for i by linarith
      ultimately show ?thesis using res(2) eq by (auto simp: le split: option.splits)
    qed
  qed
qed

end
