(* ===== verification/Raft_Wf.thy ===== *)
theory Raft_Wf
  imports Raft_Log
begin

text \<open>
  The invariant of one node, \<open>raft_wf\<close>, and for every operation of \<open>raft.cpp\<close>: what it
  computes on each branch, that it keeps the invariant, and that on a well-formed node and a well-formed request
  none of its assertions fires (the one exception, two entries of one term at one index, is named).
\<close>

definition raft_wf :: "raft \<Rightarrow> bool" where
  "raft_wf r \<longleftrightarrow>
     log_ok r \<and> 0 \<le> m_lastSnapshotIncludeIndex r \<and>
     0 \<le> m_commitIndex r \<and> m_commitIndex r \<le> m_lastSnapshotIncludeIndex r + int (length (m_logs r)) \<and>
     m_lastSnapshotIncludeIndex r \<le> m_lastApplied r \<and>
     m_lastApplied r \<le> max (m_commitIndex r) (m_lastSnapshotIncludeIndex r) \<and>
     length (m_nextIndex r) = m_peers r \<and> length (m_matchIndex r) = m_peers r \<and>
     0 \<le> m_me r \<and> m_me r < int (m_peers r)"

lemma raft_wfD:
  assumes "raft_wf r"
  shows "log_ok r" "0 \<le> m_lastSnapshotIncludeIndex r" "0 \<le> m_commitIndex r"
    "m_commitIndex r \<le> m_lastSnapshotIncludeIndex r + int (length (m_logs r))"
    "m_lastSnapshotIncludeIndex r \<le> m_lastApplied r"
    "m_lastApplied r \<le> max (m_commitIndex r) (m_lastSnapshotIncludeIndex r)"
    "length (m_nextIndex r) = m_peers r" "length (m_matchIndex r) = m_peers r"
    "0 \<le> m_me r" "m_me r < int (m_peers r)"
    "getLastLogIndex r = m_lastSnapshotIncludeIndex r + int (length (m_logs r))"
  using assms getLastLogIndex_eq by (auto simp: raft_wf_def)

lemmas raft_wf_unfold = raft_wf_def log_ok_def

text \<open>Most updates do not touch the log.\<close>

lemma getLastLog_upd [simp]:
  "getLastLogIndexAndTerm (r\<lparr>m_status := a\<rparr>) = getLastLogIndexAndTerm r"
  "getLastLogIndexAndTerm (r\<lparr>m_currentTerm := t\<rparr>) = getLastLogIndexAndTerm r"
  "getLastLogIndexAndTerm (r\<lparr>m_votedFor := t\<rparr>) = getLastLogIndexAndTerm r"
  "getLastLogIndexAndTerm (r\<lparr>m_commitIndex := t\<rparr>) = getLastLogIndexAndTerm r"
  "getLastLogIndexAndTerm (r\<lparr>m_lastApplied := t\<rparr>) = getLastLogIndexAndTerm r"
  "getLastLogIndexAndTerm (r\<lparr>m_nextIndex := xs\<rparr>) = getLastLogIndexAndTerm r"
  "getLastLogIndexAndTerm (r\<lparr>m_matchIndex := xs\<rparr>) = getLastLogIndexAndTerm r"
  "getLastLogIndexAndTerm (r\<lparr>m_persister := p\<rparr>) = getLastLogIndexAndTerm r"
  "getLastLogIndexAndTerm (r\<lparr>m_lastResetElectionTime := t\<rparr>) = getLastLogIndexAndTerm r"
  "getLastLogIndexAndTerm (r\<lparr>m_lastResetHearBeatTime := t\<rparr>) = getLastLogIndexAndTerm r"
  "getLastLogIndexAndTerm (r\<lparr>applyChan := q\<rparr>) = getLastLogIndexAndTerm r"
  by (simp_all add: getLastLogIndexAndTerm_def)

lemma getLastLogIndex_upd [simp]:
  "getLastLogIndex (r\<lparr>m_status := a\<rparr>) = getLastLogIndex r"
  "getLastLogIndex (r\<lparr>m_currentTerm := t\<rparr>) = getLastLogIndex r"
  "getLastLogIndex (r\<lparr>m_votedFor := t\<rparr>) = getLastLogIndex r"
  "getLastLogIndex (r\<lparr>m_commitIndex := t\<rparr>) = getLastLogIndex r"
  "getLastLogIndex (r\<lparr>m_lastApplied := t\<rparr>) = getLastLogIndex r"
  "getLastLogIndex (r\<lparr>m_nextIndex := xs\<rparr>) = getLastLogIndex r"
  "getLastLogIndex (r\<lparr>m_matchIndex := xs\<rparr>) = getLastLogIndex r"
  "getLastLogIndex (r\<lparr>m_persister := p\<rparr>) = getLastLogIndex r"
  "getLastLogIndex (r\<lparr>m_lastResetElectionTime := t\<rparr>) = getLastLogIndex r"
  "getLastLogIndex (r\<lparr>m_lastResetHearBeatTime := t\<rparr>) = getLastLogIndex r"
  "getLastLogIndex (r\<lparr>applyChan := q\<rparr>) = getLastLogIndex r"
  by (simp_all add: getLastLogIndex_def)

lemma log_ok_upd [simp]:
  "log_ok (r\<lparr>m_status := a\<rparr>) = log_ok r"
  "log_ok (r\<lparr>m_currentTerm := t\<rparr>) = log_ok r"
  "log_ok (r\<lparr>m_votedFor := t\<rparr>) = log_ok r"
  "log_ok (r\<lparr>m_commitIndex := t\<rparr>) = log_ok r"
  "log_ok (r\<lparr>m_lastApplied := t\<rparr>) = log_ok r"
  "log_ok (r\<lparr>m_nextIndex := xs\<rparr>) = log_ok r"
  "log_ok (r\<lparr>m_matchIndex := xs\<rparr>) = log_ok r"
  "log_ok (r\<lparr>m_persister := p\<rparr>) = log_ok r"
  "log_ok (r\<lparr>m_lastResetElectionTime := t\<rparr>) = log_ok r"
  "log_ok (r\<lparr>m_lastResetHearBeatTime := t\<rparr>) = log_ok r"
  by (simp_all add: log_ok_def)

lemma term_at_upd [simp]:
  "term_at (r\<lparr>m_status := a\<rparr>) = term_at r"
  "term_at (r\<lparr>m_currentTerm := t\<rparr>) = term_at r"
  "term_at (r\<lparr>m_votedFor := t\<rparr>) = term_at r"
  "term_at (r\<lparr>m_lastResetElectionTime := t\<rparr>) = term_at r"
  by (simp_all add: term_at_def fun_eq_iff)

lemma persist_fields [simp]:
  "m_peers (persist env r) = m_peers r" "m_me (persist env r) = m_me r"
  "m_currentTerm (persist env r) = m_currentTerm r" "m_votedFor (persist env r) = m_votedFor r"
  "m_logs (persist env r) = m_logs r" "m_commitIndex (persist env r) = m_commitIndex r"
  "m_lastApplied (persist env r) = m_lastApplied r" "m_nextIndex (persist env r) = m_nextIndex r"
  "m_matchIndex (persist env r) = m_matchIndex r" "m_status (persist env r) = m_status r"
  "applyChan (persist env r) = applyChan r"
  "m_lastResetElectionTime (persist env r) = m_lastResetElectionTime r"
  "m_lastResetHearBeatTime (persist env r) = m_lastResetHearBeatTime r"
  "m_lastSnapshotIncludeIndex (persist env r) = m_lastSnapshotIncludeIndex r"
  "m_lastSnapshotIncludeTerm (persist env r) = m_lastSnapshotIncludeTerm r"
  "m_persister (persist env r) = SaveRaftState (file_open env) (persistData env r) (m_persister r)"
  by (simp_all add: persist_def)

lemma persist_log [simp]:
  "getLastLogIndex (persist env r) = getLastLogIndex r"
  "getLastLogIndexAndTerm (persist env r) = getLastLogIndexAndTerm r"
  "log_ok (persist env r) = log_ok r" "raft_wf (persist env r) = raft_wf r"
  by (simp_all add: persist_def raft_wf_unfold)

text \<open>Taking a new term (or the same one) as a follower.\<close>

definition step_down :: "int \<Rightarrow> raft \<Rightarrow> raft" where
  "step_down t r = (if t > m_currentTerm r
     then r\<lparr>m_status := Follower, m_currentTerm := t, m_votedFor := -1\<rparr> else r)"

lemma step_down_fields [simp]:
  "m_logs (step_down t r) = m_logs r" "m_commitIndex (step_down t r) = m_commitIndex r"
  "m_lastSnapshotIncludeIndex (step_down t r) = m_lastSnapshotIncludeIndex r"
  "m_lastSnapshotIncludeTerm (step_down t r) = m_lastSnapshotIncludeTerm r"
  "m_currentTerm (step_down t r) = max t (m_currentTerm r)"
  "m_lastApplied (step_down t r) = m_lastApplied r" "m_peers (step_down t r) = m_peers r"
  "m_me (step_down t r) = m_me r" "m_nextIndex (step_down t r) = m_nextIndex r"
  "m_matchIndex (step_down t r) = m_matchIndex r" "m_persister (step_down t r) = m_persister r"
  "applyChan (step_down t r) = applyChan r"
  "getLastLogIndex (step_down t r) = getLastLogIndex r"
  "getLastLogIndexAndTerm (step_down t r) = getLastLogIndexAndTerm r"
  "log_ok (step_down t r) = log_ok r" "raft_wf (step_down t r) = raft_wf r"
  "term_at (step_down t r) = term_at r"
  by (auto simp: step_down_def raft_wf_unfold max_def)

section \<open>AppendEntries\<close>

definition ae_ok :: "AppendEntriesArgs \<Rightarrow> bool" where
  "ae_ok args \<longleftrightarrow> indexed_from (ae_prevlogindex args + 1) (ae_entries args)"

definition ae_reject :: "int \<Rightarrow> int \<Rightarrow> AppendEntriesReply" where
  "ae_reject t i = \<lparr>aer_term = t, aer_success = False, aer_updatenextindex = i, aer_appstate = AppNormal\<rparr>"

definition ae_accept :: "int \<Rightarrow> AppendEntriesReply" where
  "ae_accept t = \<lparr>aer_term = t, aer_success = True, aer_updatenextindex = 0, aer_appstate = AppNormal\<rparr>"

text \<open>The node after the entries were taken in.\<close>

definition take_in :: "AppendEntriesArgs \<Rightarrow> raft \<Rightarrow> raft" where
  "take_in args r =
     (let logs = overwrite (nat (ae_prevlogindex args - m_lastSnapshotIncludeIndex r)) (ae_entries args) (m_logs r)
      in r\<lparr>m_logs := logs,
           m_commitIndex := (if ae_leadercommit args > m_commitIndex r
             then min (ae_leadercommit args) (m_lastSnapshotIncludeIndex r + int (length logs))
             else m_commitIndex r)\<rparr>)"

definition ae_follow :: "int \<Rightarrow> AppendEntriesArgs \<Rightarrow> raft \<Rightarrow> raft" where
  "ae_follow now args r = (step_down (ae_term args) r)\<lparr>m_status := Follower, m_lastResetElectionTime := now\<rparr>"

lemma ae_follow_fields [simp]:
  "m_logs (ae_follow now args r) = m_logs r" "m_commitIndex (ae_follow now args r) = m_commitIndex r"
  "m_lastSnapshotIncludeIndex (ae_follow now args r) = m_lastSnapshotIncludeIndex r"
  "m_lastSnapshotIncludeTerm (ae_follow now args r) = m_lastSnapshotIncludeTerm r"
  "m_currentTerm (ae_follow now args r) = max (ae_term args) (m_currentTerm r)"
  "m_lastApplied (ae_follow now args r) = m_lastApplied r" "m_peers (ae_follow now args r) = m_peers r"
  "m_me (ae_follow now args r) = m_me r" "m_nextIndex (ae_follow now args r) = m_nextIndex r"
  "m_matchIndex (ae_follow now args r) = m_matchIndex r" "m_persister (ae_follow now args r) = m_persister r"
  "m_status (ae_follow now args r) = Follower"
  "getLastLogIndex (ae_follow now args r) = getLastLogIndex r"
  "log_ok (ae_follow now args r) = log_ok r" "raft_wf (ae_follow now args r) = raft_wf r"
  "term_at (ae_follow now args r) = term_at r"
  by (auto simp: ae_follow_def raft_wf_unfold)

lemma AppendEntries1_stale:
  "ae_term args < m_currentTerm r \<Longrightarrow>
   AppendEntries1 env now args r = Inr (r, ae_reject (m_currentTerm r) (-100))"
  by (simp add: AppendEntries1_def AppendEntriesReply_new_def ae_reject_def Let_def)

text \<open>The rest of the handler once the term is accepted.\<close>

lemma AppendEntries1_follow:
  fixes now :: int
  assumes "raft_wf r" "m_currentTerm r \<le> ae_term args"
  defines "f \<equiv> ae_follow now args r"
  shows "AppendEntries1 env now args r =
   (if ae_prevlogindex args > getLastLogIndex r
    then Inr (persist env f, ae_reject (ae_term args) (getLastLogIndex r + 1))
    else if ae_prevlogindex args < m_lastSnapshotIncludeIndex r
    then Inr (persist env f, ae_reject (ae_term args) (m_lastSnapshotIncludeIndex r + 1))
    else if ae_prevlogterm args = term_at r (ae_prevlogindex args)
    then bindE (append_entries_loop (ae_entries args) f) (\<lambda>r.
             bindE (assertE ''AppendEntries: lastLogIndex < PrevLogIndex + len(Entries)''
                      (getLastLogIndex r \<ge> ae_prevlogindex args + int (length (ae_entries args)))) (\<lambda>_.
             let r = (if ae_leadercommit args > m_commitIndex r
                      then r\<lparr>m_commitIndex := min (ae_leadercommit args) (getLastLogIndex r)\<rparr> else r)
             in bindE (assertE ''AppendEntries: lastLogIndex < commitIndex'' (getLastLogIndex r \<ge> m_commitIndex r)) (\<lambda>_.
             Inr (persist env r, ae_accept (m_currentTerm r)))))
    else bindE (conflict_scan f (ae_prevlogindex args) (ae_prevlogindex args)) (\<lambda>found.
           Inr (persist env f, ae_reject (ae_term args)
             (case found of None \<Rightarrow> ae_prevlogindex args | Some i \<Rightarrow> i))))"
proof -
  let ?r1 = "if ae_term args > m_currentTerm r
             then r\<lparr>m_status := Follower, m_currentTerm := ae_term args, m_votedFor := -1\<rparr> else r"
  have f: "?r1\<lparr>m_status := Follower, m_lastResetElectionTime := now\<rparr> = f"
    by (simp add: f_def ae_follow_def step_down_def)
  have t: "m_currentTerm f = ae_term args" "m_currentTerm ?r1 = ae_term args" using assms by (auto simp: f_def)
  have m: "matchLog f (ae_prevlogindex args) (ae_prevlogterm args) =
      Inr (ae_prevlogterm args = term_at r (ae_prevlogindex args))"
    if "\<not> ae_prevlogindex args > getLastLogIndex r" "\<not> ae_prevlogindex args < m_lastSnapshotIncludeIndex r"
    using that raft_wfD(1) [OF assms(1)] by (subst matchLog_ok) (auto simp: f_def)
  have ff: "getLastLogIndex f = getLastLogIndex r" "m_lastSnapshotIncludeIndex f = m_lastSnapshotIncludeIndex r"
    by (simp_all add: f_def)
  show ?thesis
    using assms(2) m unfolding AppendEntries1_def Let_def f
    by (simp add: t ff AppendEntriesReply_new_def ae_reject_def ae_accept_def del: not_less)
qed

lemma append_loop_follow:
  assumes "raft_wf f" "ae_ok args" "m_lastSnapshotIncludeIndex f \<le> ae_prevlogindex args"
    "ae_prevlogindex args \<le> getLastLogIndex f"
  defines "k \<equiv> nat (ae_prevlogindex args - m_lastSnapshotIncludeIndex f)"
  shows "append_entries_loop (ae_entries args) f =
      (if compatible (drop k (m_logs f)) (ae_entries args)
       then Inr (f\<lparr>m_logs := overwrite k (ae_entries args) (m_logs f)\<rparr>) else Inl diff_command)"
    and "k \<le> length (m_logs f)"
    and "log_ok (f\<lparr>m_logs := overwrite k (ae_entries args) (m_logs f)\<rparr>)"
proof -
  show k: "k \<le> length (m_logs f)"
    using assms raft_wfD(11) [OF assms(1)] by simp
  have i: "indexed_from (m_lastSnapshotIncludeIndex f + 1 + int k) (ae_entries args)"
    using assms by (simp add: ae_ok_def algebra_simps)
  show "append_entries_loop (ae_entries args) f =
      (if compatible (drop k (m_logs f)) (ae_entries args)
       then Inr (f\<lparr>m_logs := overwrite k (ae_entries args) (m_logs f)\<rparr>) else Inl diff_command)"
    using raft_wfD(1) [OF assms(1)] i k by (rule append_entries_loop_eq)
  show "log_ok (f\<lparr>m_logs := overwrite k (ae_entries args) (m_logs f)\<rparr>)"
    using raft_wfD(1) [OF assms(1)] i k indexed_from_overwrite by (simp add: log_ok_def)
qed

text \<open>The request matches: its entries overwrite those of the log; nothing behind them is removed.\<close>

lemma AppendEntries1_match:
  assumes "raft_wf r" "ae_ok args" "m_currentTerm r \<le> ae_term args"
    "m_lastSnapshotIncludeIndex r \<le> ae_prevlogindex args" "ae_prevlogindex args \<le> getLastLogIndex r"
    "ae_prevlogterm args = term_at r (ae_prevlogindex args)"
  shows "AppendEntries1 env now args r =
    (if compatible (drop (nat (ae_prevlogindex args - m_lastSnapshotIncludeIndex r)) (m_logs r)) (ae_entries args)
     then Inr (persist env (take_in args (ae_follow now args r)), ae_accept (ae_term args)) else Inl diff_command)"
proof -
  let ?f = "ae_follow now args r" and ?k = "nat (ae_prevlogindex args - m_lastSnapshotIncludeIndex r)"
  let ?logs = "overwrite ?k (ae_entries args) (m_logs r)"
  let ?g = "?f\<lparr>m_logs := ?logs\<rparr>"
  have wf: "raft_wf ?f" using assms(1) by simp
  note loop = append_loop_follow [OF wf assms(2), simplified, OF assms(4,5)]
  have lst: "getLastLogIndex ?g = m_lastSnapshotIncludeIndex r + int (length ?logs)"
    using getLastLogIndex_eq [OF loop(3)] by simp
  have len: "length ?logs = max (length (m_logs r)) (?k + length (ae_entries args))"
    using loop(2) by (rule length_overwrite)
  have enough: "ae_prevlogindex args + int (length (ae_entries args)) \<le> getLastLogIndex ?g"
    using lst len assms(4) by simp
  have com: "m_commitIndex r \<le> getLastLogIndex ?g"
    using lst len raft_wfD(4) [OF assms(1)] by simp
  have same: "?g\<lparr>m_commitIndex := m_commitIndex r\<rparr> = ?g"
    by (rule raft.equality) simp_all
  show ?thesis
    using AppendEntries1_follow [OF assms(1,3), of env now] assms(4,5,6) loop(1) enough com lst assms(3)
      arg_cong [OF same, of "persist env"]
    by (simp add: take_in_def Let_def min_le_iff_disj)
qed

lemma AppendEntries1_mismatch:
  assumes "raft_wf r" "m_currentTerm r \<le> ae_term args"
    "m_lastSnapshotIncludeIndex r \<le> ae_prevlogindex args" "ae_prevlogindex args \<le> getLastLogIndex r"
    "ae_prevlogterm args \<noteq> term_at r (ae_prevlogindex args)"
  shows "\<exists>j. AppendEntries1 env now args r = Inr (persist env (ae_follow now args r), ae_reject (ae_term args) j) \<and>
    m_lastSnapshotIncludeIndex r \<le> j \<and> j \<le> ae_prevlogindex args \<and>
    (\<forall>i. j \<le> i \<longrightarrow> i \<le> ae_prevlogindex args \<longrightarrow> term_at r i = term_at r (ae_prevlogindex args))"
proof -
  let ?f = "ae_follow now args r" and ?p = "ae_prevlogindex args"
  have "log_ok ?f" "?p \<le> getLastLogIndex ?f" "m_lastSnapshotIncludeIndex ?f \<le> ?p"
    using raft_wfD(1) [OF assms(1)] assms(3,4) by simp_all
  from conflict_scan_ok [OF this order.refl, unfolded ae_follow_fields] obtain res where
    res: "conflict_scan ?f ?p ?p = Inr res" and c: "case res of
       None \<Rightarrow> \<forall>i. m_lastSnapshotIncludeIndex r \<le> i \<longrightarrow> i \<le> ?p \<longrightarrow> term_at r i = term_at r ?p
     | Some j \<Rightarrow> m_lastSnapshotIncludeIndex r < j \<and> j \<le> ?p + 1 \<and> term_at r (j - 1) \<noteq> term_at r ?p \<and>
         (\<forall>i. j \<le> i \<longrightarrow> i \<le> ?p \<longrightarrow> term_at r i = term_at r ?p)"
    by (elim exE conjE) (rule that)
  let ?j = "case res of None \<Rightarrow> ?p | Some i \<Rightarrow> i"
  have "AppendEntries1 env now args r = Inr (persist env ?f, ae_reject (ae_term args) ?j)"
    using AppendEntries1_follow [OF assms(1,2), of env now] assms(3-5) res by simp
  moreover have "m_lastSnapshotIncludeIndex r \<le> ?j \<and> ?j \<le> ?p \<and>
      (\<forall>i. ?j \<le> i \<longrightarrow> i \<le> ?p \<longrightarrow> term_at r i = term_at r ?p)"
  proof (cases res)
    case None
    have "\<forall>i. ?p \<le> i \<longrightarrow> i \<le> ?p \<longrightarrow> term_at r i = term_at r ?p"
      by (intro allI impI arg_cong [of _ _ "term_at r"] order_antisym)
    then show ?thesis using assms(3) unfolding None option.simps by (intro conjI order.refl) assumption+
  next
    case (Some k)
    note c' = c [unfolded Some option.simps]
    note k = conjunct1 [OF c'] conjunct1 [OF conjunct2 [OF c']] conjunct1 [OF conjunct2 [OF conjunct2 [OF c']]]
    note e = conjunct2 [OF conjunct2 [OF conjunct2 [OF c']]]
    have "k \<noteq> ?p + 1" using k(3) by (rule contrapos_nn) simp
    then have "k \<le> ?p" using k(2) by linarith
    then show ?thesis using less_imp_le [OF k(1)] e unfolding Some option.simps by (intro conjI) assumption+
  qed
  ultimately show ?thesis by (intro exI conjI) (assumption | (elim conjE, assumption))+
qed

text \<open>Every outcome of the handler, in one rule.\<close>

lemma AppendEntries1_elim:
  assumes "raft_wf r" "ae_ok args"
  obtains
    (stale) "ae_term args < m_currentTerm r"
      "AppendEntries1 env now args r = Inr (r, ae_reject (m_currentTerm r) (-100))"
  | (reject) j where "m_currentTerm r \<le> ae_term args" "0 \<le> j"
      "AppendEntries1 env now args r = Inr (persist env (ae_follow now args r), ae_reject (ae_term args) j)"
  | (accept) "m_currentTerm r \<le> ae_term args"
      "m_lastSnapshotIncludeIndex r \<le> ae_prevlogindex args" "ae_prevlogindex args \<le> getLastLogIndex r"
      "ae_prevlogterm args = term_at r (ae_prevlogindex args)"
      "AppendEntries1 env now args r =
         Inr (persist env (take_in args (ae_follow now args r)), ae_accept (ae_term args))"
  | (clash) "m_currentTerm r \<le> ae_term args" "AppendEntries1 env now args r = Inl diff_command"
      "\<not> compatible (drop (nat (ae_prevlogindex args - m_lastSnapshotIncludeIndex r)) (m_logs r)) (ae_entries args)"
proof -
  note wf = raft_wfD [OF assms(1)]
  consider "ae_term args < m_currentTerm r"
    | "m_currentTerm r \<le> ae_term args" "ae_prevlogindex args > getLastLogIndex r"
    | "m_currentTerm r \<le> ae_term args" "ae_prevlogindex args < m_lastSnapshotIncludeIndex r"
        "ae_prevlogindex args \<le> getLastLogIndex r"
    | "m_currentTerm r \<le> ae_term args" "m_lastSnapshotIncludeIndex r \<le> ae_prevlogindex args"
        "ae_prevlogindex args \<le> getLastLogIndex r" "ae_prevlogterm args = term_at r (ae_prevlogindex args)"
    | "m_currentTerm r \<le> ae_term args" "m_lastSnapshotIncludeIndex r \<le> ae_prevlogindex args"
        "ae_prevlogindex args \<le> getLastLogIndex r" "ae_prevlogterm args \<noteq> term_at r (ae_prevlogindex args)"
    by linarith
  then show ?thesis
  proof cases
    case 1
    then show ?thesis using stale AppendEntries1_stale by blast
  next
    case 2
    then show ?thesis using reject [of "getLastLogIndex r + 1"] AppendEntries1_follow [OF assms(1) 2(1), of env now] wf by simp
  next
    case 3
    then show ?thesis
      using reject [of "m_lastSnapshotIncludeIndex r + 1"] AppendEntries1_follow [OF assms(1) 3(1), of env now] wf by simp
  next
    case 4
    note eq = AppendEntries1_match [OF assms 4, of env now]
    show ?thesis
      using accept [OF 4] clash [OF 4(1)] eq
      by (cases "compatible (drop (nat (ae_prevlogindex args - m_lastSnapshotIncludeIndex r)) (m_logs r)) (ae_entries args)") auto
  next
    case 5
    obtain j where "m_lastSnapshotIncludeIndex r \<le> j"
      "AppendEntries1 env now args r = Inr (persist env (ae_follow now args r), ae_reject (ae_term args) j)"
      using AppendEntries1_mismatch [OF assms(1) 5, of env now] by blast
    then show ?thesis using reject [OF 5(1), of j] wf(2) by simp
  qed
qed

lemma take_in_wf:
  assumes "raft_wf r" "ae_ok args" "m_lastSnapshotIncludeIndex r \<le> ae_prevlogindex args"
    "ae_prevlogindex args \<le> getLastLogIndex r"
  shows "raft_wf (take_in args r)"
proof -
  note l = append_loop_follow(2,3) [OF assms] and wf = raft_wfD [OF assms(1)]
  let ?t = "take_in args r"
  have "length (m_logs r) \<le> length (m_logs ?t)"
    using length_overwrite [OF l(1), of "ae_entries args"] by (simp add: take_in_def Let_def)
  then have c: "m_commitIndex r \<le> m_commitIndex ?t"
    "m_commitIndex ?t \<le> m_lastSnapshotIncludeIndex r + int (length (m_logs ?t))"
    using wf(4) by (auto simp: take_in_def Let_def)
  have "m_lastApplied r \<le> max (m_commitIndex ?t) (m_lastSnapshotIncludeIndex r)" "0 \<le> m_commitIndex ?t"
    using c wf by linarith+
  moreover have "m_lastApplied ?t = m_lastApplied r" "m_lastSnapshotIncludeIndex ?t = m_lastSnapshotIncludeIndex r"
    "m_nextIndex ?t = m_nextIndex r" "m_matchIndex ?t = m_matchIndex r" "m_peers ?t = m_peers r" "m_me ?t = m_me r"
    "log_ok ?t = log_ok (r\<lparr>m_logs := m_logs ?t\<rparr>)" "m_logs ?t = m_logs (r\<lparr>m_logs := m_logs ?t\<rparr>)"
    by (simp_all add: take_in_def Let_def log_ok_def)
  moreover have "log_ok ?t" using l(2) by (simp add: take_in_def Let_def log_ok_def)
  ultimately show ?thesis using c wf by (simp add: raft_wf_def)
qed

lemma AppendEntries1_wf:
  assumes "raft_wf r" "ae_ok args" "AppendEntries1 env now args r = Inr (r', reply)"
  shows "raft_wf r'"
  using assms(1,2)
  by (rule AppendEntries1_elim [where env = env and now = now]) (use assms in \<open>auto intro!: take_in_wf\<close>)

end
