(* ===== verification/Raft_Handlers.thy ===== *)
theory Raft_Handlers
  imports Raft_Wf
begin

text \<open>
  The other handlers of the node in closed form, that they keep \<open>raft_wf\<close>, and when the
  leader's operations run without a failed assertion.
\<close>

section \<open>Votes\<close>

text \<open>\<open>RequestVote\<close> always answers.\<close>

lemma RequestVote_eq:
  "RequestVote env now args r = Inr
     (if rv_term args < m_currentTerm r
      then (persist env r, \<lparr>rvr_term = m_currentTerm r, rvr_votegranted = False, rvr_votestate = Expire\<rparr>)
      else let f = step_down (rv_term args) r in
        if UpToDate r (rv_lastlogindex args) (rv_lastlogterm args) \<and>
           (m_votedFor f = -1 \<or> m_votedFor f = rv_candidateid args)
        then (persist env (f\<lparr>m_votedFor := rv_candidateid args, m_lastResetElectionTime := now\<rparr>),
              \<lparr>rvr_term = rv_term args, rvr_votegranted = True, rvr_votestate = Normal\<rparr>)
        else (persist env f, \<lparr>rvr_term = rv_term args, rvr_votegranted = False, rvr_votestate = Voted\<rparr>))"
proof (cases "rv_term args < m_currentTerm r")
  case True
  then show ?thesis by (simp add: RequestVote_def)
next
  case False
  let ?f = "step_down (rv_term args) r"
  have f: "(if m_currentTerm r < rv_term args
     then r\<lparr>m_status := Follower, m_currentTerm := rv_term args, m_votedFor := - 1\<rparr> else r) = ?f"
    by (simp add: step_down_def)
  have t: "m_currentTerm ?f = rv_term args" using False by simp
  have u: "UpToDate ?f = UpToDate r" by (intro ext) (simp add: UpToDate_def)
  show ?thesis
    using False by (auto simp: RequestVote_def f Let_def t u)
qed

lemma RequestVote_wf: "raft_wf r \<Longrightarrow> RequestVote env now args r = Inr (r', reply) \<Longrightarrow> raft_wf r'"
  by (auto simp: RequestVote_eq Let_def raft_wf_unfold split: if_splits)

lemma doElection_wf: "raft_wf r \<Longrightarrow> doElection env now r = (r', reqs) \<Longrightarrow> raft_wf r'"
  by (auto simp: doElection_def Let_def raft_wf_unfold split: if_splits)

lemma appendNoop_fields [simp]:
  "m_peers (appendNoopEntryLocked env r) = m_peers r" "m_me (appendNoopEntryLocked env r) = m_me r"
  "m_currentTerm (appendNoopEntryLocked env r) = m_currentTerm r"
  "m_votedFor (appendNoopEntryLocked env r) = m_votedFor r"
  "m_commitIndex (appendNoopEntryLocked env r) = m_commitIndex r"
  "m_lastApplied (appendNoopEntryLocked env r) = m_lastApplied r"
  "m_nextIndex (appendNoopEntryLocked env r) = m_nextIndex r"
  "m_matchIndex (appendNoopEntryLocked env r) = m_matchIndex r"
  "m_status (appendNoopEntryLocked env r) = m_status r"
  "m_persister (appendNoopEntryLocked env r) = m_persister r"
  "m_lastSnapshotIncludeIndex (appendNoopEntryLocked env r) = m_lastSnapshotIncludeIndex r"
  "m_lastSnapshotIncludeTerm (appendNoopEntryLocked env r) = m_lastSnapshotIncludeTerm r"
  by (simp_all add: appendNoopEntryLocked_def Let_def)

lemma log_ok_append:
  "log_ok r \<Longrightarrow> logindex e = getNewCommandIndex r \<Longrightarrow> log_ok (r\<lparr>m_logs := m_logs r @ [e]\<rparr>)"
  using getLastLogIndex_eq [of r]
  by (simp add: log_ok_def indexed_from_append indexed_from_Cons getNewCommandIndex_def)

lemma append_wf:
  "raft_wf r \<Longrightarrow> logindex e = getNewCommandIndex r \<Longrightarrow> raft_wf (r\<lparr>m_logs := m_logs r @ [e]\<rparr>)"
  using log_ok_append [of r e] by (simp add: raft_wf_def)

lemma appendNoop_wf: "raft_wf r \<Longrightarrow> raft_wf (appendNoopEntryLocked env r)"
  unfolding appendNoopEntryLocked_def Let_def by (rule append_wf) simp_all

definition become_leader :: "raft_env \<Rightarrow> raft \<Rightarrow> raft" where
  "become_leader env r = persist env (appendNoopEntryLocked env
     (r\<lparr>m_status := Leader, m_nextIndex := replicate (m_peers r) (getLastLogIndex r + 1),
        m_matchIndex := replicate (m_peers r) 0\<rparr>))"

lemma become_leader_wf: "raft_wf r \<Longrightarrow> raft_wf (become_leader env r)"
proof -
  assume "raft_wf r"
  then have "raft_wf (r\<lparr>m_status := Leader, m_nextIndex := replicate (m_peers r) (getLastLogIndex r + 1),
        m_matchIndex := replicate (m_peers r) 0\<rparr>)" by (simp add: raft_wf_unfold)
  then show ?thesis by (simp add: become_leader_def appendNoop_wf)
qed

definition wins :: "raft \<Rightarrow> int \<Rightarrow> bool" where
  "wins r n \<longleftrightarrow> n \<ge> int (m_peers r div 2 + 1)"

lemma sendRequestVote_eq:
  assumes "raft_wf r"
  shows "sendRequestVote env (Some reply) n r =
    (if rvr_term reply > m_currentTerm r then Inr (persist env (step_down (rvr_term reply) r), n, False)
     else if rvr_term reply = m_currentTerm r \<and> rvr_votegranted reply
     then if wins r (n + 1)
          then if m_status r = Leader then Inl (AssertFail ''sendRequestVote: leader twice in one term'')
               else Inr (become_leader env r, 0, True)
          else Inr (r, n + 1, False)
     else Inr (r, n, False))"
proof -
  note wf = raft_wfD [OF assms]
  show ?thesis
    using wf(7,8) by (simp add: sendRequestVote_def step_down_def wins_def become_leader_def Let_def assertE_def)
qed

lemma sendRequestVote_None: "sendRequestVote env None n r = Inr (r, n, False)"
  by (simp add: sendRequestVote_def)

lemma sendRequestVote_wf:
  assumes "raft_wf r" "sendRequestVote env rpc n r = Inr (r', n', hb)"
  shows "raft_wf r'"
  using assms
  by (cases rpc) (auto simp: sendRequestVote_eq sendRequestVote_None become_leader_wf split: if_splits)

section \<open>Snapshots\<close>

definition install :: "raft_env \<Rightarrow> InstallSnapshotRequest \<Rightarrow> raft \<Rightarrow> raft" where
  "install env args r =
     (let k = is_lastsnapshotincludeindex args;
          f = r\<lparr>m_logs := drop (nat (k - m_lastSnapshotIncludeIndex r)) (m_logs r),
                m_commitIndex := max (m_commitIndex r) k, m_lastApplied := max (m_lastApplied r) k,
                m_lastSnapshotIncludeIndex := k, m_lastSnapshotIncludeTerm := is_lastsnapshotincludeterm args\<rparr>
      in f\<lparr>m_persister := Save (file_open env) (persistData env f) (is_data args) (m_persister f)\<rparr>)"

definition is_follow :: "raft_env \<Rightarrow> int \<Rightarrow> InstallSnapshotRequest \<Rightarrow> raft \<Rightarrow> raft" where
  "is_follow env now args r =
     (if is_term args > m_currentTerm r then persist env (step_down (is_term args) r) else r)
     \<lparr>m_status := Follower, m_lastResetElectionTime := now\<rparr>"

lemma is_follow_fields [simp]:
  "m_logs (is_follow env now args r) = m_logs r" "m_commitIndex (is_follow env now args r) = m_commitIndex r"
  "m_lastSnapshotIncludeIndex (is_follow env now args r) = m_lastSnapshotIncludeIndex r"
  "m_lastSnapshotIncludeTerm (is_follow env now args r) = m_lastSnapshotIncludeTerm r"
  "m_currentTerm (is_follow env now args r) = max (is_term args) (m_currentTerm r)"
  "m_lastApplied (is_follow env now args r) = m_lastApplied r" "m_peers (is_follow env now args r) = m_peers r"
  "m_me (is_follow env now args r) = m_me r" "m_nextIndex (is_follow env now args r) = m_nextIndex r"
  "m_matchIndex (is_follow env now args r) = m_matchIndex r"
  "m_status (is_follow env now args r) = Follower"
  "getLastLogIndex (is_follow env now args r) = getLastLogIndex r"
  "log_ok (is_follow env now args r) = log_ok r" "raft_wf (is_follow env now args r) = raft_wf r"
  by (auto simp: is_follow_def raft_wf_unfold)

definition snapshot_msg :: "InstallSnapshotRequest \<Rightarrow> ApplyMsg" where
  "snapshot_msg args = ApplyMsg_new\<lparr>SnapshotValid := True, Snapshot := is_data args,
     SnapshotTerm := is_lastsnapshotincludeterm args, SnapshotIndex := is_lastsnapshotincludeindex args\<rparr>"

text \<open>\<open>InstallSnapshot\<close> never fails on a well-formed node.\<close>

lemma InstallSnapshot_eq:
  assumes "raft_wf r"
  shows "InstallSnapshot env now args r = Inr
    (if is_term args < m_currentTerm r then (r, \<lparr>isr_term = m_currentTerm r\<rparr>, None)
     else let f = is_follow env now args r in
       if is_lastsnapshotincludeindex args \<le> m_lastSnapshotIncludeIndex r then (f, InstallSnapshotResponse_new, None)
       else (install env args f, \<lparr>isr_term = is_term args\<rparr>, Some (snapshot_msg args)))"
proof -
  let ?k = "is_lastsnapshotincludeindex args" and ?s = "m_lastSnapshotIncludeIndex r"
  let ?f = "is_follow env now args r"
  have f: "(if is_term args > m_currentTerm r
       then persist env (r\<lparr>m_currentTerm := is_term args, m_votedFor := -1, m_status := Follower\<rparr>) else r)
     \<lparr>m_status := Follower, m_lastResetElectionTime := now\<rparr> = ?f"
  proof -
    have "persist env (r\<lparr>m_currentTerm := is_term args, m_votedFor := -1, m_status := Follower\<rparr>) =
      persist env (r\<lparr>m_status := Follower, m_currentTerm := is_term args, m_votedFor := -1\<rparr>)"
      by (rule arg_cong [of _ _ "persist env"], rule raft.equality) simp_all
    then show ?thesis by (simp add: is_follow_def step_down_def)
  qed
  note wf = raft_wfD [OF assms]
  have logs: "(if getLastLogIndex ?f > ?k
      then bindE (getSlicesIndexFromLogIndex ?f ?k) (\<lambda>i. Inr (drop (nat i + 1) (m_logs ?f)))
      else Inr []) = Inr (drop (nat (?k - ?s)) (m_logs r))" if "?s < ?k"
  proof (cases "getLastLogIndex r > ?k")
    case True
    have "nat (?k - ?s - 1) + 1 = nat (?k - ?s)" using that by linarith
    then show ?thesis using True that by (simp add: getSlicesIndexFromLogIndex_def)
  next
    case False
    then show ?thesis using wf(11) by simp
  qed
  have t: "m_currentTerm ?f = is_term args" if "\<not> is_term args < m_currentTerm r" using that by simp
  have sn: "m_lastSnapshotIncludeIndex ?f = ?s" by simp
  consider "is_term args < m_currentTerm r" | "\<not> is_term args < m_currentTerm r" "?k \<le> ?s"
    | "\<not> is_term args < m_currentTerm r" "?s < ?k" by linarith
  then show ?thesis
  proof cases
    case 1
    then show ?thesis by (simp add: InstallSnapshot_def InstallSnapshotResponse_new_def Let_def)
  next
    case 2
    then show ?thesis unfolding InstallSnapshot_def Let_def f sn by simp
  next
    case 3
    then show ?thesis
      using logs [OF 3(2)] t [OF 3(1)]
      unfolding InstallSnapshot_def Let_def f sn
      by (simp add: install_def Let_def snapshot_msg_def InstallSnapshotResponse_new_def del: is_follow_fields(5))
  qed
qed

lemma install_wf:
  assumes "raft_wf r" "m_lastSnapshotIncludeIndex r < is_lastsnapshotincludeindex args"
  shows "raft_wf (install env args r)"
proof -
  let ?k = "nat (is_lastsnapshotincludeindex args - m_lastSnapshotIncludeIndex r)"
  note wf = raft_wfD [OF assms(1)]
  have "indexed_from (m_lastSnapshotIncludeIndex r + 1 + int ?k) (drop ?k (m_logs r))"
    using wf(1) indexed_from_drop [of "m_lastSnapshotIncludeIndex r + 1" "m_logs r" ?k]
    by (cases "?k \<le> length (m_logs r)") (auto simp: log_ok_def)
  moreover have "m_lastSnapshotIncludeIndex r + 1 + int ?k = is_lastsnapshotincludeindex args + 1"
    using assms(2) by simp
  ultimately have "indexed_from (is_lastsnapshotincludeindex args + 1) (drop ?k (m_logs r))" by (simp only:)
  moreover have "max (m_lastApplied r) (is_lastsnapshotincludeindex args) \<le>
      max (max (m_commitIndex r) (is_lastsnapshotincludeindex args)) (is_lastsnapshotincludeindex args)"
    "max (m_commitIndex r) (is_lastsnapshotincludeindex args) \<le>
      is_lastsnapshotincludeindex args + int (length (m_logs r) - ?k)"
    using wf assms(2) by linarith+
  ultimately show ?thesis
    using wf assms(2) by (simp add: install_def Let_def raft_wf_unfold)
qed

lemma InstallSnapshot_wf:
  assumes "raft_wf r" "InstallSnapshot env now args r = Inr (r', reply, msg)"
  shows "raft_wf r'"
  using assms(2) unfolding InstallSnapshot_eq [OF assms(1)]
  using assms(1) by (auto simp: Let_def intro!: install_wf split: if_splits)

text \<open>\<open>Snapshot\<close> cuts the log; its last index stays.\<close>

definition cut_log :: "raft_env \<Rightarrow> int \<Rightarrow> string \<Rightarrow> raft \<Rightarrow> raft" where
  "cut_log env index snapshot r =
     (let f = r\<lparr>m_lastSnapshotIncludeIndex := index, m_lastSnapshotIncludeTerm := term_at r index,
                m_logs := drop (nat (index - m_lastSnapshotIncludeIndex r)) (m_logs r),
                m_commitIndex := max (m_commitIndex r) index, m_lastApplied := max (m_lastApplied r) index\<rparr>
      in f\<lparr>m_persister := Save (file_open env) (persistData env f) snapshot (m_persister f)\<rparr>)"

lemma logs_from_index:
  assumes "raft_wf r" "m_lastSnapshotIncludeIndex r < index" "index \<le> getLastLogIndex r"
  shows "mapE (log_at r) [index + 1..getLastLogIndex r] =
    Inr (drop (nat (index - m_lastSnapshotIncludeIndex r)) (m_logs r))"
proof -
  let ?s = "m_lastSnapshotIncludeIndex r"
  have "mapE (log_at r) [index + 1..getLastLogIndex r] =
      Inr (map (\<lambda>i. m_logs r ! nat (i - ?s - 1)) [index + 1..getLastLogIndex r])"
    using assms by (intro mapE_Inr log_at_ok) (auto dest: raft_wfD)
  moreover have "map (\<lambda>i. m_logs r ! nat (i - ?s - 1)) [index + 1..getLastLogIndex r] =
      drop (nat (index - ?s)) (m_logs r)"
    using assms raft_wfD(11) [OF assms(1)]
    by (intro nth_equalityI) (auto simp: nth_drop nat_add_distrib algebra_simps intro!: arg_cong [of _ _ "(!) (m_logs r)"])
  ultimately show ?thesis by simp
qed

lemma Raft_Snapshot_eq:
  assumes "raft_wf r"
  shows "Raft_Snapshot env index snapshot r = Inr
    (if m_lastSnapshotIncludeIndex r \<ge> index \<or> index > m_commitIndex r then r else cut_log env index snapshot r)"
proof (cases "m_lastSnapshotIncludeIndex r \<ge> index \<or> index > m_commitIndex r")
  case True
  then show ?thesis by (simp add: Raft_Snapshot_def)
next
  case False
  note wf = raft_wfD [OF assms]
  let ?k = "nat (index - m_lastSnapshotIncludeIndex r)"
  from False have i: "m_lastSnapshotIncludeIndex r < index" "index \<le> getLastLogIndex r" using wf(4,11) by auto
  have at: "log_at r index = Inr (m_logs r ! nat (index - m_lastSnapshotIncludeIndex r - 1))"
    using log_at_ok [OF wf(1) i] .
  have len: "int (length (drop ?k (m_logs r))) + index = getLastLogIndex r"
    using i wf(11) by simp
  have "Raft_Snapshot env index snapshot r = Inr (cut_log env index snapshot r)"
    using False len i at logs_from_index [OF assms i]
    by (simp add: Raft_Snapshot_def cut_log_def Let_def term_at_def)
  then show ?thesis using False by simp
qed

lemma cut_log_wf:
  assumes "raft_wf r" "m_lastSnapshotIncludeIndex r < index" "index \<le> m_commitIndex r"
  shows "raft_wf (cut_log env index snapshot r)"
    and "getLastLogIndex (cut_log env index snapshot r) = getLastLogIndex r"
proof -
  let ?k = "nat (index - m_lastSnapshotIncludeIndex r)"
  note wf = raft_wfD [OF assms(1)]
  have k: "?k \<le> length (m_logs r)" "m_lastSnapshotIncludeIndex r + 1 + int ?k = index + 1" using assms wf by auto
  then have "indexed_from (index + 1) (drop ?k (m_logs r))"
    using wf(1) indexed_from_drop [of "m_lastSnapshotIncludeIndex r + 1" "m_logs r" ?k]
    by (simp only: log_ok_def)
  then show *: "raft_wf (cut_log env index snapshot r)"
    using wf assms k by (auto simp: cut_log_def Let_def raft_wf_unfold max_def)
  show "getLastLogIndex (cut_log env index snapshot r) = getLastLogIndex r"
    using raft_wfD(11) [OF *] wf(11) k by (simp add: cut_log_def Let_def)
qed

lemma Raft_Snapshot_wf:
  assumes "raft_wf r" "Raft_Snapshot env index snapshot r = Inr r'"
  shows "raft_wf r'"
  using assms(2) unfolding Raft_Snapshot_eq [OF assms(1)]
  using assms(1) by (auto intro: cut_log_wf split: if_splits)

end
