(* ===== verification/Raft_Leader.thy ===== *)
theory Raft_Leader
  imports Raft_Handlers
begin

text \<open>
  The leader's operations: what a heartbeat sends, what a reply changes, that no assertion fires as long
  as the replicated indices stay in the leader's log (\<open>leader_ok\<close>), and which entries are handed to
  the KV server.  Last, restart: the state a node comes back with.
\<close>

definition leader_ok :: "raft \<Rightarrow> bool" where
  "leader_ok r \<longleftrightarrow> (\<forall>i < m_peers r.
     1 \<le> m_nextIndex r ! i \<and> m_nextIndex r ! i \<le> getLastLogIndex r + 1 \<and>
     0 \<le> m_matchIndex r ! i \<and> m_matchIndex r ! i \<le> getLastLogIndex r)"

lemma leader_ok_upd:
  assumes "leader_ok r" "i < m_peers r" "1 \<le> n" "n \<le> getLastLogIndex r + 1" "0 \<le> m" "m \<le> getLastLogIndex r"
    "raft_wf r"
  shows "leader_ok (r\<lparr>m_matchIndex := (m_matchIndex r)[i := m], m_nextIndex := (m_nextIndex r)[i := n]\<rparr>)"
    "leader_ok (r\<lparr>m_nextIndex := (m_nextIndex r)[i := n]\<rparr>)"
  using assms raft_wfD(7,8) [OF assms(7)]
  by (auto simp: leader_ok_def nth_list_update)

lemma become_leader_ok: "raft_wf r \<Longrightarrow> leader_ok (become_leader env r)"
proof -
  assume wf: "raft_wf r"
  have "getLastLogIndex (become_leader env r) = getLastLogIndex r + 1"
    by (simp add: become_leader_def appendNoopEntryLocked_def Let_def getLastLogIndex_def
        getLastLogIndexAndTerm_def getNewCommandIndex_def)
  moreover have "0 \<le> getLastLogIndex r" using raft_wfD(2,11) [OF wf] by simp
  ultimately show ?thesis
    by (simp add: leader_ok_def) (simp add: become_leader_def)
qed

section \<open>New commands\<close>

definition new_entry :: "raft_env \<Rightarrow> Op \<Rightarrow> raft \<Rightarrow> LogEntry" where
  "new_entry env cmd r = \<lparr>command = asString env cmd, logterm = m_currentTerm r, logindex = getLastLogIndex r + 1\<rparr>"

lemma Start_eq:
  "Start env cmd r =
     (if m_status r \<noteq> Leader then (r, -1, -1, False)
      else (persist env (r\<lparr>m_logs := m_logs r @ [new_entry env cmd r]\<rparr>),
            getLastLogIndex r + 1, m_currentTerm r, True))"
  by (simp add: Start_def new_entry_def getNewCommandIndex_def Let_def)

lemma Start_wf: "raft_wf r \<Longrightarrow> Start env cmd r = (r', i, t, b) \<Longrightarrow> raft_wf r'"
  by (auto simp: Start_eq new_entry_def getNewCommandIndex_def intro!: append_wf split: if_splits)

lemma Start_leader_ok:
  assumes "raft_wf r" "leader_ok r" "Start env cmd r = (r', i, t, b)"
  shows "leader_ok r'"
proof (cases "m_status r = Leader")
  case True
  have wf': "raft_wf r'" using Start_wf assms by blast
  have "getLastLogIndex r' = getLastLogIndex r + 1"
    using True assms raft_wfD(11) [OF wf'] raft_wfD(11) [OF assms(1)] by (auto simp: Start_eq)
  then show ?thesis using assms True by (auto simp: leader_ok_def Start_eq)
next
  case False
  then show ?thesis using assms by (auto simp: Start_eq)
qed

section \<open>Heartbeats\<close>

definition entries_after :: "raft \<Rightarrow> int \<Rightarrow> LogEntry list" where
  "entries_after r i = drop (nat (i - m_lastSnapshotIncludeIndex r)) (m_logs r)"

definition ae_request :: "raft \<Rightarrow> int \<Rightarrow> AppendEntriesArgs" where
  "ae_request r prev = \<lparr>ae_term = m_currentTerm r, ae_leaderid = m_me r, ae_prevlogindex = prev,
     ae_prevlogterm = term_at r prev, ae_entries = entries_after r prev, ae_leadercommit = m_commitIndex r\<rparr>"

lemma ae_request_ok:
  assumes "raft_wf r" "m_lastSnapshotIncludeIndex r \<le> prev" "prev \<le> getLastLogIndex r"
  shows "ae_ok (ae_request r prev)"
    and "prev + int (length (entries_after r prev)) = getLastLogIndex r"
proof -
  let ?k = "nat (prev - m_lastSnapshotIncludeIndex r)"
  have k: "?k \<le> length (m_logs r)" "m_lastSnapshotIncludeIndex r + 1 + int ?k = prev + 1"
    using assms raft_wfD(11) [OF assms(1)] by auto
  then show "ae_ok (ae_request r prev)"
    using raft_wfD(1) [OF assms(1)] indexed_from_drop [of "m_lastSnapshotIncludeIndex r + 1" "m_logs r" ?k]
    by (simp only: ae_ok_def ae_request_def entries_after_def log_ok_def AppendEntriesArgs.simps)
  show "prev + int (length (entries_after r prev)) = getLastLogIndex r"
    using assms raft_wfD(11) [OF assms(1)] by (auto simp: entries_after_def)
qed

lemma getPrevLogInfo_ok:
  assumes "raft_wf r" "0 \<le> i" "i < int (m_peers r)"
    "m_lastSnapshotIncludeIndex r < m_nextIndex r ! nat i" "m_nextIndex r ! nat i \<le> getLastLogIndex r + 1"
  shows "getPrevLogInfo r i = Inr (m_nextIndex r ! nat i - 1, term_at r (m_nextIndex r ! nat i - 1))"
proof -
  note wf = raft_wfD [OF assms(1)]
  show ?thesis
  proof (cases "m_nextIndex r ! nat i = m_lastSnapshotIncludeIndex r + 1")
    case True
    then show ?thesis using assms wf by (simp add: getPrevLogInfo_def term_at_def)
  next
    case False
    then have "log_at r (m_nextIndex r ! nat i - 1) =
        Inr (m_logs r ! nat (m_nextIndex r ! nat i - 1 - m_lastSnapshotIncludeIndex r - 1))"
      using assms wf by (intro log_at_ok) auto
    then show ?thesis using False assms wf by (simp add: getPrevLogInfo_def term_at_def)
  qed
qed

lemma heartbeat_args_ok:
  assumes "raft_wf r" "0 \<le> i" "i < int (m_peers r)"
    "m_lastSnapshotIncludeIndex r < m_nextIndex r ! nat i" "m_nextIndex r ! nat i \<le> getLastLogIndex r + 1"
  shows "heartbeat_args r i = Inr (ae_request r (m_nextIndex r ! nat i - 1))"
proof -
  let ?p = "m_nextIndex r ! nat i - 1" and ?s = "m_lastSnapshotIncludeIndex r"
  note wf = raft_wfD [OF assms(1)]
  have p: "?s \<le> ?p" "?p \<le> getLastLogIndex r" using assms by auto
  have e: "(if ?p \<noteq> ?s then bindE (getSlicesIndexFromLogIndex r ?p) (\<lambda>j. Inr (drop (nat (j + 1)) (m_logs r)))
      else Inr (m_logs r)) = Inr (entries_after r ?p)"
  proof (cases "?p = ?s")
    case True
    then show ?thesis by (simp add: entries_after_def)
  next
    case False
    then have "getSlicesIndexFromLogIndex r ?p = Inr (?p - ?s - 1)" using p wf by (intro getSlices_ok) auto
    then show ?thesis using False by (simp add: entries_after_def diff_right_commute)
  qed
  show ?thesis
    unfolding heartbeat_args_def getPrevLogInfo_ok [OF assms] bindE_simps prod.case e
    using ae_request_ok(2) [OF assms(1) p] by (simp add: ae_request_def)
qed

text \<open>What a heartbeat sends to one peer.\<close>

definition beat :: "raft \<Rightarrow> int \<Rightarrow> heartbeat" where
  "beat r i = (if m_nextIndex r ! nat i \<le> m_lastSnapshotIncludeIndex r then SendSnapShot i
     else SendAppendEntries i (ae_request r (m_nextIndex r ! nat i - 1)))"

lemma heartbeat_loop_ok:
  assumes "raft_wf r" "leader_ok r" "\<forall>i \<in> set is. 0 \<le> i \<and> i < int (m_peers r)"
  shows "heartbeat_loop r is = Inr (map (beat r) (filter (\<lambda>i. i \<noteq> m_me r) is))"
  using assms(3)
proof (induction "is")
  case (Cons i "is")
  have n: "nat i < m_peers r" "nat i < length (m_nextIndex r)"
    using Cons.prems raft_wfD(7) [OF assms(1)] by auto
  then have "1 \<le> m_nextIndex r ! nat i" "m_nextIndex r ! nat i \<le> getLastLogIndex r + 1"
    using assms(2) by (auto simp: leader_ok_def)
  then show ?case
    using Cons n heartbeat_args_ok [OF assms(1), of i] by (auto simp: beat_def not_le)
qed simp

lemma doHeartBeat_ok:
  assumes "raft_wf r" "leader_ok r" "m_status r = Leader"
  shows "doHeartBeat now r = Inr (r\<lparr>m_lastResetHearBeatTime := now\<rparr>,
    Some (1, map (beat r) (filter (\<lambda>i. i \<noteq> m_me r) [0..int (m_peers r) - 1])))"
proof -
  have "\<forall>i \<in> set [0..int (m_peers r) - 1]. 0 \<le> i \<and> i < int (m_peers r)" by auto
  from heartbeat_loop_ok [OF assms(1,2) this] show ?thesis
    using assms(3) by (simp add: doHeartBeat_def)
qed

lemma doHeartBeat_wf: "raft_wf r \<Longrightarrow> doHeartBeat now r = Inr (r', msgs) \<Longrightarrow> raft_wf r'"
  by (auto simp: doHeartBeat_def bindE_Inr_iff raft_wf_unfold split: if_splits)

section \<open>Replies\<close>

definition ae_end :: "AppendEntriesArgs \<Rightarrow> int" where
  "ae_end args = ae_prevlogindex args + int (length (ae_entries args))"

text \<open>The commit index after the reply that completes a majority.\<close>

definition commit_to :: "AppendEntriesArgs \<Rightarrow> raft \<Rightarrow> raft" where
  "commit_to args r = r\<lparr>m_commitIndex :=
     (if ae_entries args \<noteq> [] \<and> logterm (last (ae_entries args)) = m_currentTerm r
      then max (m_commitIndex r) (ae_end args) else m_commitIndex r)\<rparr>"

definition acknowledge :: "int \<Rightarrow> AppendEntriesArgs \<Rightarrow> raft \<Rightarrow> raft" where
  "acknowledge server args r =
     (let m = max (m_matchIndex r ! nat server) (ae_end args)
      in r\<lparr>m_matchIndex := (m_matchIndex r)[nat server := m], m_nextIndex := (m_nextIndex r)[nat server := m + 1]\<rparr>)"

lemma commit_noop: "r\<lparr>m_commitIndex := m_commitIndex r\<rparr> = r"
  by (rule raft.equality) simp_all

lemma sendAppendEntries_eq:
  assumes "raft_wf r" "leader_ok r" "0 \<le> server" "server < int (m_peers r)" "ae_end args \<le> getLastLogIndex r"
  shows "sendAppendEntries server args (Some reply) n r = Inr
    (if aer_appstate reply = Disconnected then (r, n)
     else if aer_term reply > m_currentTerm r then (step_down (aer_term reply) r, n)
     else if aer_term reply < m_currentTerm r \<or> m_status r \<noteq> Leader then (r, n)
     else if aer_success reply
     then if wins r (n + 1) then (commit_to args (acknowledge server args r), 0)
          else (acknowledge server args r, n + 1)
     else if aer_updatenextindex reply = -100 then (r, n)
     else (r\<lparr>m_nextIndex := (m_nextIndex r)[nat server := aer_updatenextindex reply]\<rparr>, n))"
proof -
  note wf = raft_wfD [OF assms(1)]
  let ?a = "acknowledge server args r"
  have i: "nat server < m_peers r" "server < int (length (m_nextIndex r))" "server < int (length (m_matchIndex r))"
    using assms wf by auto
  have m: "m_matchIndex r ! nat server \<le> getLastLogIndex r" using assms(2) i by (auto simp: leader_ok_def)
  have c: "m_commitIndex r \<le> getLastLogIndex r" using wf(4,11) by simp
  have a: "getLastLogIndex ?a = getLastLogIndex r" "m_commitIndex ?a = m_commitIndex r"
    "m_currentTerm ?a = m_currentTerm r"
    by (simp_all add: acknowledge_def Let_def)
  have ct: "commit_to args ?a =
      (if ae_entries args \<noteq> [] \<and> logterm (last (ae_entries args)) = m_currentTerm r
       then ?a\<lparr>m_commitIndex := max (m_commitIndex r) (ae_end args)\<rparr> else ?a)"
    using commit_noop [of ?a] a by (simp add: commit_to_def)
  have w: "wins r k \<longleftrightarrow> int (1 + m_peers r div 2) \<le> k" for k by (simp add: wins_def)
  show ?thesis
  proof (cases "aer_term reply = m_currentTerm r \<and> m_status r = Leader \<and> aer_success reply")
    case True
    then show ?thesis
      using i m c assms(3,5)
      by (simp add: sendAppendEntries_def ct w Let_def)
        (auto simp: acknowledge_def Let_def ae_end_def max_def)
  next
    case False
    then show ?thesis
      using i assms(3) by (auto simp: sendAppendEntries_def step_down_def)
  qed
qed

lemma sendAppendEntries_None: "sendAppendEntries server args None n r = Inr (r, n)"
  by (simp add: sendAppendEntries_def)

text \<open>The commit index never moves backwards and never passes the end of the log.\<close>

lemma acknowledge_ok:
  assumes "raft_wf r" "leader_ok r" "0 \<le> server" "server < int (m_peers r)" "ae_end args \<le> getLastLogIndex r"
  shows "raft_wf (acknowledge server args r)" "leader_ok (acknowledge server args r)"
    "raft_wf (commit_to args (acknowledge server args r))" "leader_ok (commit_to args (acknowledge server args r))"
proof -
  let ?a = "acknowledge server args r"
  note wf = raft_wfD [OF assms(1)]
  have i: "nat server < m_peers r" using assms by auto
  show wfa: "raft_wf ?a" using assms(1) by (simp add: acknowledge_def Let_def raft_wf_unfold)
  have m: "0 \<le> m_matchIndex r ! nat server" "m_matchIndex r ! nat server \<le> getLastLogIndex r"
    using assms(2) i by (auto simp: leader_ok_def)
  show la: "leader_ok ?a"
    unfolding acknowledge_def Let_def using assms i m
    by (intro leader_ok_upd) auto
  have "ae_end args \<le> m_lastSnapshotIncludeIndex r + int (length (m_logs r))" using assms(5) wf(11) by simp
  then show "raft_wf (commit_to args ?a)"
    using wf by (auto simp: commit_to_def raft_wf_unfold acknowledge_def Let_def)
  show "leader_ok (commit_to args ?a)" using la by (simp add: leader_ok_def commit_to_def)
qed

lemma leaderSendSnapShot_reply_eq:
  assumes "raft_wf r" "0 \<le> server" "server < int (m_peers r)"
  shows "leaderSendSnapShot_reply env now server args (Some reply) r = Inr
    (if m_status r \<noteq> Leader \<or> m_currentTerm r \<noteq> is_term args then r
     else if isr_term reply > m_currentTerm r
     then (persist env (step_down (isr_term reply) r))\<lparr>m_lastResetElectionTime := now\<rparr>
     else r\<lparr>m_matchIndex := (m_matchIndex r)[nat server := is_lastsnapshotincludeindex args],
            m_nextIndex := (m_nextIndex r)[nat server := is_lastsnapshotincludeindex args + 1]\<rparr>)"
proof -
  have "persist env (r\<lparr>m_currentTerm := t, m_votedFor := -1, m_status := Follower\<rparr>) =
      persist env (r\<lparr>m_status := Follower, m_currentTerm := t, m_votedFor := -1\<rparr>)" for t
    by (rule arg_cong [of _ _ "persist env"], rule raft.equality) simp_all
  then show ?thesis
    using assms raft_wfD(7,8) [OF assms(1)] by (simp add: leaderSendSnapShot_reply_def step_down_def)
qed

section \<open>Applying\<close>

definition command_msg :: "LogEntry \<Rightarrow> ApplyMsg" where
  "command_msg e = ApplyMsg_new\<lparr>CommandValid := True, Command := command e, CommandIndex := logindex e\<rparr>"

text \<open>The entries with index in the half-open interval from \<open>i\<close> to \<open>j\<close>.\<close>

definition entries_between :: "raft \<Rightarrow> int \<Rightarrow> int \<Rightarrow> LogEntry list" where
  "entries_between r i j = take (nat (j - i)) (entries_after r i)"

lemma entries_between_Cons:
  assumes "raft_wf r" "m_lastSnapshotIncludeIndex r \<le> i" "i < j" "i < getLastLogIndex r"
  shows "entries_between r i j =
    m_logs r ! nat (i - m_lastSnapshotIncludeIndex r) # entries_between r (i + 1) j"
proof -
  let ?k = "nat (i - m_lastSnapshotIncludeIndex r)"
  have k: "?k < length (m_logs r)" using assms raft_wfD(11) [OF assms(1)] by simp
  have s: "nat (i + 1 - m_lastSnapshotIncludeIndex r) = Suc ?k" "nat (j - i) = Suc (nat (j - (i + 1)))"
    using assms by auto
  show ?thesis
    unfolding entries_between_def entries_after_def s
    by (simp only: Cons_nth_drop_Suc [OF k, symmetric] take_Suc_Cons)
qed

lemma apply_loop_ok:
  assumes "raft_wf r"
  shows "apply_loop r = Inr (r\<lparr>m_lastApplied := max (m_lastApplied r) (m_commitIndex r)\<rparr>,
    map command_msg (entries_between r (m_lastApplied r) (m_commitIndex r)))"
  using assms
proof (induction r rule: apply_loop.induct)
  case (1 r)
  note wf = raft_wfD [OF "1.prems"]
  show ?case
  proof (cases "m_lastApplied r < m_commitIndex r")
    case False
    moreover from False have "r\<lparr>m_lastApplied := max (m_lastApplied r) (m_commitIndex r)\<rparr> = r"
      by (intro raft.equality) auto
    ultimately show ?thesis by (simp add: apply_loop.simps [of r] entries_between_def)
  next
    case True
    let ?r = "r\<lparr>m_lastApplied := m_lastApplied r + 1\<rparr>"
    let ?e = "m_logs r ! nat (m_lastApplied r - m_lastSnapshotIncludeIndex r)"
    have wf': "raft_wf ?r" using "1.prems" True by (auto simp: raft_wf_unfold)
    have at: "log_at ?r (m_lastApplied r + 1) = Inr ?e"
      using log_at_ok [of ?r "m_lastApplied r + 1"] True wf by simp
    have ix: "logindex ?e = m_lastApplied r + 1"
      using log_at_index [of ?r, OF _ at] wf by simp
    have "apply_loop ?r = Inr (?r\<lparr>m_lastApplied := max (m_lastApplied ?r) (m_commitIndex ?r)\<rparr>,
        map command_msg (entries_between ?r (m_lastApplied ?r) (m_commitIndex ?r)))"
      using "1.IH" [OF True refl _ _ wf'] at ix by simp
    moreover have "max (m_lastApplied r + 1) (m_commitIndex r) = max (m_lastApplied r) (m_commitIndex r)"
      using True by simp
    moreover have "entries_between ?r = entries_between r"
      by (intro ext) (simp add: entries_between_def entries_after_def)
    ultimately show ?thesis
      using True at ix entries_between_Cons [OF "1.prems" wf(5) True] wf
      by (simp add: apply_loop.simps [of r] command_msg_def ApplyMsg_new_def)
  qed
qed

lemma getApplyLogs_ok:
  "raft_wf r \<Longrightarrow> getApplyLogs r = Inr (r\<lparr>m_lastApplied := max (m_lastApplied r) (m_commitIndex r)\<rparr>,
    map command_msg (entries_between r (m_lastApplied r) (m_commitIndex r)))"
  using raft_wfD(4,11) [of r] by (simp add: getApplyLogs_def apply_loop_ok)

lemma fold_push: "fold pushMsgToKvServer msgs r = r\<lparr>applyChan := applyChan r @ msgs\<rparr>"
proof (induction msgs arbitrary: r)
  case Nil
  show ?case by (rule raft.equality) simp_all
qed (simp add: pushMsgToKvServer_def)

lemma applied_wf: "raft_wf r \<Longrightarrow> raft_wf (r\<lparr>m_lastApplied := max (m_lastApplied r) (m_commitIndex r)\<rparr>)"
  by (auto simp: raft_wf_unfold)

lemma applierTicker_ok:
  "raft_wf r \<Longrightarrow> applierTicker r = Inr (r\<lparr>m_lastApplied := max (m_lastApplied r) (m_commitIndex r),
     applyChan := applyChan r @ map command_msg (entries_between r (m_lastApplied r) (m_commitIndex r))\<rparr>)"
  by (simp add: applierTicker_def getApplyLogs_ok fold_push)

section \<open>Restart\<close>

text \<open>The node that \<open>init\<close> builds from a persisted node.\<close>

definition restarted :: "int \<Rightarrow> Persister \<Rightarrow> ApplyMsg list \<Rightarrow> raft \<Rightarrow> raft" where
  "restarted now ps q r =
     \<lparr>m_peers = m_peers r, m_persister = ps, m_me = m_me r, m_currentTerm = m_currentTerm r,
      m_votedFor = m_votedFor r, m_logs = m_logs r, m_commitIndex = 0,
      m_lastApplied = m_lastSnapshotIncludeIndex r, m_nextIndex = replicate (m_peers r) 0,
      m_matchIndex = replicate (m_peers r) 0, m_status = Follower, applyChan = q,
      m_lastResetElectionTime = now, m_lastResetHearBeatTime = now,
      m_lastSnapshotIncludeIndex = m_lastSnapshotIncludeIndex r,
      m_lastSnapshotIncludeTerm = m_lastSnapshotIncludeTerm r\<rparr>"

lemma init_persisted:
  assumes "codecs_ok env" "raft_wf r" "ReadRaftState ps = persistData env r"
  shows "init env now (m_peers r) (m_me r) ps q = Inr (restarted now ps q r)"
proof -
  note codec = codecs_okD [OF assms(1)]
  have "map (entry_parse env \<circ> entry_serialize env) (m_logs r) = m_logs r"
    by (rule map_idI) (simp add: codec)
  then show ?thesis
    using assms(3) codec raft_wfD(2) [OF assms(2)]
    by (simp add: init_def readPersist_def persistData_def restarted_def Let_def)
qed

lemma init_fresh:
  assumes "ReadRaftState ps = []"
  shows "init env now n me ps q = Inr
    \<lparr>m_peers = n, m_persister = ps, m_me = me, m_currentTerm = 0, m_votedFor = -1,
     m_logs = [], m_commitIndex = 0, m_lastApplied = 0, m_nextIndex = replicate n 0,
     m_matchIndex = replicate n 0, m_status = Follower, applyChan = q,
     m_lastResetElectionTime = now, m_lastResetHearBeatTime = now,
     m_lastSnapshotIncludeIndex = 0, m_lastSnapshotIncludeTerm = 0\<rparr>"
  using assms by (simp add: init_def readPersist_def Let_def)

lemma restarted_wf: "raft_wf r \<Longrightarrow> raft_wf (restarted now ps q r)"
  by (auto simp: raft_wf_unfold restarted_def)

lemma fresh_wf:
  "ReadRaftState ps = [] \<Longrightarrow> 0 \<le> me \<Longrightarrow> me < int n \<Longrightarrow> init env now n me ps q = Inr r \<Longrightarrow> raft_wf r"
  by (auto simp: init_fresh raft_wf_unfold)

end
