(* ===== verification/Kv_Run.thy ===== *)
theory Kv_Run
  imports Kv_Apply Raft_Leader
begin

text \<open>
  The apply loop of the server over whole logs, that it never fails on an engine that never throws, and
  what a restart gives back: the server, its Raft node and the persister together.
\<close>

section \<open>The queues of the waiting handlers\<close>

definition chan_ok :: "'s kvserver \<Rightarrow> bool" where
  "chan_ok s \<longleftrightarrow> (\<forall>i c. waitApplyCh s i = Some c \<longrightarrow> channels s c \<noteq> None \<and> c < next_channel s) \<and>
     inj_on (waitApplyCh s) (dom (waitApplyCh s)) \<and> (\<forall>c. channels s c \<noteq> None \<longrightarrow> c < next_channel s)"

definition server_wf :: "('s \<Rightarrow> bool) \<Rightarrow> 's kvserver \<Rightarrow> bool" where
  "server_wf ok s \<longleftrightarrow> ok (m_engine s) \<and> raft_wf (m_raftNode s) \<and> chan_ok s"

lemma chan_ok_same: "same_rpc s t \<Longrightarrow> chan_ok t = chan_ok s"
  by (simp add: chan_ok_def same_rpc_def)

lemma send_total:
  assumes "chan_ok s"
  shows "\<exists>s' b. SendMessageToWaitChan op i s = Inr (s', b) \<and> chan_ok s' \<and> waitApplyCh s' = waitApplyCh s"
proof (cases "waitApplyCh s i")
  case (Some c)
  then obtain q where "channels s c = Some q" using assms Some unfolding chan_ok_def by blast
  then show ?thesis using Some assms by (auto simp: SendMessageToWaitChan_def chan_ok_def)
qed (use assms in \<open>auto simp: SendMessageToWaitChan_def\<close>)

lemma Raft_Snapshot_chan: "Raft_Snapshot env i d r = Inr r' \<Longrightarrow> applyChan r' = applyChan r"
  by (auto simp: Raft_Snapshot_def bindE_Inr_iff Let_def split: if_splits)

fun apply_turns :: "'s kv_ops \<Rightarrow> kv_env \<Rightarrow> 64 word list \<Rightarrow> 's kvserver \<Rightarrow> exn + 's kvserver" where
  "apply_turns E env [] s = Inr s"
| "apply_turns E env (now # clock) s = bindE (ReadRaftApplyCommandLoop_turn E env now s) (apply_turns E env clock)"

text \<open>The operations of a list of log entries, each executed at its time.\<close>

fun kv_run :: "(64 word \<times> Op) list \<Rightarrow> kv_state \<Rightarrow> kv_state" where
  "kv_run [] a = a"
| "kv_run ((now, op) # ops) a = kv_run ops (kv_exec now op a)"

definition op_entry :: "raft_env \<Rightarrow> Op \<Rightarrow> int \<Rightarrow> int \<Rightarrow> LogEntry" where
  "op_entry env op trm i = \<lparr>command = asString env op, logterm = trm, logindex = i\<rparr>"

context kv_engine
begin

lemma if_need_chan:
  "ok (m_engine s) \<Longrightarrow> IfNeedToSendSnapShotCommand E env i p s = Inr s' \<Longrightarrow>
   applyChan (m_raftNode s') = applyChan (m_raftNode s)"
  using make_snapshot_ok [of s env]
  by (auto simp: IfNeedToSendSnapShotCommand_def bindE_Inr_iff dest: Raft_Snapshot_chan split: if_splits)

lemma get_command_chan:
  assumes "ok (m_engine s)" "GetCommandFromRaft E env now m s = Inr s'"
  shows "applyChan (m_raftNode s') = applyChan (m_raftNode s)"
  using assms(2)
proof (cases rule: get_command_cases)
  case (run op s1 s2 b)
  have "ok (m_engine s1) \<and> m_raftNode s1 = m_raftNode s" using execute_command_ok [OF assms(1) run(3)] by blast
  then show ?thesis using run(4) if_need_chan [of s1] send_ok [OF run(5)] by (auto split: if_splits)
qed simp

lemma turn_ok:
  assumes "ok (m_engine s)" "applyChan (m_raftNode s) = m # rest" "CommandValid m" "\<not> SnapshotValid m"
    "parseFromString (kv_raft env) (Command m) = Inr op" "m_lastSnapShotRaftLogIndex s < CommandIndex m"
    "ReadRaftApplyCommandLoop_turn E env now s = Inr s'"
  shows "ok (m_engine s') \<and> kv_abs view s' = kv_exec now op (kv_abs view s) \<and>
    m_lastSnapShotRaftLogIndex s' = m_lastSnapShotRaftLogIndex s \<and> applyChan (m_raftNode s') = rest"
proof -
  let ?s = "s\<lparr>m_raftNode := (m_raftNode s)\<lparr>applyChan := rest\<rparr>\<rparr>"
  have run: "GetCommandFromRaft E env now m ?s = Inr s'"
    using assms(2,3,4,7) by (auto simp: ReadRaftApplyCommandLoop_turn_def Let_def bindE_Inr_iff)
  show ?thesis
    using get_command_ok [OF _ assms(5) _ run] get_command_chan [OF _ run] assms(1,6) by simp
qed

text \<open>A prefix of the queue of commands, one turn each.\<close>

lemma turns_ok:
  assumes "kv_archive_ok env" "length clock = length ops"
  shows "ok (m_engine s) \<Longrightarrow>
    applyChan (m_raftNode s) = map (\<lambda>(op, t, i). command_msg (op_entry (kv_raft env) op t i)) ops @ rest \<Longrightarrow>
    \<forall>(op, t, i) \<in> set ops. m_lastSnapShotRaftLogIndex s < i \<Longrightarrow> apply_turns E env clock s = Inr s' \<Longrightarrow>
    ok (m_engine s') \<and> kv_abs view s' = kv_run (zip clock (map fst ops)) (kv_abs view s) \<and>
    applyChan (m_raftNode s') = rest \<and> m_lastSnapShotRaftLogIndex s' = m_lastSnapShotRaftLogIndex s"
  using assms(2)
proof (induction clock ops arbitrary: s rule: list_induct2)
  case (Cons now clock p ops)
  obtain op t i where p: "p = (op, t, i)" by (cases p)
  let ?m = "command_msg (op_entry (kv_raft env) op t i)"
  obtain s1 where s1: "ReadRaftApplyCommandLoop_turn E env now s = Inr s1" "apply_turns E env clock s1 = Inr s'"
    using Cons.prems(4) by (auto simp: bindE_Inr_iff)
  have step: "ok (m_engine s1) \<and> kv_abs view s1 = kv_exec now op (kv_abs view s) \<and>
    m_lastSnapShotRaftLogIndex s1 = m_lastSnapShotRaftLogIndex s \<and>
    applyChan (m_raftNode s1) = map (\<lambda>(op, t, i). command_msg (op_entry (kv_raft env) op t i)) ops @ rest"
  proof (rule turn_ok [OF Cons.prems(1) _ _ _ _ _ s1(1)])
    show "applyChan (m_raftNode s) = ?m # map (\<lambda>(op, t, i). command_msg (op_entry (kv_raft env) op t i)) ops @ rest"
      using Cons.prems(2) p by simp
    show "parseFromString (kv_raft env) (Command ?m) = Inr op"
      using kv_archive_okD(3) [OF assms(1)] by (simp add: command_msg_def op_entry_def)
    show "m_lastSnapShotRaftLogIndex s < CommandIndex ?m"
      using Cons.prems(3) p by (simp add: command_msg_def op_entry_def)
  qed (simp_all add: command_msg_def ApplyMsg_new_def)
  then show ?case using Cons.IH [of s1] Cons.prems(3) s1(2) p by simp
qed auto

text \<open>A snapshot message replaces the whole state, whatever was applied before.\<close>

lemma snapshot_turn_ok:
  assumes "kv_archive_ok env" "ok (m_engine s)" "ok (m_engine t)" "fits (view (m_engine t))"
    "MakeSnapShot E env t = Inr (t', snapshot)" "applyChan (m_raftNode s) = m # rest"
    "\<not> CommandValid m" "SnapshotValid m" "Snapshot m = snapshot"
    "ReadRaftApplyCommandLoop_turn E env now s = Inr s'"
  shows "ok (m_engine s') \<and> kv_abs view s' = kv_abs view t \<and> m_lastSnapShotRaftLogIndex s' = SnapshotIndex m \<and>
    applyChan (m_raftNode s') = rest"
proof -
  let ?s = "s\<lparr>m_raftNode := (m_raftNode s)\<lparr>applyChan := rest\<rparr>\<rparr>"
  obtain s1 where s1: "ReadSnapShotToInstall E env snapshot ?s = Inr s1" "s' = s1\<lparr>m_lastSnapShotRaftLogIndex := SnapshotIndex m\<rparr>"
    using assms(6-10)
    by (auto simp: ReadRaftApplyCommandLoop_turn_def Let_def bindE_Inr_iff GetSnapShotFromRaft_def CondInstallSnapshot_def)
  have "ok (m_engine s1) \<and> kv_abs view s1 = kv_abs view t \<and> same_rpc ?s s1 \<and> m_raftNode s1 = m_raftNode ?s"
    using install_snapshot_ok [OF assms(1,3) _ assms(4,5) s1(1)] assms(2) by simp
  then show ?thesis using s1(2) by (simp add: kv_abs_def)
qed

end

section \<open>The loop never fails\<close>

context total_engine
begin

lemma engine_put_total: "ok (m_engine s) \<Longrightarrow> \<exists>s'. engine_do (\<lambda>e. ePut E e k v) s = Inr s'"
  using put_total [of "m_engine s" k v] by (auto simp: engine_do_def)

lemma engine_delete_total: "ok (m_engine s) \<Longrightarrow> \<exists>s'. engine_do (\<lambda>e. eDelete E e k) s = Inr s'"
  using delete_total [of "m_engine s" k] by (auto simp: engine_do_def)

lemma execute_put_total: "ok (m_engine s) \<Longrightarrow> \<exists>s'. ExecutePutOpOnKVDB E op s = Inr s'"
  using engine_put_total [of s "Key op" "Value op"] by (auto simp: ExecutePutOpOnKVDB_def Let_def)

lemma execute_append_total:
  assumes "ok (m_engine s)"
  shows "\<exists>s'. ExecuteAppendOpOnKVDB E now op s = Inr s'"
proof -
  have rest: "\<exists>s'. bindE (engine_get E (Key op) t) (\<lambda>(s, oldValue).
     let newValue = (case oldValue of None \<Rightarrow> Value op | Some old \<Rightarrow> old @ Value op) in
     bindE (engine_do (\<lambda>e. ePut E e (Key op) newValue) s) (\<lambda>s.
     let s = setKeyExpire (Key op) (ExpireAtMs op) s in
     Inr (s\<lparr>m_lastRequestId := smap_put (ClientId op) (RequestId op) (m_lastRequestId s)\<rparr>))) = Inr s'"
    if t: "ok (m_engine t)" for t
  proof -
    obtain e where e: "engine_get E (Key op) t = Inr (t\<lparr>m_engine := e\<rparr>, view (m_engine t) (Key op))" "ok e"
      using engine_get_ok [OF t] by blast
    then show ?thesis
      using engine_put_total [of "t\<lparr>m_engine := e\<rparr>" "Key op"
          "case view (m_engine t) (Key op) of None \<Rightarrow> Value op | Some old \<Rightarrow> old @ Value op"]
      by (auto simp: Let_def)
  qed
  show ?thesis
  proof (cases "isKeyExpired now s (Key op)")
    case True
    obtain t where t: "engine_do (\<lambda>e. eDelete E e (Key op)) s = Inr t" using engine_delete_total [OF assms] by blast
    then have "ok (m_engine t)" using engine_delete_ok [OF assms t] by auto
    then show ?thesis using t True rest [of "t\<lparr>m_expireMap := smap_erase (Key op) (m_expireMap t)\<rparr>"]
      by (simp add: ExecuteAppendOpOnKVDB_def)
  next
    case False
    then show ?thesis using rest [OF assms] by (simp add: ExecuteAppendOpOnKVDB_def)
  qed
qed

lemma if_need_total:
  assumes "server_wf ok s"
  shows "\<exists>s'. IfNeedToSendSnapShotCommand E env i p s = Inr s' \<and> server_wf ok s'"
proof -
  have wf: "ok (m_engine s)" "raft_wf (m_raftNode s)" "chan_ok s" using assms by (auto simp: server_wf_def)
  obtain d where d: "MakeSnapShot E env s = Inr (s\<lparr>m_serializedKVData := []\<rparr>, d)" using make_snapshot_ok [OF wf(1), of env] by blast
  obtain r where r: "Raft_Snapshot (kv_raft env) i d (m_raftNode s) = Inr r" using Raft_Snapshot_eq [OF wf(2)] by blast
  then have "raft_wf r" using Raft_Snapshot_wf [OF wf(2)] by blast
  then show ?thesis
    using d r wf assms by (simp add: IfNeedToSendSnapShotCommand_def server_wf_def chan_ok_def)
qed

lemma get_command_total:
  assumes "server_wf ok s" "parseFromString (kv_raft env) (Command m) = Inr op"
  shows "\<exists>s'. GetCommandFromRaft E env now m s = Inr s' \<and> server_wf ok s'"
proof (cases "CommandIndex m \<le> m_lastSnapShotRaftLogIndex s")
  case True
  then show ?thesis using assms by (simp add: GetCommandFromRaft_def)
next
  case False
  have wf: "ok (m_engine s)" "raft_wf (m_raftNode s)" "chan_ok s" using assms(1) by (auto simp: server_wf_def)
  obtain s1 where s1: "execute_command E now op s = Inr s1"
    using that execute_put_total [OF wf(1), of op] execute_append_total [OF wf(1), of now op]
    by (cases "ifRequestDuplicate (ClientId op) (RequestId op) s") (simp_all add: execute_command_def, metis)
  then have "ok (m_engine s1) \<and> m_raftNode s1 = m_raftNode s \<and> same_rpc s s1"
    using execute_command_ok [OF wf(1)] by blast
  then have "server_wf ok s1" using wf chan_ok_same by (auto simp: server_wf_def)
  then obtain s2 where s2: "(if m_maxRaftState s1 \<noteq> -1 then IfNeedToSendSnapShotCommand E env (CommandIndex m) 9 s1
      else Inr s1) = Inr s2" "server_wf ok s2"
    using if_need_total [of s1 env "CommandIndex m" 9] by (cases "m_maxRaftState s1 = -1") auto
  then obtain s3 b where s3: "SendMessageToWaitChan op (CommandIndex m) s2 = Inr (s3, b)" "chan_ok s3"
    using send_total by (metis server_wf_def)
  have "server_wf ok s3" using s2(2) s3 send_ok [OF s3(1)] by (simp add: server_wf_def)
  then show ?thesis using assms(2) False s1 s2(1) s3(1) by (auto simp: GetCommandFromRaft_def)
qed

lemma turn_total:
  assumes "server_wf ok s" "applyChan (m_raftNode s) = m # rest" "CommandValid m" "\<not> SnapshotValid m"
    "parseFromString (kv_raft env) (Command m) = Inr op"
  shows "\<exists>s'. ReadRaftApplyCommandLoop_turn E env now s = Inr s' \<and> server_wf ok s'"
proof -
  let ?s = "s\<lparr>m_raftNode := (m_raftNode s)\<lparr>applyChan := rest\<rparr>\<rparr>"
  have "raft_wf (m_raftNode s)" using assms(1) by (simp add: server_wf_def)
  then have "server_wf ok ?s" using assms(1) by (simp add: server_wf_def chan_ok_def raft_wf_unfold)
  then show ?thesis
    using get_command_total [of ?s env m op now] assms(2-5) by (auto simp: ReadRaftApplyCommandLoop_turn_def Let_def)
qed

lemma turns_total:
  assumes "kv_archive_ok env" "length clock = length ops"
  shows "server_wf ok s \<Longrightarrow>
    applyChan (m_raftNode s) = map (\<lambda>(op, t, i). command_msg (op_entry (kv_raft env) op t i)) ops @ rest \<Longrightarrow>
    \<forall>(op, t, i) \<in> set ops. m_lastSnapShotRaftLogIndex s < i \<Longrightarrow>
    \<exists>s'. apply_turns E env clock s = Inr s' \<and> server_wf ok s'"
  using assms(2)
proof (induction clock ops arbitrary: s rule: list_induct2)
  case (Cons now clock p ops)
  obtain op t i where p: "p = (op, t, i)" by (cases p)
  let ?m = "command_msg (op_entry (kv_raft env) op t i)"
  let ?rest = "map (\<lambda>(op, t, i). command_msg (op_entry (kv_raft env) op t i)) ops @ rest"
  have m: "applyChan (m_raftNode s) = ?m # ?rest" "CommandValid ?m" "\<not> SnapshotValid ?m"
    "parseFromString (kv_raft env) (Command ?m) = Inr op" "m_lastSnapShotRaftLogIndex s < CommandIndex ?m"
    using Cons.prems(2,3) p kv_archive_okD(3) [OF assms(1)] by (simp_all add: command_msg_def op_entry_def ApplyMsg_new_def)
  obtain s1 where s1: "ReadRaftApplyCommandLoop_turn E env now s = Inr s1" "server_wf ok s1"
    using turn_total [OF Cons.prems(1) m(1-4)] by blast
  have "ok (m_engine s)" using Cons.prems(1) by (simp add: server_wf_def)
  then have "applyChan (m_raftNode s1) = ?rest" "m_lastSnapShotRaftLogIndex s1 = m_lastSnapShotRaftLogIndex s"
    using turn_ok [OF _ m s1(1)] by auto
  then show ?case using Cons.IH [OF s1(2)] Cons.prems(3) s1(1) by simp
qed simp

text \<open>Both together: the loop gets through the queue and has done what the specification says.\<close>

lemma run_ok:
  assumes "kv_archive_ok env" "server_wf ok s" "length clock = length ops"
    "applyChan (m_raftNode s) = map (\<lambda>(op, t, i). command_msg (op_entry (kv_raft env) op t i)) ops @ rest"
    "\<forall>(op, t, i) \<in> set ops. m_lastSnapShotRaftLogIndex s < i"
  shows "\<exists>s'. apply_turns E env clock s = Inr s' \<and> server_wf ok s' \<and>
    kv_abs view s' = kv_run (zip clock (map fst ops)) (kv_abs view s) \<and> applyChan (m_raftNode s') = rest \<and>
    m_lastSnapShotRaftLogIndex s' = m_lastSnapShotRaftLogIndex s"
proof -
  obtain s' where s': "apply_turns E env clock s = Inr s'" "server_wf ok s'"
    using turns_total [OF assms(1,3,2,4,5)] by blast
  moreover have "ok (m_engine s)" using assms(2) by (simp add: server_wf_def)
  ultimately show ?thesis using turns_ok [OF assms(1,3) _ assms(4,5)] by blast
qed

lemma install_total:
  assumes "kv_archive_ok env" "server_wf ok s" "ok (m_engine t)" "MakeSnapShot E env t = Inr (t', snapshot)"
  shows "\<exists>s'. ReadSnapShotToInstall E env snapshot s = Inr s'"
proof -
  obtain data where data: "eSnapshot E (m_engine t) = Inr data"
    "snapshot = kv_oarchive env (data, m_lastRequestId t, m_expireMap t)"
    using make_snapshot_ok [OF assms(3), of env] assms(4) by auto
  obtain e where "eRestore E (m_engine s) data = (e, None)"
    using restore_total [OF assms(3) _ data(1)] assms(2) by (auto simp: server_wf_def)
  then show ?thesis using kv_archive_okD(1,2) [OF assms(1)]
    by (simp add: ReadSnapShotToInstall_def kv_parseFromString_def data(2) engine_do_def Let_def)
qed

lemma snapshot_turn_total:
  assumes "kv_archive_ok env" "server_wf ok s" "ok (m_engine t)" "MakeSnapShot E env t = Inr (t', snapshot)"
    "applyChan (m_raftNode s) = m # rest" "\<not> CommandValid m" "SnapshotValid m" "Snapshot m = snapshot"
  shows "\<exists>s'. ReadRaftApplyCommandLoop_turn E env now s = Inr s'"
proof -
  let ?s = "s\<lparr>m_raftNode := (m_raftNode s)\<lparr>applyChan := rest\<rparr>\<rparr>"
  have "raft_wf (m_raftNode s)" using assms(2) by (simp add: server_wf_def)
  then have "server_wf ok ?s" using assms(2) by (simp add: server_wf_def chan_ok_def raft_wf_unfold)
  then obtain s1 where "ReadSnapShotToInstall E env snapshot ?s = Inr s1" using install_total [OF assms(1) _ assms(3,4)] by blast
  then show ?thesis
    using assms(5-8) by (simp add: ReadRaftApplyCommandLoop_turn_def GetSnapShotFromRaft_def CondInstallSnapshot_def Let_def)
qed

end

section \<open>A restart\<close>

definition persister_of :: "int \<Rightarrow> Persister \<Rightarrow> bool" where
  "persister_of me p \<longleftrightarrow> m_raftStateFileName p = ''raftstatePersist'' @ int_string me @ ''.txt'' \<and>
     m_snapshotFileName p = ''snapshotPersist'' @ int_string me @ ''.txt''"

lemma persister_of_new: "persister_of me (Persister_new opens me d)"
  by (simp add: persister_of_def Persister_new_def Let_def split: prod.split)

lemma persister_of_Save [simp]: "persister_of me (Save opens rs sn p) = persister_of me p"
  by (simp add: persister_of_def)

text \<open>A new persister on the disk an old one left reads what the old one had stored.\<close>

lemma reopened_reads:
  assumes "persister_of me p"
  shows "ReadRaftState (Persister_new opens me (ps_disk p)) = ReadRaftState p"
    "stored_snapshot (Persister_new opens me (ps_disk p)) = stored_snapshot p"
  unfolding Persister_new_reads using assms by (simp_all add: ReadRaftState_def stored_snapshot_def persister_of_def)

context total_engine
begin

lemma restart_ok:
  assumes arch: "kv_archive_ok env" and eng: "ok (m_engine s)" "fits (view (m_engine s))" "ok engine"
    and node: "raft_wf r" "persister_of (m_me r) p" "ReadRaftState p = persistData (kv_raft env) r"
    and snap: "MakeSnapShot E env s = Inr (s', snapshot)" "stored_snapshot p = snapshot"
  shows "\<exists>t. KvServer_new E env engine (m_me r) maxraft (m_peers r) now (ps_disk p) = Inr t \<and>
    kv_abs view t = kv_abs view s \<and> server_wf ok t \<and>
    m_raftNode t = restarted now (m_persister (m_raftNode t)) [] r"
proof -
  let ?opens = "file_open (kv_raft env)"
  let ?p = "Persister_new ?opens (m_me r) (ps_disk p)"
  let ?r = "restarted now ?p [] r"
  obtain q where read: "ReadSnapshot ?opens ?p = (q, snapshot)"
    using ReadSnapshot_reads(1) [of ?opens ?p] reopened_reads(2) [OF node(2)] snap(2) by (metis prod.collapse)
  have "init (kv_raft env) now (m_peers r) (m_me r) ?p [] = Inr ?r"
    using node reopened_reads(1) [OF node(2)] by (intro init_persisted kv_archive_okD(4) [OF arch]) simp_all
  moreover have "m_persister ?r = ?p" by (simp add: restarted_def)
  moreover have "snapshot \<noteq> []" using make_snapshot_ok [OF eng(1), of env] snap(1) kv_archive_okD(1) [OF arch] by auto
  ultimately have new: "KvServer_new E env engine (m_me r) maxraft (m_peers r) now (ps_disk p) =
    ReadSnapShotToInstall E env snapshot \<lparr>kv_me = m_me r, m_raftNode = ?r\<lparr>m_persister := q\<rparr>, m_maxRaftState = maxraft,
               m_serializedKVData = [], m_engine = engine, waitApplyCh = Map.empty, channels = Map.empty,
               next_channel = 0, m_lastRequestId = [], m_lastSnapShotRaftLogIndex = 0, m_expireMap = []\<rparr>" (is "_ = ReadSnapShotToInstall _ _ _ ?s0")
    using read by (simp add: KvServer_new_def Let_def)
  have r: "?r\<lparr>m_persister := q\<rparr> = restarted now q [] r" by (simp add: restarted_def)
  have wf0: "server_wf ok ?s0"
    unfolding r using eng(3) restarted_wf [OF node(1)] by (simp add: server_wf_def chan_ok_def)
  obtain t where t: "ReadSnapShotToInstall E env snapshot ?s0 = Inr t"
    using install_total [OF arch wf0 eng(1) snap(1)] by blast
  have "ok (m_engine t) \<and> kv_abs view t = kv_abs view s \<and> same_rpc ?s0 t \<and> m_raftNode t = m_raftNode ?s0"
    using install_snapshot_ok [OF arch eng(1) _ eng(2) snap(1) t] eng(3) by simp
  moreover have "m_persister (m_raftNode ?s0) = q" by simp
  ultimately show ?thesis
    using new t wf0 chan_ok_same [of ?s0 t] r by (auto simp: server_wf_def)
qed

end

end
