(* ===== verification/Raft_Cluster.thy ===== *)
theory Raft_Cluster
  imports Raft_Leader
begin

text \<open>
  Several nodes running \<open>raft.cpp\<close>, and elections among them.

  A step runs one handler on one node.  Vote requests travel in a network that delays, drops, repeats and
  reorders them; a call returns at most once to the thread that made it; nodes stop and restart from
  their files at any moment between handlers.  What \<open>AppendEntries\<close>, \<open>InstallSnapshot\<close> and
  their replies carry is left free (up to the consecutive indices every leader sends), so the result covers every
  behaviour of log replication.  Three history variables record which votes were granted, which granted replies a
  candidate counted and which node was elected; no step depends on them.
\<close>

section \<open>Steps of one node\<close>

inductive local_step :: "raft_env \<Rightarrow> raft \<Rightarrow> raft \<Rightarrow> bool" for env where
  ls_append: "ae_ok args \<Longrightarrow> AppendEntries1 env now args r = Inr (r', reply) \<Longrightarrow> local_step env r r'"
| ls_install: "InstallSnapshot env now args r = Inr (r', reply', msg) \<Longrightarrow> local_step env r r'"
| ls_append_reply: "sendAppendEntries server args rpc n r = Inr (r', n') \<Longrightarrow> local_step env r r'"
| ls_install_reply: "leaderSendSnapShot_reply env now server args' rpc' r = Inr r' \<Longrightarrow> local_step env r r'"
| ls_install_args: "leaderSendSnapShot_args env r = (r', args') \<Longrightarrow> local_step env r r'"
| ls_start: "Start env cmd r = (r', i, t, b) \<Longrightarrow> local_step env r r'"
| ls_heartbeat: "doHeartBeat now r = Inr (r', msgs) \<Longrightarrow> local_step env r r'"
| ls_apply: "applierTicker r = Inr r' \<Longrightarrow> local_step env r r'"
| ls_snapshot: "Raft_Snapshot env index snapshot r = Inr r' \<Longrightarrow> local_step env r r'"
| ls_push: "pushMsgToKvServer m r = r' \<Longrightarrow> local_step env r r'"

section \<open>The cluster\<close>

type_synonym call = "nat \<times> nat \<times> RequestVoteArgs"

record cluster =
  nodes :: "nat \<Rightarrow> raft"
  requests :: "call set"
  replies :: "(call \<times> RequestVoteReply) set"
  open_calls :: "call set"
  counters :: "nat \<Rightarrow> int \<Rightarrow> int"
  granted :: "(nat \<times> int \<times> nat) set"
  counted :: "(nat \<times> int \<times> nat) set"
  elected :: "(nat \<times> int) set"

text \<open>Calls of one election, the counter its threads share, and what a restart makes of a node.\<close>

definition calls_of :: "nat \<Rightarrow> (int \<times> RequestVoteArgs) list \<Rightarrow> call set" where
  "calls_of i reqs = (\<lambda>(s, args). (i, nat s, args)) ` set reqs"

definition reboot :: "raft_env \<Rightarrow> int \<Rightarrow> nat \<Rightarrow> nat \<Rightarrow> (string \<rightharpoonup> string) \<Rightarrow> ApplyMsg list \<Rightarrow> exn + raft" where
  "reboot env now N i d q = init env now N (int i) (Persister_new (file_open env) (int i) d) q"

inductive cstep :: "raft_env \<Rightarrow> nat \<Rightarrow> cluster \<Rightarrow> cluster \<Rightarrow> bool" for env N where
  c_local: "i < N \<Longrightarrow> local_step env (nodes c i) r' \<Longrightarrow> cstep env N c (c\<lparr>nodes := (nodes c)(i := r')\<rparr>)"
| c_elect: "i < N \<Longrightarrow> doElection env now (nodes c i) = (r', Some (v, reqs)) \<Longrightarrow>
    cstep env N c (c\<lparr>nodes := (nodes c)(i := r'), requests := requests c \<union> calls_of i reqs,
      open_calls := open_calls c \<union> calls_of i reqs,
      counters := (counters c)(i := (counters c i)(m_currentTerm r' := v)),
      granted := insert (i, m_currentTerm r', i) (granted c)\<rparr>)"
| c_vote: "(i, s, args) \<in> requests c \<Longrightarrow> RequestVote env now args (nodes c s) = Inr (r', reply) \<Longrightarrow>
    cstep env N c (c\<lparr>nodes := (nodes c)(s := r'), replies := insert ((i, s, args), reply) (replies c),
      granted := (if rvr_votegranted reply then insert (s, rv_term args, i) (granted c) else granted c)\<rparr>)"
| c_reply: "(i, s, args) \<in> open_calls c \<Longrightarrow> ((i, s, args), reply) \<in> replies c \<Longrightarrow>
    sendRequestVote env (Some reply) (counters c i (rv_term args)) (nodes c i) = Inr (r', n, hb) \<Longrightarrow>
    cstep env N c (c\<lparr>nodes := (nodes c)(i := r'), open_calls := open_calls c - {(i, s, args)},
      counters := (counters c)(i := (counters c i)(rv_term args := n)),
      counted := (if rvr_votegranted reply \<and> rvr_term reply = m_currentTerm (nodes c i)
                  then insert (i, rv_term args, s) (counted c) else counted c),
      elected := (if hb then insert (i, rv_term args) (elected c) else elected c)\<rparr>)"
| c_lost: "(i, s, args) \<in> open_calls c \<Longrightarrow> cstep env N c (c\<lparr>open_calls := open_calls c - {(i, s, args)}\<rparr>)"
| c_restart: "i < N \<Longrightarrow> reboot env now N i (ps_disk (m_persister (nodes c i))) q = Inr r' \<Longrightarrow>
    cstep env N c (c\<lparr>nodes := (nodes c)(i := r'), open_calls := {cl \<in> open_calls c. fst cl \<noteq> i}\<rparr>)"

text \<open>The first start: every node on an empty disk.\<close>

definition cluster_init :: "raft_env \<Rightarrow> int \<Rightarrow> nat \<Rightarrow> cluster \<Rightarrow> bool" where
  "cluster_init env now N c \<longleftrightarrow>
     (\<forall>i < N. reboot env now N i (\<lambda>_. None) [] = Inr (nodes c i)) \<and>
     requests c = {} \<and> replies c = {} \<and> open_calls c = {} \<and> granted c = {} \<and> counted c = {} \<and> elected c = {}"

inductive creach :: "raft_env \<Rightarrow> nat \<Rightarrow> cluster \<Rightarrow> bool" for env N where
  reach_init: "cluster_init env now N c \<Longrightarrow> creach env N c"
| reach_step: "creach env N c \<Longrightarrow> cstep env N c c' \<Longrightarrow> creach env N c'"

inductive_cases cstepE: "cstep env N c c'"

section \<open>What a step may do to a vote\<close>

definition mem_vote :: "raft \<Rightarrow> int \<times> int" where
  "mem_vote r = (m_currentTerm r, m_votedFor r)"

definition disk_vote :: "raft_env \<Rightarrow> raft \<Rightarrow> int \<times> int" where
  "disk_vote env r =
     (if ReadRaftState (m_persister r) = [] then (0, -1)
      else case node_iarchive env (ReadRaftState (m_persister r)) of
             Inr n \<Rightarrow> (bp_currentTerm n, bp_votedFor n) | Inl e \<Rightarrow> (0, -1))"

definition vote_step :: "int \<times> int \<Rightarrow> int \<times> int \<Rightarrow> bool" where
  "vote_step v w \<longleftrightarrow> fst v < fst w \<or> fst w = fst v \<and> (snd w = snd v \<or> snd v = -1)"

definition remembers :: "int \<times> int \<Rightarrow> int \<Rightarrow> int \<Rightarrow> bool" where
  "remembers v t cand \<longleftrightarrow> t \<le> fst v \<and> (t = fst v \<longrightarrow> snd v = cand)"

lemma vote_step_refl [simp]: "vote_step v v"
  by (simp add: vote_step_def)

lemma remembers_step: "vote_step v w \<Longrightarrow> 0 \<le> cand \<Longrightarrow> remembers v t cand \<Longrightarrow> remembers w t cand"
  by (auto simp: vote_step_def remembers_def)

definition same_files :: "Persister \<Rightarrow> Persister \<Rightarrow> bool" where
  "same_files p q \<longleftrightarrow> m_raftStateFileName q = m_raftStateFileName p \<and> m_snapshotFileName q = m_snapshotFileName p"

lemma same_files_simps [simp]:
  "same_files p p" "same_files p (SaveRaftState opens d p)" "same_files p (Save opens d s p)"
  "same_files p (fst (ReadSnapshot opens p))"
  by (simp_all add: same_files_def)

text \<open>What is on disk is what was there, or the node as it is now.\<close>

definition stored_now :: "raft_env \<Rightarrow> raft \<Rightarrow> raft \<Rightarrow> bool" where
  "stored_now env r r' \<longleftrightarrow> ReadRaftState (m_persister r') = ReadRaftState (m_persister r) \<or>
     (\<exists>r0. (raft_wf r \<longrightarrow> raft_wf r0) \<and> m_currentTerm r0 = m_currentTerm r' \<and> m_votedFor r0 = m_votedFor r' \<and>
        m_me r0 = m_me r' \<and> m_peers r0 = m_peers r' \<and> ReadRaftState (m_persister r') = persistData env r0)"

definition evolves :: "raft_env \<Rightarrow> raft \<Rightarrow> raft \<Rightarrow> bool" where
  "evolves env r r' \<longleftrightarrow> m_me r' = m_me r \<and> m_peers r' = m_peers r \<and> same_files (m_persister r) (m_persister r') \<and>
     vote_step (mem_vote r) (mem_vote r') \<and> (raft_wf r \<longrightarrow> raft_wf r') \<and> stored_now env r r'"

lemma evolves_persist:
  assumes "persister_ok (file_open env) (m_persister r)" "m_me f = m_me r" "m_peers f = m_peers r"
    "m_persister f = m_persister r" "vote_step (mem_vote r) (mem_vote f)" "raft_wf r \<Longrightarrow> raft_wf f"
  shows "evolves env r (persist env f)"
  unfolding evolves_def stored_now_def
proof (intro conjI disjI2 exI [of _ f])
  show "ReadRaftState (m_persister (persist env f)) = persistData env f"
    using assms(1,4) by (simp add: SaveRaftState_reads)
qed (use assms in \<open>auto simp: mem_vote_def\<close>)

lemma evolves_quiet:
  assumes "m_me f = m_me r" "m_peers f = m_peers r"
    "same_files (m_persister r) (m_persister f)" "ReadRaftState (m_persister f) = ReadRaftState (m_persister r)"
    "vote_step (mem_vote r) (mem_vote f)" "raft_wf r \<Longrightarrow> raft_wf f"
  shows "evolves env r f"
  using assms by (simp add: evolves_def stored_now_def)

lemma vote_step_down [simp]: "vote_step (mem_vote r) (mem_vote (step_down t r))"
  by (auto simp: vote_step_def mem_vote_def step_down_def)

lemma disk_vote_persisted:
  "codecs_ok env \<Longrightarrow> ReadRaftState (m_persister r) = persistData env r0 \<Longrightarrow> disk_vote env r = mem_vote r0"
  by (simp add: disk_vote_def persistData_def mem_vote_def codecs_okD)

lemma evolves_disk:
  assumes "codecs_ok env" "evolves env r r'"
  shows "disk_vote env r' = disk_vote env r \<or> disk_vote env r' = mem_vote r'"
  using assms(2) unfolding evolves_def stored_now_def
proof (elim conjE disjE exE)
  fix r0 assume "ReadRaftState (m_persister r') = persistData env r0" "m_currentTerm r0 = m_currentTerm r'"
    "m_votedFor r0 = m_votedFor r'"
  then show ?thesis using disk_vote_persisted [OF assms(1), of r' r0] by (simp add: mem_vote_def)
qed (simp add: disk_vote_def)

lemma evolves_remembers:
  assumes "codecs_ok env" "evolves env r r'" "0 \<le> cand"
    "remembers (mem_vote r) t cand" "remembers (disk_vote env r) t cand"
  shows "remembers (mem_vote r') t cand" "remembers (disk_vote env r') t cand"
proof -
  show m: "remembers (mem_vote r') t cand"
    using assms(2-4) remembers_step [of "mem_vote r" "mem_vote r'" cand t] by (simp add: evolves_def)
  show "remembers (disk_vote env r') t cand"
    using evolves_disk [OF assms(1,2)] assms(5) m by auto
qed

end
