(* ===== verification/Raft_Votes.thy ===== *)
theory Raft_Votes
  imports Raft_Cluster
begin

text \<open>
  Every handler keeps a node's votes: it leaves the term and the vote of that term alone, or moves to
  a higher term, or casts the vote of a term in which none was cast; and the file holds either what it
  held or the new term and vote.
\<close>

definition replicated :: "raft \<Rightarrow> raft \<Rightarrow> bool" where
  "replicated r r' \<longleftrightarrow> (\<exists>ms ns ci. length ms = length (m_matchIndex r) \<and> length ns = length (m_nextIndex r) \<and>
     m_commitIndex r \<le> ci \<and> ci \<le> max (m_commitIndex r) (getLastLogIndex r) \<and>
     r' = r\<lparr>m_matchIndex := ms, m_nextIndex := ns, m_commitIndex := ci\<rparr>)"

lemma replicatedI:
  assumes "length ms = length (m_matchIndex r)" "length ns = length (m_nextIndex r)" "m_commitIndex r \<le> ci"
    "ci \<le> max (m_commitIndex r) (getLastLogIndex r)"
    "r' = r\<lparr>m_matchIndex := ms, m_nextIndex := ns, m_commitIndex := ci\<rparr>"
  shows "replicated r r'"
  using assms unfolding replicated_def by blast

lemma replicated_refl: "replicated r r"
  by (rule replicatedI [of "m_matchIndex r" _ "m_nextIndex r" "m_commitIndex r"])
    (simp_all add: raft.equality)

lemma replicated_keeps:
  assumes "replicated r r'"
  shows "m_persister r' = m_persister r" "m_me r' = m_me r" "m_peers r' = m_peers r" "mem_vote r' = mem_vote r"
    "m_status r' = m_status r" "raft_wf r \<Longrightarrow> raft_wf r'"
  using assms raft_wfD(4,11) [of r] by (auto simp: replicated_def mem_vote_def raft_wf_unfold)

lemma sendAppendEntries_hit:
  assumes "sendAppendEntries server args (Some reply) n r = Inr (r', n')" "aer_appstate reply \<noteq> Disconnected"
    "aer_term reply = m_currentTerm r" "m_status r = Leader" "aer_success reply"
  shows "replicated r r'"
proof -
  let ?e = "ae_prevlogindex args + int (length (ae_entries args))"
  let ?m = "max (m_matchIndex r ! nat server) ?e"
  let ?ms = "(m_matchIndex r)[nat server := ?m]" and ?ns = "(m_nextIndex r)[nat server := ?m + 1]"
  let ?a = "r\<lparr>m_matchIndex := ?ms, m_nextIndex := ?ns\<rparr>"
  let ?ci = "max (m_commitIndex r) ?e"
  have range: "0 \<le> server" "server < int (length (m_matchIndex r))"
    using assms by (auto simp: sendAppendEntries_def Let_def bindE_Inr_iff at_index_Inr_iff)
  then have range': "server < int (length (m_nextIndex r))"
    using assms by (auto simp: sendAppendEntries_def Let_def bindE_Inr_iff upd_index_Inr_iff)
  have a: "?a\<lparr>m_commitIndex := m_commitIndex r\<rparr> = ?a" by (rule raft.equality) simp_all
  have "r' = ?a \<or> r' = ?a\<lparr>m_commitIndex := ?ci\<rparr> \<and> ?ci \<le> getLastLogIndex r"
    using assms range range' a
    by (auto simp add: sendAppendEntries_def Let_def assertE_def bindE_def split: if_splits)
  then show ?thesis
  proof
    assume "r' = ?a"
    then show ?thesis using a by (intro replicatedI [of ?ms _ ?ns "m_commitIndex r"]) simp_all
  next
    assume "r' = ?a\<lparr>m_commitIndex := ?ci\<rparr> \<and> ?ci \<le> getLastLogIndex r"
    then show ?thesis by (intro replicatedI [of ?ms _ ?ns ?ci]) simp_all
  qed
qed

lemma replicated_next: "length ns = length (m_nextIndex r) \<Longrightarrow> replicated r (r\<lparr>m_nextIndex := ns\<rparr>)"
  by (rule replicatedI [of "m_matchIndex r" _ ns "m_commitIndex r"]) (simp_all add: raft.equality)

lemma sendAppendEntries_outcome:
  assumes "sendAppendEntries server args rpc n r = Inr (r', n')"
  shows "replicated r r' \<or> (\<exists>t > m_currentTerm r. r' = step_down t r)"
proof (cases rpc)
  case None
  then show ?thesis using assms replicated_refl by (simp add: sendAppendEntries_def)
next
  case (Some reply)
  let ?on = "aer_appstate reply \<noteq> Disconnected"
  consider (quiet) "\<not> ?on \<or> aer_term reply < m_currentTerm r \<or>
      (aer_term reply = m_currentTerm r \<and> m_status r \<noteq> Leader)"
    | (lower) "?on" "aer_term reply > m_currentTerm r"
    | (retry) "?on" "aer_term reply = m_currentTerm r" "m_status r = Leader" "\<not> aer_success reply"
    | (hit) "?on" "aer_term reply = m_currentTerm r" "m_status r = Leader" "aer_success reply"
    by linarith
  then show ?thesis
  proof cases
    case quiet
    then have "r' = r" using assms Some by (auto simp: sendAppendEntries_def split: if_splits)
    then show ?thesis using replicated_refl by simp
  next
    case lower
    then have "r' = step_down (aer_term reply) r" using assms Some by (simp add: sendAppendEntries_def step_down_def)
    then show ?thesis using lower by blast
  next
    case retry
    then have "r' = r \<or> (\<exists>ns. length ns = length (m_nextIndex r) \<and> r' = r\<lparr>m_nextIndex := ns\<rparr>)"
      using assms Some
      by (simp add: sendAppendEntries_def bindE_Inr_iff upd_index_Inr_iff split: if_splits) (metis length_list_update)
    then show ?thesis using replicated_refl replicated_next by blast
  next
    case hit
    then show ?thesis using assms Some sendAppendEntries_hit by blast
  qed
qed

lemma leaderSendSnapShot_reply_outcome:
  assumes "leaderSendSnapShot_reply env now server args rpc r = Inr r'"
  shows "replicated r r' \<or> (\<exists>t > m_currentTerm r. r' = (persist env (r\<lparr>m_currentTerm := t, m_votedFor := -1,
        m_status := Follower\<rparr>))\<lparr>m_lastResetElectionTime := now\<rparr>)"
proof (cases rpc)
  case None
  then show ?thesis using assms replicated_refl by (simp add: leaderSendSnapShot_reply_def)
next
  case (Some reply)
  consider (quiet) "m_status r \<noteq> Leader \<or> m_currentTerm r \<noteq> is_term args"
    | (lower) "\<not> (m_status r \<noteq> Leader \<or> m_currentTerm r \<noteq> is_term args)" "isr_term reply > m_currentTerm r"
    | (hit) "\<not> (m_status r \<noteq> Leader \<or> m_currentTerm r \<noteq> is_term args)" "\<not> isr_term reply > m_currentTerm r"
    by blast
  then show ?thesis
  proof cases
    case quiet
    then show ?thesis using assms Some replicated_refl by (auto simp: leaderSendSnapShot_reply_def)
  next
    case lower
    then show ?thesis using assms Some by (simp add: leaderSendSnapShot_reply_def) blast
  next
    case hit
    let ?ms = "(m_matchIndex r)[nat server := is_lastsnapshotincludeindex args]"
      and ?ns = "(m_nextIndex r)[nat server := is_lastsnapshotincludeindex args + 1]"
    have "r' = r\<lparr>m_matchIndex := ?ms, m_nextIndex := ?ns\<rparr>"
      using hit assms Some by (auto simp: leaderSendSnapShot_reply_def bindE_Inr_iff upd_index_Inr_iff)
    then have "replicated r r'"
      by (intro replicatedI [of ?ms _ ?ns "m_commitIndex r"]) (simp_all add: raft.equality)
    then show ?thesis ..
  qed
qed

lemma evolves_refl [simp]: "evolves env r r"
  by (simp add: evolves_def stored_now_def)

lemma evolves_save:
  assumes "persister_ok (file_open env) (m_persister r)" "m_me f = m_me r" "m_peers f = m_peers r"
    "same_files (m_persister r) (m_persister f)" "vote_step (mem_vote r) (mem_vote f)" "raft_wf r \<Longrightarrow> raft_wf f"
  shows "evolves env r (f\<lparr>m_persister := Save (file_open env) (persistData env f) s (m_persister f)\<rparr>)"
  unfolding evolves_def stored_now_def
proof (intro conjI disjI2 exI [of _ f])
  have "persister_ok (file_open env) (m_persister f)"
    using assms(1,4) by (simp add: persister_ok_def same_files_def)
  then show "ReadRaftState (m_persister (f\<lparr>m_persister := Save (file_open env) (persistData env f) s (m_persister f)\<rparr>)) =
      persistData env f"
    by (simp add: Save_reads)
qed (use assms in \<open>auto simp: mem_vote_def raft_wf_unfold same_files_def\<close>)

text \<open>A later change of the timer and the status (in the same term) matters to neither.\<close>

lemma evolves_timer:
  assumes "evolves env r f"
  shows "evolves env r (f\<lparr>m_lastResetElectionTime := now\<rparr>)" "evolves env r (f\<lparr>m_status := st, m_lastResetElectionTime := now\<rparr>)"
proof -
  have "raft_wf (f\<lparr>m_lastResetElectionTime := now\<rparr>) = raft_wf f"
    "raft_wf (f\<lparr>m_status := st, m_lastResetElectionTime := now\<rparr>) = raft_wf f"
    "stored_now env r (f\<lparr>m_lastResetElectionTime := now\<rparr>) = stored_now env r f"
    "stored_now env r (f\<lparr>m_status := st, m_lastResetElectionTime := now\<rparr>) = stored_now env r f"
    by (simp_all add: raft_wf_unfold stored_now_def)
  then show "evolves env r (f\<lparr>m_lastResetElectionTime := now\<rparr>)"
    "evolves env r (f\<lparr>m_status := st, m_lastResetElectionTime := now\<rparr>)"
    using assms by (simp_all add: evolves_def mem_vote_def)
qed

lemma is_follow_evolves:
  assumes "persister_ok (file_open env) (m_persister r)"
  shows "evolves env r (is_follow env now args r)"
proof -
  have "evolves env r (if is_term args > m_currentTerm r then persist env (step_down (is_term args) r) else r)"
    using assms by (simp add: evolves_persist)
  then show ?thesis unfolding is_follow_def by (rule evolves_timer(2))
qed

lemma AppendEntries1_evolves:
  assumes wf: "raft_wf r" and p: "persister_ok (file_open env) (m_persister r)"
    and ok: "ae_ok args" and eq: "AppendEntries1 env now args r = Inr (r', reply)"
  shows "evolves env r r'"
  using wf ok
proof (cases rule: AppendEntries1_elim [where env = env and now = now])
  case stale
  then show ?thesis using eq by (auto intro!: evolves_quiet)
next
  case (reject j)
  have "evolves env r (persist env (ae_follow now args r))"
    using p by (intro evolves_persist) (auto simp: ae_follow_def mem_vote_def step_down_def vote_step_def raft_wf_unfold)
  then show ?thesis using reject eq by auto
next
  case accept
  have "raft_wf (take_in args (ae_follow now args r))" using accept wf ok by (intro take_in_wf) simp_all
  then have "evolves env r (persist env (take_in args (ae_follow now args r)))"
    using p by (intro evolves_persist)
      (auto simp: take_in_def Let_def ae_follow_def mem_vote_def step_down_def vote_step_def)
  then show ?thesis using accept eq by auto
next
  case clash
  then show ?thesis using eq by simp
qed

lemma InstallSnapshot_evolves:
  assumes wf: "raft_wf r" and p: "persister_ok (file_open env) (m_persister r)"
    and eq: "InstallSnapshot env now args r = Inr (r', reply, msg)"
  shows "evolves env r r'"
proof -
  let ?f = "is_follow env now args r"
  have f: "evolves env r ?f" using p by (rule is_follow_evolves)
  have "evolves env r (install env args ?f)" if "m_lastSnapshotIncludeIndex r < is_lastsnapshotincludeindex args"
  proof -
    let ?k = "is_lastsnapshotincludeindex args"
    let ?g = "?f\<lparr>m_logs := drop (nat (?k - m_lastSnapshotIncludeIndex ?f)) (m_logs ?f),
                m_commitIndex := max (m_commitIndex ?f) ?k, m_lastApplied := max (m_lastApplied ?f) ?k,
                m_lastSnapshotIncludeIndex := ?k, m_lastSnapshotIncludeTerm := is_lastsnapshotincludeterm args\<rparr>"
    have "raft_wf (install env args ?f)" using wf that by (intro install_wf) simp_all
    then have "raft_wf ?g" by (simp add: install_def Let_def raft_wf_unfold)
    then have "evolves env r (?g\<lparr>m_persister := Save (file_open env) (persistData env ?g) (is_data args) (m_persister ?g)\<rparr>)"
      using p f by (intro evolves_save) (auto simp: evolves_def mem_vote_def)
    then show ?thesis by (simp add: install_def Let_def)
  qed
  then show ?thesis using eq f wf unfolding InstallSnapshot_eq [OF wf]
    by (auto simp: Let_def intro!: evolves_quiet split: if_splits)
qed

lemma local_step_evolves:
  assumes "local_step env r r'" "raft_wf r" "persister_ok (file_open env) (m_persister r)"
  shows "evolves env r r'"
  using assms
proof cases
  case (ls_append args now reply)
  then show ?thesis using AppendEntries1_evolves assms(2,3) by blast
next
  case (ls_install now args reply' msg)
  then show ?thesis using InstallSnapshot_evolves assms(2,3) by blast
next
  case (ls_append_reply server args rpc n n')
  from sendAppendEntries_outcome [OF this] show ?thesis
    by (auto intro!: evolves_quiet dest: replicated_keeps)
next
  case (ls_install_reply now server args' rpc')
  from leaderSendSnapShot_reply_outcome [OF this] show ?thesis
  proof (elim disjE exE conjE)
    fix t assume "m_currentTerm r < t"
      "r' = (persist env (r\<lparr>m_currentTerm := t, m_votedFor := -1, m_status := Follower\<rparr>))\<lparr>m_lastResetElectionTime := now\<rparr>"
    then show ?thesis using assms(3)
      by (auto intro!: evolves_timer(1) evolves_persist simp: vote_step_def mem_vote_def raft_wf_unfold)
  qed (auto intro!: evolves_quiet dest: replicated_keeps)
next
  case (ls_install_args args')
  then have "r' = r\<lparr>m_persister := fst (ReadSnapshot (file_open env) (m_persister r))\<rparr>"
    by (auto simp: leaderSendSnapShot_args_def split: prod.splits)
  then show ?thesis using ReadSnapshot_reads(3) [OF assms(3)]
    by (auto intro!: evolves_quiet simp: mem_vote_def raft_wf_unfold)
next
  case (ls_start cmd i t b)
  then have "r' = r \<or> r' = persist env (r\<lparr>m_logs := m_logs r @ [new_entry env cmd r]\<rparr>)"
    by (auto simp: Start_eq split: if_splits)
  then show ?thesis
  proof
    assume "r' = persist env (r\<lparr>m_logs := m_logs r @ [new_entry env cmd r]\<rparr>)"
    then show ?thesis using assms(3)
      by (auto intro!: evolves_persist append_wf simp: mem_vote_def new_entry_def getNewCommandIndex_def)
  qed (auto intro: evolves_quiet)
next
  case (ls_heartbeat now msgs)
  then have "r' = r \<or> r' = r\<lparr>m_lastResetHearBeatTime := now\<rparr>"
    by (auto simp: doHeartBeat_def bindE_Inr_iff split: if_splits)
  then show ?thesis by (auto intro!: evolves_quiet simp: mem_vote_def raft_wf_unfold)
next
  case ls_apply
  then show ?thesis
    using applierTicker_ok [OF assms(2)] by (auto intro!: evolves_quiet simp: mem_vote_def raft_wf_unfold)
next
  case (ls_snapshot index snapshot)
  have "evolves env r (cut_log env index snapshot r)" if i: "m_lastSnapshotIncludeIndex r < index" "index \<le> m_commitIndex r"
  proof -
    let ?g = "r\<lparr>m_lastSnapshotIncludeIndex := index, m_lastSnapshotIncludeTerm := term_at r index,
                m_logs := drop (nat (index - m_lastSnapshotIncludeIndex r)) (m_logs r),
                m_commitIndex := max (m_commitIndex r) index, m_lastApplied := max (m_lastApplied r) index\<rparr>"
    have "raft_wf ?g" using cut_log_wf(1) [OF assms(2) i, of env snapshot]
      by (simp add: cut_log_def Let_def raft_wf_unfold)
    then have "evolves env r (?g\<lparr>m_persister := Save (file_open env) (persistData env ?g) snapshot (m_persister ?g)\<rparr>)"
      using assms(3) by (intro evolves_save) (auto simp: mem_vote_def)
    then show ?thesis by (simp add: cut_log_def Let_def)
  qed
  then show ?thesis using ls_snapshot unfolding Raft_Snapshot_eq [OF assms(2)]
    by (auto intro!: evolves_quiet split: if_splits)
next
  case (ls_push m)
  then show ?thesis by (auto intro!: evolves_quiet simp: mem_vote_def raft_wf_unfold pushMsgToKvServer_def)
qed

lemma doElection_evolves:
  assumes "raft_wf r" "persister_ok (file_open env) (m_persister r)" "doElection env now r = (r', Some (v, reqs))"
  shows "evolves env r r'"
    and "m_currentTerm r' = m_currentTerm r + 1" "m_votedFor r' = m_me r" "m_status r' = Candidate" "v = 1"
    and "\<And>s args. (s, args) \<in> set reqs \<Longrightarrow> rv_term args = m_currentTerm r' \<and> rv_candidateid args = m_me r \<and>
           0 \<le> s \<and> s < int (m_peers r) \<and> s \<noteq> m_me r"
    and "codecs_ok env \<Longrightarrow> disk_vote env r' = mem_vote r'"
    and "\<And>s args args'. (s, args) \<in> set reqs \<Longrightarrow> (s, args') \<in> set reqs \<Longrightarrow> args = args'"
proof -
  let ?f = "r\<lparr>m_status := Candidate, m_currentTerm := m_currentTerm r + 1, m_votedFor := m_me r\<rparr>"
  have r': "r' = (persist env ?f)\<lparr>m_lastResetElectionTime := now\<rparr>"
    using assms(3) by (auto simp: doElection_def Let_def split: if_splits)
  show "evolves env r r'"
    unfolding r' using assms(2)
    by (intro evolves_timer(1) evolves_persist) (auto simp: vote_step_def mem_vote_def raft_wf_unfold)
  show "m_currentTerm r' = m_currentTerm r + 1" "m_votedFor r' = m_me r" "m_status r' = Candidate"
    by (simp_all add: r')
  show "v = 1" using assms(3) by (auto simp: doElection_def Let_def split: if_splits)
  show "rv_term args = m_currentTerm r' \<and> rv_candidateid args = m_me r \<and> 0 \<le> s \<and> s < int (m_peers r) \<and> s \<noteq> m_me r"
    if "(s, args) \<in> set reqs" for s args
    using assms(3) that by (auto simp: doElection_def Let_def r' split: if_splits prod.splits)
  show "disk_vote env r' = mem_vote r'" if "codecs_ok env"
    using that disk_vote_persisted [of env r' ?f] assms(2) by (auto simp: r' SaveRaftState_reads mem_vote_def)
  show "args = args'" if "(s, args) \<in> set reqs" "(s, args') \<in> set reqs" for s args args'
    using assms(3) that by (auto simp: doElection_def Let_def split: if_splits prod.splits)
qed

lemma RequestVote_evolves:
  assumes "raft_wf r" "persister_ok (file_open env) (m_persister r)" "RequestVote env now args r = Inr (r', reply)"
  shows "evolves env r r'"
    and "rvr_votegranted reply \<Longrightarrow> rvr_term reply = rv_term args \<and> mem_vote r' = (rv_term args, rv_candidateid args) \<and>
      m_currentTerm r \<le> rv_term args \<and> (codecs_ok env \<longrightarrow> disk_vote env r' = mem_vote r') \<and>
      (m_currentTerm r = rv_term args \<longrightarrow> m_votedFor r = -1 \<or> m_votedFor r = rv_candidateid args)"
    and "m_status r' = Leader \<Longrightarrow> m_status r = Leader \<and> m_currentTerm r' = m_currentTerm r"
proof -
  let ?f = "step_down (rv_term args) r"
  let ?g = "?f\<lparr>m_votedFor := rv_candidateid args, m_lastResetElectionTime := now\<rparr>"
  have d: "evolves env r (persist env ?f)" "evolves env r (persist env r)"
    using assms(2) by (auto intro!: evolves_persist)
  have g: "evolves env r (persist env ?g)" if "m_votedFor ?f = -1 \<or> m_votedFor ?f = rv_candidateid args"
    using assms(2) that
    by (intro evolves_persist) (auto simp: vote_step_def mem_vote_def step_down_def raft_wf_unfold split: if_splits)
  show "evolves env r r'"
    using assms(3) d g by (auto simp: RequestVote_eq Let_def split: if_splits)
  show "rvr_term reply = rv_term args \<and> mem_vote r' = (rv_term args, rv_candidateid args) \<and>
      m_currentTerm r \<le> rv_term args \<and> (codecs_ok env \<longrightarrow> disk_vote env r' = mem_vote r') \<and>
      (m_currentTerm r = rv_term args \<longrightarrow> m_votedFor r = -1 \<or> m_votedFor r = rv_candidateid args)"
    if "rvr_votegranted reply"
  proof -
    have c: "\<not> rv_term args < m_currentTerm r" "r' = persist env ?g" "rvr_term reply = rv_term args"
      "m_votedFor ?f = -1 \<or> m_votedFor ?f = rv_candidateid args"
      using assms(3) that by (auto simp: RequestVote_eq Let_def split: if_splits)
    then have "mem_vote r' = (rv_term args, rv_candidateid args)" by (simp add: mem_vote_def)
    moreover have "disk_vote env r' = mem_vote r'" if "codecs_ok env"
      using disk_vote_persisted [OF that, of r' ?g] assms(2) c by (simp add: SaveRaftState_reads mem_vote_def)
    ultimately show ?thesis using c by (auto simp: step_down_def split: if_splits)
  qed
  show "m_status r = Leader \<and> m_currentTerm r' = m_currentTerm r" if "m_status r' = Leader"
    using assms(3) that by (auto simp: RequestVote_eq Let_def step_down_def split: if_splits)
qed

text \<open>Local steps never make a leader, and a leader that stays leader stays in its term.\<close>

lemma local_step_leader:
  assumes "local_step env r r'" "raft_wf r" "m_status r' = Leader"
  shows "m_status r = Leader \<and> m_currentTerm r' = m_currentTerm r"
  using assms(1)
proof cases
  case (ls_append args now reply)
  show ?thesis using assms(2) ls_append(1)
    by (cases rule: AppendEntries1_elim [where env = env and now = now])
      (use ls_append assms(3) in \<open>auto simp: take_in_def Let_def\<close>)
next
  case (ls_install now args reply' msg)
  then show ?thesis using assms(3) unfolding InstallSnapshot_eq [OF assms(2)]
    by (auto simp: Let_def install_def split: if_splits)
next
  case (ls_append_reply server args rpc n n')
  from sendAppendEntries_outcome [OF this] show ?thesis using assms(3)
    by (auto simp: step_down_def mem_vote_def dest: replicated_keeps)
next
  case (ls_install_reply now server args' rpc')
  from leaderSendSnapShot_reply_outcome [OF this] show ?thesis using assms(3)
    by (auto simp: mem_vote_def dest: replicated_keeps)
next
  case ls_apply
  then show ?thesis using applierTicker_ok [OF assms(2)] assms(3) by auto
next
  case (ls_snapshot index snapshot)
  then show ?thesis using assms(3) unfolding Raft_Snapshot_eq [OF assms(2)]
    by (auto simp: cut_log_def Let_def split: if_splits)
qed (use assms(3) in \<open>auto simp: leaderSendSnapShot_args_def Start_eq doHeartBeat_def bindE_Inr_iff pushMsgToKvServer_def
    split: prod.splits if_splits\<close>)

lemma sendRequestVote_evolves:
  assumes "raft_wf r" "persister_ok (file_open env) (m_persister r)"
    "sendRequestVote env (Some reply) n r = Inr (r', n', hb)"
  shows "evolves env r r'"
proof -
  have d: "evolves env r (persist env (step_down t r))" for t using assms(2) by (auto intro!: evolves_persist)
  let ?f = "appendNoopEntryLocked env
     (r\<lparr>m_status := Leader, m_nextIndex := replicate (m_peers r) (getLastLogIndex r + 1),
        m_matchIndex := replicate (m_peers r) 0\<rparr>)"
  have "raft_wf ?f" using become_leader_wf [OF assms(1), of env] by (simp add: become_leader_def)
  then have l: "evolves env r (become_leader env r)"
    unfolding become_leader_def using assms(2) by (intro evolves_persist) (auto simp: mem_vote_def)
  show ?thesis using assms(3) d l unfolding sendRequestVote_eq [OF assms(1)]
    by (auto split: if_splits)
qed

end
