(* ===== verification/Kv_Rpc.thy ===== *)
theory Kv_Rpc
  imports Kv_Run Raft_Votes
begin

text \<open>
  The RPC handlers of the server while the apply loop and the Raft node run: a step relation over the server
  and the set of handlers that wait.  The invariant says that every waiting handler has a queue of its own.
  It rests on one fact about the node: no handler of \<open>raft.cpp\<close> makes its log end earlier.
\<close>

section \<open>The end of the log never moves back\<close>

inductive raft_move :: "raft_env \<Rightarrow> raft \<Rightarrow> raft \<Rightarrow> bool" for env where
  mv_local: "local_step env r r' \<Longrightarrow> raft_move env r r'"
| mv_elect: "doElection env now r = (r', reqs) \<Longrightarrow> raft_move env r r'"
| mv_vote: "RequestVote env now args r = Inr (r', reply) \<Longrightarrow> raft_move env r r'"
| mv_reply: "sendRequestVote env rpc n r = Inr (r', n', hb) \<Longrightarrow> raft_move env r r'"

definition log_grows :: "raft \<Rightarrow> raft \<Rightarrow> bool" where
  "log_grows r r' \<longleftrightarrow> raft_wf r' \<and> getLastLogIndex r \<le> getLastLogIndex r'"

lemma log_growsI: "raft_wf r' \<Longrightarrow> getLastLogIndex r \<le> getLastLogIndex r' \<Longrightarrow> log_grows r r'"
  by (simp add: log_grows_def)

lemma last_append [simp]: "getLastLogIndex (r\<lparr>m_logs := m_logs r @ [e]\<rparr>) = logindex e"
  by (simp add: getLastLogIndex_def getLastLogIndexAndTerm_def)

lemma last_noop [simp]: "getLastLogIndex (appendNoopEntryLocked env r) = getLastLogIndex r + 1"
  by (simp add: appendNoopEntryLocked_def Let_def getLastLogIndex_def getLastLogIndexAndTerm_def getNewCommandIndex_def)

lemma append_grows:
  assumes "raft_wf r" "ae_ok args" "AppendEntries1 env now args r = Inr (r', reply)"
  shows "log_grows r r'"
proof (rule log_growsI [OF AppendEntries1_wf [OF assms]])
  show "getLastLogIndex r \<le> getLastLogIndex r'"
    using assms(1,2)
  proof (rule AppendEntries1_elim [where env = env and now = now])
    assume a: "m_lastSnapshotIncludeIndex r \<le> ae_prevlogindex args" "ae_prevlogindex args \<le> getLastLogIndex r"
      and eq: "AppendEntries1 env now args r = Inr (persist env (take_in args (ae_follow now args r)), ae_accept (ae_term args))"
    let ?f = "ae_follow now args r" and ?t = "take_in args (ae_follow now args r)"
    have f: "raft_wf ?f" "m_lastSnapshotIncludeIndex ?f \<le> ae_prevlogindex args" "ae_prevlogindex args \<le> getLastLogIndex ?f"
      using assms(1) a by simp_all
    have wf: "raft_wf ?t" using take_in_wf [OF f(1) assms(2) f(2,3)] .
    have "nat (ae_prevlogindex args - m_lastSnapshotIncludeIndex r) \<le> length (m_logs r)"
      using a raft_wfD(11) [OF assms(1)] by simp
    then have "length (m_logs r) \<le> length (m_logs ?t)"
      using length_overwrite [of _ "m_logs r" "ae_entries args"] by (simp add: take_in_def Let_def)
    moreover have "m_lastSnapshotIncludeIndex ?t = m_lastSnapshotIncludeIndex r" by (simp add: take_in_def Let_def)
    ultimately show ?thesis
      using assms(3) eq raft_wfD(11) [OF assms(1)] raft_wfD(11) [OF wf] by auto
  qed (use assms(3) in auto)
qed

lemma install_grows:
  assumes "raft_wf r" "InstallSnapshot env now args r = Inr (r', reply, msg)"
  shows "log_grows r r'"
proof (rule log_growsI [OF InstallSnapshot_wf [OF assms]])
  let ?f = "is_follow env now args r"
  have "getLastLogIndex r \<le> getLastLogIndex (install env args ?f)"
    if "m_lastSnapshotIncludeIndex ?f < is_lastsnapshotincludeindex args"
  proof -
    have wf: "raft_wf ?f" using assms(1) by simp
    have "m_lastSnapshotIncludeIndex (install env args ?f) = is_lastsnapshotincludeindex args"
      "m_logs (install env args ?f) = drop (nat (is_lastsnapshotincludeindex args - m_lastSnapshotIncludeIndex r)) (m_logs r)"
      by (simp_all add: install_def Let_def)
    then show ?thesis
      using raft_wfD(11) [OF install_wf [OF wf that, of env]] raft_wfD(11) [OF assms(1)] that by simp
  qed
  then show "getLastLogIndex r \<le> getLastLogIndex r'"
    using assms(2) unfolding InstallSnapshot_eq [OF assms(1)] by (auto simp: Let_def split: if_splits)
qed

lemma replicated_log: "replicated r r' \<Longrightarrow> getLastLogIndex r' = getLastLogIndex r"
  by (auto simp: replicated_def)

lemma local_grows:
  assumes "local_step env r r'" "raft_wf r"
  shows "log_grows r r'"
  using assms
proof (cases rule: local_step.cases)
  case (ls_append_reply server args rpc n n')
  then show ?thesis
    using sendAppendEntries_outcome [OF ls_append_reply] assms(2) replicated_keeps(6) replicated_log
    by (auto simp: log_grows_def)
next
  case (ls_install_reply now server args' rpc')
  then show ?thesis
    using leaderSendSnapShot_reply_outcome [OF ls_install_reply] assms(2) replicated_keeps(6) replicated_log
    by (auto simp: log_grows_def raft_wf_unfold)
next
  case (ls_snapshot index snapshot)
  then show ?thesis
    using assms(2) cut_log_wf [OF assms(2), of index env snapshot]
    by (auto simp: Raft_Snapshot_eq log_grows_def split: if_splits)
next
  case (ls_apply)
  then show ?thesis using assms(2) applied_wf [OF assms(2)]
    by (auto simp: applierTicker_ok log_grows_def raft_wf_unfold)
next
  case (ls_start cmd i t b)
  then show ?thesis using assms(2) Start_wf [OF assms(2) ls_start]
    by (auto simp: Start_eq log_grows_def new_entry_def split: if_splits)
next
  case (ls_heartbeat now msgs)
  then show ?thesis using assms(2) by (auto simp: doHeartBeat_def bindE_Inr_iff log_grows_def raft_wf_unfold split: if_splits)
next
  case (ls_append args now reply)
  then show ?thesis using append_grows [OF assms(2)] by blast
next
  case (ls_install now args reply' msg)
  then show ?thesis using install_grows [OF assms(2)] by blast
next
  case (ls_install_args args')
  then show ?thesis using assms(2) by (auto simp: leaderSendSnapShot_args_def Let_def log_grows_def raft_wf_unfold split: prod.splits)
next
  case (ls_push m)
  then show ?thesis using assms(2) by (auto simp: pushMsgToKvServer_def log_grows_def raft_wf_unfold)
qed

lemma move_grows:
  assumes "raft_move env r r'" "raft_wf r"
  shows "log_grows r r'"
  using assms
proof (cases rule: raft_move.cases)
  case (mv_elect now reqs)
  then show ?thesis using assms(2) doElection_wf [OF assms(2) mv_elect]
    by (auto simp: doElection_def Let_def log_grows_def split: if_splits)
next
  case (mv_vote now args reply)
  then show ?thesis using assms(2) RequestVote_wf [OF assms(2) mv_vote]
    by (auto simp: RequestVote_eq log_grows_def Let_def split: if_splits)
next
  case (mv_reply rpc n n' hb)
  then show ?thesis using assms(2) sendRequestVote_wf [OF assms(2) mv_reply]
    by (cases rpc) (auto simp: sendRequestVote_eq sendRequestVote_None log_grows_def become_leader_def split: if_splits)
qed (use local_grows in blast)

section \<open>Handlers that wait\<close>

type_synonym waiter = "Op \<times> int \<times> nat"

inductive kv_step :: "'s kv_ops \<Rightarrow> kv_env \<Rightarrow> 's kvserver \<times> waiter set \<Rightarrow> 's kvserver \<times> waiter set \<Rightarrow> bool" for E env where
  put_waits: "PutAppend_begin env now args s = (s', Waiting op i c) \<Longrightarrow> kv_step E env (s, W) (s', insert (op, i, c) W)"
| put_refused: "PutAppend_begin env now args s = (s', Replied err) \<Longrightarrow> kv_step E env (s, W) (s', W)"
| get_waits: "Get_begin E env now confirmed args s = Inr (s', Waiting op i c) \<Longrightarrow>
    kv_step E env (s, W) (s', insert (op, i, c) W)"
| get_replies: "Get_begin E env now confirmed args s = Inr (s', Replied reply) \<Longrightarrow> kv_step E env (s, W) (s', W)"
| put_finishes: "(op, i, c) \<in> W \<Longrightarrow> PutAppend_finish op i c s = Inr (s', err) \<Longrightarrow> kv_step E env (s, W) (s', W - {(op, i, c)})"
| get_finishes: "(op, i, c) \<in> W \<Longrightarrow> Get_finish E now op i c s = Inr (s', reply) \<Longrightarrow> kv_step E env (s, W) (s', W - {(op, i, c)})"
| apply_turn: "ReadRaftApplyCommandLoop_turn E env now s = Inr s' \<Longrightarrow> kv_step E env (s, W) (s', W)"
| raft_turn: "raft_move (kv_raft env) (m_raftNode s) r \<Longrightarrow> kv_step E env (s, W) (s\<lparr>m_raftNode := r\<rparr>, W)"

text \<open>From a server as the constructor leaves it: no queues, and a well-formed node.\<close>

inductive kv_reach :: "'s kv_ops \<Rightarrow> kv_env \<Rightarrow> 's kvserver \<times> waiter set \<Rightarrow> bool" for E env where
  kv_start: "raft_wf (m_raftNode s) \<Longrightarrow> waitApplyCh s = Map.empty \<Longrightarrow> channels s = Map.empty \<Longrightarrow> kv_reach E env (s, {})"
| kv_next: "kv_reach E env st \<Longrightarrow> kv_step E env st st' \<Longrightarrow> kv_reach E env st'"

definition waiters_ok :: "'s kvserver \<Rightarrow> waiter set \<Rightarrow> bool" where
  "waiters_ok s W \<longleftrightarrow> (\<forall>(op, i, c) \<in> W. waitApplyCh s i = Some c) \<and> inj_on (\<lambda>(op, i, c). i) W \<and>
     (\<forall>i \<in> dom (waitApplyCh s). i \<le> getLastLogIndex (m_raftNode s))"

definition kv_inv :: "'s kvserver \<times> waiter set \<Rightarrow> bool" where
  "kv_inv st \<longleftrightarrow> (case st of (s, W) \<Rightarrow> raft_wf (m_raftNode s) \<and> chan_ok s \<and> waiters_ok s W)"

text \<open>Frames, for every engine.\<close>

definition data_only :: "'s kvserver \<Rightarrow> 's kvserver \<Rightarrow> bool" where
  "data_only s t \<longleftrightarrow> same_rpc s t \<and> m_raftNode t = m_raftNode s"

lemma data_only_refl [simp]: "data_only s s"
  by (simp add: data_only_def same_rpc_def)

lemma data_only_trans: "data_only s t \<Longrightarrow> data_only t u \<Longrightarrow> data_only s u"
  by (simp add: data_only_def same_rpc_def)

lemma data_only_upd [simp]:
  "data_only s (t\<lparr>m_engine := e\<rparr>) = data_only s t" "data_only s (t\<lparr>m_expireMap := x\<rparr>) = data_only s t"
  "data_only s (t\<lparr>m_lastRequestId := l\<rparr>) = data_only s t" "data_only s (t\<lparr>m_serializedKVData := d\<rparr>) = data_only s t"
  "data_only s (setKeyExpire k v t) = data_only s t"
  "data_only (t\<lparr>m_engine := e\<rparr>) s = data_only t s" "data_only (t\<lparr>m_expireMap := x\<rparr>) s = data_only t s"
  "data_only (t\<lparr>m_lastRequestId := l\<rparr>) s = data_only t s" "data_only (t\<lparr>m_serializedKVData := d\<rparr>) s = data_only t s"
  by (simp_all add: data_only_def same_rpc_def)

lemma engine_get_data: "engine_get E k s = Inr (s', v) \<Longrightarrow> data_only s s'"
  by (auto simp: engine_get_def split: prod.splits sum.splits)

lemma engine_do_data: "engine_do f s = Inr s' \<Longrightarrow> data_only s s'"
  by (auto simp: engine_do_def split: prod.splits option.splits)

lemmas data_dests = engine_get_data engine_do_data

lemma append_data: "ExecuteAppendOpOnKVDB E now op s = Inr s' \<Longrightarrow> data_only s s'"
  by (auto simp: ExecuteAppendOpOnKVDB_def bindE_Inr_iff Let_def split: if_splits dest!: data_dests)
    (meson data_only_trans)+

lemma execute_data:
  "ExecutePutOpOnKVDB E op s = Inr s' \<Longrightarrow> data_only s s'"
  "ExecuteGetOpOnKVDB E now op s = Inr (s', v) \<Longrightarrow> data_only s s'"
  "ExecuteReadOnlyGetOpOnKVDB E now op s = Inr (s', v) \<Longrightarrow> data_only s s'"
  "kv_parseFromString E env d s = Inr s' \<Longrightarrow> data_only s s'"
  "MakeSnapShot E env s = Inr (s', d) \<Longrightarrow> data_only s s'"
  by (auto simp: ExecutePutOpOnKVDB_def ExecuteGetOpOnKVDB_def ExecuteReadOnlyGetOpOnKVDB_def
      kv_parseFromString_def MakeSnapShot_def getSnapshotData_def bindE_Inr_iff Let_def split: if_splits
      dest!: data_dests intro: data_only_trans)

text \<open>Steps that change no queue table, and those that open or close one queue.\<close>

definition tables_kept :: "'s kvserver \<Rightarrow> 's kvserver \<Rightarrow> bool" where
  "tables_kept s t \<longleftrightarrow> waitApplyCh t = waitApplyCh s \<and> dom (channels t) = dom (channels s) \<and>
     next_channel t = next_channel s \<and> (raft_wf (m_raftNode s) \<longrightarrow> log_grows (m_raftNode s) (m_raftNode t))"

lemma tables_keptI:
  "waitApplyCh t = waitApplyCh s \<Longrightarrow> dom (channels t) = dom (channels s) \<Longrightarrow> next_channel t = next_channel s \<Longrightarrow>
   (raft_wf (m_raftNode s) \<Longrightarrow> log_grows (m_raftNode s) (m_raftNode t)) \<Longrightarrow> tables_kept s t"
  by (simp add: tables_kept_def)

lemma tables_kept_trans: "tables_kept s t \<Longrightarrow> tables_kept t u \<Longrightarrow> tables_kept s u"
  by (auto simp: tables_kept_def log_grows_def)

lemma log_grows_refl: "raft_wf r \<Longrightarrow> log_grows r r"
  by (simp add: log_grows_def)

lemma data_only_kept: "data_only s t \<Longrightarrow> tables_kept s t"
  by (auto simp: data_only_def same_rpc_def tables_kept_def log_grows_refl)

lemma chan_ok_kept: "tables_kept s t \<Longrightarrow> chan_ok t = chan_ok s"
  unfolding tables_kept_def chan_ok_def by (metis (no_types, lifting) domIff)

lemma kv_inv_kept:
  assumes "kv_inv (s, W)" "tables_kept s t"
  shows "kv_inv (t, W)"
proof -
  have t: "waitApplyCh t = waitApplyCh s" "log_grows (m_raftNode s) (m_raftNode t)" "chan_ok t"
    using assms chan_ok_kept [OF assms(2)] by (auto simp: tables_kept_def kv_inv_def)
  have "i \<le> getLastLogIndex (m_raftNode t)" if "i \<in> dom (waitApplyCh s)" for i
  proof -
    have "i \<le> getLastLogIndex (m_raftNode s)" using assms(1) that by (auto simp: kv_inv_def waiters_ok_def)
    then show ?thesis using t(2) by (simp add: log_grows_def)
  qed
  then show ?thesis using assms(1) t by (simp add: kv_inv_def waiters_ok_def log_grows_def)
qed

lemma if_need_kept: "IfNeedToSendSnapShotCommand E env i p s = Inr s' \<Longrightarrow> tables_kept s s'"
proof -
  assume run: "IfNeedToSendSnapShotCommand E env i p s = Inr s'"
  show ?thesis
  proof (cases "s' = s")
    case False
    then obtain s1 d r where s1: "MakeSnapShot E env s = Inr (s1, d)"
      "Raft_Snapshot (kv_raft env) i d (m_raftNode s1) = Inr r" "s' = s1\<lparr>m_raftNode := r\<rparr>"
      using run by (auto simp: IfNeedToSendSnapShotCommand_def bindE_Inr_iff split: if_splits)
    have "tables_kept s1 s'"
      using s1(2,3) local_grows [OF ls_snapshot [OF s1(2)]] by (auto simp: tables_kept_def)
    then show ?thesis using data_only_kept [OF execute_data(5) [OF s1(1)]] tables_kept_trans by blast
  qed (simp add: data_only_kept)
qed

lemma send_kept: "SendMessageToWaitChan op i s = Inr (s', b) \<Longrightarrow> tables_kept s s'"
  by (auto simp: SendMessageToWaitChan_def tables_kept_def log_grows_refl dom_def split: option.splits if_splits)

lemma execute_command_data: "execute_command E now op s = Inr s' \<Longrightarrow> data_only s s'"
  by (auto simp: execute_command_def execute_data append_data split: if_splits)

lemma get_command_kept:
  assumes "GetCommandFromRaft E env now m s = Inr s'"
  shows "tables_kept s s'"
  using assms
proof (cases rule: get_command_cases)
  case (run op s1 s2 b)
  have "tables_kept s s1" using run(3) execute_command_data data_only_kept by blast
  moreover have "tables_kept s1 s2" using run(4) if_need_kept by (auto simp: data_only_kept split: if_splits)
  ultimately show ?thesis using send_kept [OF run(5)] tables_kept_trans by blast
qed (simp_all add: data_only_kept)

lemma wf_pop: "raft_wf r \<Longrightarrow> log_grows r (r\<lparr>applyChan := q\<rparr>)"
  by (auto simp: log_grows_def raft_wf_unfold)

lemma get_snapshot_kept: "GetSnapShotFromRaft E env m s = Inr s' \<Longrightarrow> tables_kept s s'"
proof -
  assume run: "GetSnapShotFromRaft E env m s = Inr s'"
  then obtain s1 where s1: "ReadSnapShotToInstall E env (Snapshot m) s = Inr s1"
    "s' = s1\<lparr>m_lastSnapShotRaftLogIndex := SnapshotIndex m\<rparr>"
    by (auto simp: GetSnapShotFromRaft_def CondInstallSnapshot_def bindE_Inr_iff)
  have "tables_kept s s1"
    using s1(1) data_only_kept [OF execute_data(4)] by (auto simp: ReadSnapShotToInstall_def data_only_kept split: if_splits)
  then show ?thesis using s1(2) by (simp add: tables_kept_def)
qed

lemma turn_kept: "ReadRaftApplyCommandLoop_turn E env now s = Inr s' \<Longrightarrow> tables_kept s s'"
proof -
  assume run: "ReadRaftApplyCommandLoop_turn E env now s = Inr s'"
  show ?thesis
  proof (cases "applyChan (m_raftNode s)")
    case (Cons m rest)
    let ?s = "s\<lparr>m_raftNode := (m_raftNode s)\<lparr>applyChan := rest\<rparr>\<rparr>"
    obtain s1 where s1: "(if CommandValid m then GetCommandFromRaft E env now m ?s else Inr ?s) = Inr s1"
      "(if SnapshotValid m then GetSnapShotFromRaft E env m s1 else Inr s1) = Inr s'"
      using run Cons by (auto simp: ReadRaftApplyCommandLoop_turn_def bindE_Inr_iff Let_def)
    have "tables_kept s ?s" by (auto simp: tables_kept_def wf_pop)
    moreover have "tables_kept ?s s1" using s1(1) get_command_kept by (auto simp: data_only_kept split: if_splits)
    moreover have "tables_kept s1 s'" using s1(2) get_snapshot_kept by (auto simp: data_only_kept split: if_splits)
    ultimately show ?thesis using tables_kept_trans by blast
  qed (use run in \<open>simp add: ReadRaftApplyCommandLoop_turn_def data_only_kept\<close>)
qed

section \<open>Every waiting handler has its own queue\<close>

lemma start_and_wait_replied:
  assumes "start_and_wait env op wrong s = (s', Replied r)"
  shows "s' = s \<and> r = wrong"
proof -
  have "s\<lparr>m_raftNode := m_raftNode s\<rparr> = s" by simp
  then show ?thesis
    using assms by (auto simp: start_and_wait_def Start_eq open_channel_def Let_def split: if_splits option.splits)
qed

text \<open>A handler that starts to wait got a new index, the end of the log, and so a new queue.\<close>

lemma start_and_wait_waits:
  assumes "kv_inv (s, W)" "start_and_wait env op wrong s = (s', Waiting op' i c)"
  shows "op' = op \<and> m_status (m_raftNode s) = Leader \<and> i = getLastLogIndex (m_raftNode s) + 1 \<and>
    c = next_channel s \<and> waitApplyCh s i = None \<and> channels s c = None \<and>
    s' = s\<lparr>m_raftNode := persist (kv_raft env) ((m_raftNode s)\<lparr>m_logs := m_logs (m_raftNode s) @ [new_entry (kv_raft env) op (m_raftNode s)]\<rparr>),
           waitApplyCh := (waitApplyCh s)(i \<mapsto> c), channels := (channels s)(c \<mapsto> []), next_channel := Suc c\<rparr>"
proof -
  have inv: "\<forall>i \<in> dom (waitApplyCh s). i \<le> getLastLogIndex (m_raftNode s)" "\<forall>c. channels s c \<noteq> None \<longrightarrow> c < next_channel s"
    using assms(1) by (auto simp: kv_inv_def waiters_ok_def chan_ok_def)
  have "waitApplyCh s (getLastLogIndex (m_raftNode s) + 1) = None" using inv(1) by force
  moreover have "channels s (next_channel s) = None" using inv(2) by force
  ultimately show ?thesis
    using assms(2) by (auto simp: start_and_wait_def Start_eq open_channel_def Let_def split: if_splits)
qed

lemma wait_inv:
  assumes "kv_inv (s, W)" "start_and_wait env op wrong s = (s', Waiting op' i c)"
  shows "kv_inv (s', insert (op', i, c) W)"
proof -
  note w = start_and_wait_waits [OF assms]
  have old: "raft_wf (m_raftNode s)" "chan_ok s" "waiters_ok s W" using assms(1) by (auto simp: kv_inv_def)
  have wf: "raft_wf (m_raftNode s')"
    using w old(1) by (auto simp: new_entry_def getNewCommandIndex_def intro!: append_wf)
  have tab: "waitApplyCh s' = (waitApplyCh s)(i \<mapsto> c)" "channels s' = (channels s)(c \<mapsto> [])" "next_channel s' = Suc c"
    "c = next_channel s" "waitApplyCh s i = None" using w by auto
  have lt: "d < c" if "waitApplyCh s j = Some d" for j d using old(2) tab(4) that by (auto simp: chan_ok_def)
  have "chan_ok s'"
    unfolding chan_ok_def tab(1-3)
  proof (intro conjI allI impI)
    show "inj_on ((waitApplyCh s)(i \<mapsto> c)) (dom ((waitApplyCh s)(i \<mapsto> c)))"
      using old(2) lt by (fastforce simp: chan_ok_def inj_on_def dom_def)
  next
    fix d assume "((channels s)(c \<mapsto> [])) d \<noteq> None"
    then show "d < Suc c" using old(2) tab(4) by (auto simp: chan_ok_def less_Suc_eq split: if_splits)
  next
    fix j d assume j: "((waitApplyCh s)(i \<mapsto> c)) j = Some d"
    then show "d < Suc c" using lt by (auto split: if_splits intro: less_SucI)
    show "((channels s)(c \<mapsto> [])) d \<noteq> None"
      using j old(2) by (auto simp: chan_ok_def split: if_splits)
  qed
  moreover have "waiters_ok s' (insert (op', i, c) W)"
    unfolding waiters_ok_def tab(1)
  proof (intro conjI ballI)
    fix x assume "x \<in> insert (op', i, c) W"
    then show "case x of (op, j, d) \<Rightarrow> ((waitApplyCh s)(i \<mapsto> c)) j = Some d"
      using old(3) tab(5) by (fastforce simp: waiters_ok_def)
  next
    show "inj_on (\<lambda>(op, i, c). i) (insert (op', i, c) W)"
      using old(3) tab(5) by (force simp: waiters_ok_def inj_on_def)
  next
    fix j assume j: "j \<in> dom ((waitApplyCh s)(i \<mapsto> c))"
    then have "j \<le> i" using old(3) w by (force simp: waiters_ok_def split: if_splits)
    then show "j \<le> getLastLogIndex (m_raftNode s')" using w by (simp add: new_entry_def)
  qed
  ultimately show ?thesis using wf by (simp add: kv_inv_def)
qed

lemma pop_kept: "timeOutPop c s = Inr (s', v) \<Longrightarrow> tables_kept s s'"
  by (auto simp: timeOutPop_def tables_kept_def log_grows_refl dom_def split: option.splits list.splits if_splits)

lemma chan_ok_closed:
  assumes "chan_ok s" "waitApplyCh s i = Some c"
  shows "chan_ok (s\<lparr>channels := (channels s)(c := None), waitApplyCh := (waitApplyCh s)(i := None)\<rparr>)"
proof -
  have "c' \<noteq> c" if "waitApplyCh s j = Some c'" "j \<noteq> i" for j c'
    using assms that by (auto simp: chan_ok_def inj_on_def dom_def)
  then show ?thesis
    using assms(1) by (auto simp: chan_ok_def inj_on_def dom_def split: if_splits)
qed

lemma close_inv:
  assumes "kv_inv (s, W)" "(op, i, c) \<in> W"
  shows "\<exists>s'. close_channel i s = Inr s' \<and> kv_inv (s', W - {(op, i, c)})"
proof -
  have old: "raft_wf (m_raftNode s)" "chan_ok s" "waiters_ok s W" using assms(1) by (auto simp: kv_inv_def)
  have w: "waitApplyCh s i = Some c" using old(3) assms(2) by (auto simp: waiters_ok_def)
  then obtain q where q: "channels s c = Some q" using old(2) by (fastforce simp: chan_ok_def)
  let ?s = "s\<lparr>channels := (channels s)(c := None), waitApplyCh := (waitApplyCh s)(i := None)\<rparr>"
  have "chan_ok ?s" using chan_ok_closed [OF old(2) w] .
  moreover have "j \<noteq> i" if "(op', j, d) \<in> W - {(op, i, c)}" for op' j d
    using old(3) assms(2) that by (fastforce simp: waiters_ok_def inj_on_def)
  then have "waitApplyCh ?s j = Some d" if "(op', j, d) \<in> W - {(op, i, c)}" for op' j d
    using old(3) that by (fastforce simp: waiters_ok_def)
  then have "\<forall>(op', j, d) \<in> W - {(op, i, c)}. waitApplyCh ?s j = Some d" by blast
  then have "waiters_ok ?s (W - {(op, i, c)})"
    using old(3) unfolding waiters_ok_def by (simp add: inj_on_diff)
  ultimately show ?thesis using w q old(1) by (simp add: close_channel_def kv_inv_def)
qed

lemma get_finish_shape:
  assumes "Get_finish E now op i c s = Inr (s', reply)"
  shows "\<exists>s1 v s2. timeOutPop c s = Inr (s1, v) \<and> data_only s1 s2 \<and> close_channel i s2 = Inr s'"
proof -
  obtain s1 v where pop: "timeOutPop c s = Inr (s1, v)"
    using assms by (cases "timeOutPop c s") (auto simp: Get_finish_def Let_def)
  let ?read = "bindE (ExecuteGetOpOnKVDB E now op s1) (\<lambda>(s, value). Inr (s, FillGetReply value))"
  have "\<exists>b. bindE (if b then ?read else Inr (s1, \<lparr>gr_err = ErrWrongLeader, gr_value = []\<rparr>))
      (\<lambda>(s, reply). bindE (close_channel i s) (\<lambda>s. Inr (s, reply))) = Inr (s', reply)"
  proof (cases v)
    case None
    then show ?thesis
      using assms pop by (intro exI [of _ "ifRequestDuplicate (ClientId op) (RequestId op) s1 \<and> snd (GetState (m_raftNode s1))"])
        (auto simp: Get_finish_def Let_def split_beta split: if_split_asm)
  next
    case (Some o1)
    then show ?thesis
      using assms pop by (intro exI [of _ "ClientId o1 = ClientId op \<and> RequestId o1 = RequestId op"])
        (simp add: Get_finish_def Let_def)
  qed
  then obtain b s2 r where b: "(if b then ?read else Inr (s1, \<lparr>gr_err = ErrWrongLeader, gr_value = []\<rparr>)) = Inr (s2, r)"
    "close_channel i s2 = Inr s'" by (auto simp: bindE_Inr_iff)
  have "data_only s1 s2" using b(1) execute_data(2) by (cases b) (auto simp: bindE_Inr_iff)
  then show ?thesis using pop b(2) by blast
qed

lemma kv_step_inv:
  assumes "kv_step E env st st'" "kv_inv st"
  shows "kv_inv st'"
  using assms
proof (induction rule: kv_step.induct)
  case (put_finishes op i c W s s' err)
  then obtain s1 v where s1: "timeOutPop c s = Inr (s1, v)" "close_channel i s1 = Inr s'"
    by (auto simp: PutAppend_finish_def bindE_Inr_iff Let_def)
  then show ?case using close_inv [OF kv_inv_kept [OF put_finishes.prems pop_kept [OF s1(1)]] put_finishes.hyps(1)] by auto
next
  case (get_finishes op i c W now s s' reply)
  then obtain s1 v s2 where s1: "timeOutPop c s = Inr (s1, v)" "data_only s1 s2" "close_channel i s2 = Inr s'"
    using get_finish_shape by blast
  have "kv_inv (s2, W)"
    using kv_inv_kept [OF kv_inv_kept [OF get_finishes.prems pop_kept [OF s1(1)]] data_only_kept [OF s1(2)]] .
  then show ?case using close_inv [OF _ get_finishes.hyps(1)] s1(3) by fastforce
next
  case (get_waits now confirmed args s s' op i c W)
  then have "start_and_wait env (get_op args) \<lparr>gr_err = ErrWrongLeader, gr_value = []\<rparr> s = (s', Waiting op i c)"
    by (auto simp: Get_begin_def Let_def bindE_Inr_iff split: if_splits)
  then show ?case by (rule wait_inv [OF get_waits.prems])
next
  case (get_replies now confirmed args s s' reply W)
  then have "data_only s s'"
    using start_and_wait_replied execute_data(3)
    by (cases confirmed) (fastforce simp: Get_begin_def Let_def bindE_Inr_iff)+
  then show ?case using kv_inv_kept [OF get_replies.prems data_only_kept] by blast
next
  case (put_waits now args s s' op i c W)
  then show ?case using wait_inv by (auto simp: PutAppend_begin_def)
next
  case (put_refused now args s s' err W)
  then have "s' = s" using start_and_wait_replied [of env _ _ s s' err] by (auto simp: PutAppend_begin_def)
  then show ?case using put_refused.prems by simp
next
  case (apply_turn now s s' W)
  then show ?case using kv_inv_kept turn_kept by blast
next
  case (raft_turn s r W)
  have "tables_kept s (s\<lparr>m_raftNode := r\<rparr>)" using move_grows [OF raft_turn.hyps] by (simp add: tables_kept_def)
  then show ?case using kv_inv_kept [OF raft_turn.prems] by blast
qed

lemma kv_reach_inv: "kv_reach E env st \<Longrightarrow> kv_inv st"
proof (induction rule: kv_reach.induct)
  case (kv_start s)
  then show ?case by (simp add: kv_inv_def chan_ok_def waiters_ok_def)
qed (use kv_step_inv in blast)

end
