(* ===== verification/Kv_Demo.thy ===== *)
theory Kv_Demo
  imports Archive_Instance Kv_Rpc Skiplist_Engine
begin

text \<open>
  Concrete parameters for runs of the KV server: archives that can be read back for the skip list and for
  the server state, a random source that returns zero, and a server that leads a cluster of three.  They
  stand for no code of the repository.
\<close>

fun get_many :: "(string \<Rightarrow> 'a \<times> string) \<Rightarrow> nat \<Rightarrow> string \<Rightarrow> 'a list \<times> string" where
  "get_many g 0 s = ([], s)"
| "get_many g (Suc n) s = (case g s of (x, s) \<Rightarrow> case get_many g n s of (xs, s) \<Rightarrow> (x # xs, s))"

definition put_many :: "('a \<Rightarrow> string) \<Rightarrow> 'a list \<Rightarrow> string" where
  "put_many p xs = put_nat (length xs) @ concat (map p xs)"

definition get_list :: "(string \<Rightarrow> 'a \<times> string) \<Rightarrow> string \<Rightarrow> 'a list \<times> string" where
  "get_list g s = (case get_nat s of (n, s) \<Rightarrow> get_many g n s)"

lemma get_many_put:
  "(\<And>x s. g (p x @ s) = (x, s)) \<Longrightarrow> get_many g (length xs) (concat (map p xs) @ s) = (xs, s)"
  by (induction xs) simp_all

lemma get_list_put: "(\<And>x s. g (p x @ s) = (x, s)) \<Longrightarrow> get_list g (put_many p xs @ s) = (xs, s)"
  by (simp add: get_list_def put_many_def get_many_put)

lemma put_not_Nil [simp]: "put_many p xs \<noteq> []" "put_str s \<noteq> []"
  by (simp_all add: put_many_def put_str_def)

lemma get_strs_put [simp]: "get_list get_str (put_many put_str xs @ s) = (xs, s)"
  by (rule get_list_put) simp

section \<open>The skip list\<close>

definition demo_dump_out :: "string list \<times> string list \<Rightarrow> string" where
  "demo_dump_out d = put_many put_str (fst d) @ put_many put_str (snd d)"

definition demo_dump_in :: "string \<Rightarrow> exn + (string list \<times> string list)" where
  "demo_dump_in s = (case get_list get_str s of (ks, s) \<Rightarrow> Inr (ks, fst (get_list get_str s)))"

definition demo_sl_env :: sl_env where
  "demo_sl_env = \<lparr>rand = \<lambda>_. 0, dump_oarchive = demo_dump_out, dump_iarchive = demo_dump_in\<rparr>"

lemma demo_sl_ok: "dump_ok demo_sl_env" "rand_ok demo_sl_env"
proof -
  have "demo_dump_out d \<noteq> [] \<and> demo_dump_in (demo_dump_out d) = Inr d" for d
    using get_strs_put [of "snd d" "[]"]
    by (simp add: demo_dump_out_def demo_dump_in_def)
  then show "dump_ok demo_sl_env" by (simp add: dump_ok_def demo_sl_env_def)
  show "rand_ok demo_sl_env" by (auto simp: rand_ok_def demo_sl_env_def)
qed

section \<open>The server\<close>

definition put_request :: "string \<times> int \<Rightarrow> string" where
  "put_request p = put_str (fst p) @ put_int (snd p)"

definition get_request :: "string \<Rightarrow> (string \<times> int) \<times> string" where
  "get_request s = (case get_str s of (k, s) \<Rightarrow> case get_int s of (i, s) \<Rightarrow> ((k, i), s))"

definition put_expiry :: "string \<times> 64 word \<Rightarrow> string" where
  "put_expiry p = put_str (fst p) @ put_nat (unat (snd p))"

definition get_expiry :: "string \<Rightarrow> (string \<times> 64 word) \<times> string" where
  "get_expiry s = (case get_str s of (k, s) \<Rightarrow> case get_nat s of (n, s) \<Rightarrow> ((k, of_nat n), s))"

definition demo_kv_out :: "kv_archive \<Rightarrow> string" where
  "demo_kv_out x = (case x of (d, rs, es) \<Rightarrow> put_str d @ put_many put_request rs @ put_many put_expiry es)"

definition demo_kv_in :: "string \<Rightarrow> exn + kv_archive" where
  "demo_kv_in s =
     (case get_str s of (d, s) \<Rightarrow> case get_list get_request s of (rs, s) \<Rightarrow> Inr (d, rs, fst (get_list get_expiry s)))"

definition demo_kv_env :: kv_env where
  "demo_kv_env = \<lparr>kv_raft = demo_env, kv_oarchive = demo_kv_out, kv_iarchive = demo_kv_in\<rparr>"

lemma demo_kv_ok: "kv_archive_ok demo_kv_env"
proof -
  have r: "get_list get_request (put_many put_request rs @ s) = (rs, s)" for rs s
    by (rule get_list_put) (simp add: get_request_def put_request_def)
  have e: "get_list get_expiry (put_many put_expiry es @ s) = (es, s)" for es s
    by (rule get_list_put) (simp add: get_expiry_def put_expiry_def)
  have "demo_kv_out x \<noteq> [] \<and> demo_kv_in (demo_kv_out x) = Inr x" for x
    using e [of "snd (snd x)" "[]"]
    by (cases x) (auto simp: demo_kv_out_def demo_kv_in_def r)
  then show ?thesis using demo_codecs_ok by (simp add: kv_archive_ok_def demo_kv_env_def)
qed

lemma demo_kv_raft [simp]: "kv_raft demo_kv_env = demo_env"
  by (simp add: demo_kv_env_def)

definition demo_leader :: "LogEntry list \<Rightarrow> int \<Rightarrow> ApplyMsg list \<Rightarrow> raft" where
  "demo_leader logs ci q =
     \<lparr>m_peers = 3, m_persister = Persister_new (\<lambda>_. True) 0 (\<lambda>_. None), m_me = 0, m_currentTerm = 1,
      m_votedFor = 0, m_logs = logs, m_commitIndex = ci, m_lastApplied = 0, m_nextIndex = [1, 1, 1],
      m_matchIndex = [0, 0, 0], m_status = Leader, applyChan = q, m_lastResetElectionTime = 0,
      m_lastResetHearBeatTime = 0, m_lastSnapshotIncludeIndex = 0, m_lastSnapshotIncludeTerm = 0\<rparr>"

definition demo_server :: "raft \<Rightarrow> skiplist cached kvserver" where
  "demo_server r =
     \<lparr>kv_me = 0, m_raftNode = r, m_maxRaftState = -1, m_serializedKVData = [], m_engine = CreateDefaultKVEngine,
      waitApplyCh = Map.empty, channels = Map.empty, next_channel = 0, m_lastRequestId = [],
      m_lastSnapShotRaftLogIndex = 0, m_expireMap = []\<rparr>"

definition demo_put :: "string \<Rightarrow> int \<Rightarrow> Op" where
  "demo_put v n = Op_new\<lparr>Operation := ''Put'', Key := ''k'', Value := v, ClientId := ''c'', RequestId := n\<rparr>"

definition demo_append :: "string \<Rightarrow> int \<Rightarrow> Op" where
  "demo_append v n = Op_new\<lparr>Operation := ''Append'', Key := ''k'', Value := v, ClientId := ''c'', RequestId := n\<rparr>"

lemmas demo_ops = demo_put_def demo_append_def Op_new_def

lemma demo_leader_wf:
  "indexed_from 1 logs \<Longrightarrow> 0 \<le> ci \<Longrightarrow> ci \<le> int (length logs) \<Longrightarrow> raft_wf (demo_leader logs ci q)"
  by (simp add: raft_wf_unfold demo_leader_def)

lemma demo_server_wf: "raft_wf r \<Longrightarrow> server_wf (default_ok demo_sl_env) (demo_server r)"
  using default_new(1) [OF demo_sl_ok] by (simp add: server_wf_def demo_server_def chan_ok_def)

lemma demo_server_abs: "kv_abs default_view (demo_server r) = \<lparr>kv_map = Map.empty, kv_expire = Map.empty, kv_done = Map.empty\<rparr>"
  using default_new(2) by (simp add: kv_abs_def demo_server_def)

lemma demo_server_fields [simp]:
  "m_raftNode (demo_server r) = r" "m_lastSnapShotRaftLogIndex (demo_server r) = 0"
  "waitApplyCh (demo_server r) = Map.empty" "channels (demo_server r) = Map.empty" "next_channel (demo_server r) = 0"
  "m_maxRaftState (demo_server r) = -1"
  by (simp_all add: demo_server_def)

lemma demo_leader_fields [simp]:
  "applyChan (demo_leader logs ci q) = q" "m_status (demo_leader logs ci q) = Leader"
  "m_commitIndex (demo_leader logs ci q) = ci" "m_logs (demo_leader logs ci q) = logs"
  "m_lastApplied (demo_leader logs ci q) = 0" "m_lastSnapshotIncludeIndex (demo_leader logs ci q) = 0"
  "m_currentTerm (demo_leader logs ci q) = 1"
  by (simp_all add: demo_leader_def)

end
