(* ===== verification/Byte_Codec.thy ===== *)
theory Byte_Codec
  imports KV_Prelude
begin

unbundle bit_operations_syntax

text \<open>
  The byte formats of \<open>storage/include/lsm_tree_engine.h\<close>: 64-bit integers written least
  significant byte first, and strings written as their length and their bytes.  The same format
  is written to a string (snapshots, read back with an offset) and to a file (write-ahead log,
  tables, manifest, read back from a stream, modelled by the bytes not yet read).  The lemmas are
  the round trips, and that a reader never moves its offset past the end of the input.
\<close>

type_synonym u64 = "64 word"

definition byte_at :: "u64 \<Rightarrow> nat \<Rightarrow> char" where
  "byte_at value i = char_of (unat (drop_bit (i * 8) value AND 0xff))"

definition uint64_bytes :: "u64 \<Rightarrow> string" where
  "uint64_bytes value = map (byte_at value) [0..<8]"

section \<open>Into and out of strings\<close>

definition WriteUint64 :: "string \<Rightarrow> u64 \<Rightarrow> string" where
  "WriteUint64 out value = foldl (\<lambda>out i. out @ [byte_at value i]) out [0..<8]"

text \<open>
  The C++ subtraction \<open>input.size() - *offset\<close> wraps around when the offset lies past the end, so the check
  passes and the read is out of bounds.
\<close>

definition ReadUint64 :: "string \<Rightarrow> nat \<Rightarrow> exn + u64 \<times> nat" where
  "ReadUint64 input offset =
     (if offset > length input then Inl (UndefinedBehaviour ''offset past the end of the snapshot'')
      else if length input - offset < 8 then Inl (RuntimeError ''LSM snapshot is truncated'')
      else Inr (foldl (\<lambda>value i. value OR push_bit (i * 8) (word_of_nat (of_char (input ! (offset + i)))))
                  0 [0..<8], offset + 8))"

definition WriteString :: "string \<Rightarrow> string \<Rightarrow> string" where
  "WriteString out value = WriteUint64 out (word_of_nat (length value)) @ value"

definition ReadString :: "string \<Rightarrow> nat \<Rightarrow> exn + string \<times> nat" where
  "ReadString input offset =
     bindE (ReadUint64 input offset) (\<lambda>(size, offset).
       if unat size > length input - offset
       then Inl (RuntimeError ''LSM snapshot string is truncated'')
       else Inr (take (unat size) (drop offset input), offset + unat size))"

section \<open>Into and out of files\<close>

definition WriteUint64ToStream :: "u64 \<Rightarrow> string" where
  "WriteUint64ToStream value = concat (map (\<lambda>i. [byte_at value i]) [0..<8])"

definition ReadUint64FromStream :: "string \<Rightarrow> exn + u64 \<times> string" where
  "ReadUint64FromStream stream =
     (if length stream < 8 then Inl (RuntimeError ''LSM WAL has a truncated integer'')
      else Inr (foldl (\<lambda>value i. value OR push_bit (i * 8) (word_of_nat (of_char (stream ! i))))
                  0 [0..<8], drop 8 stream))"

definition WriteStreamString :: "string \<Rightarrow> string" where
  "WriteStreamString value = WriteUint64ToStream (word_of_nat (length value)) @ value"

definition ReadStreamString :: "string \<Rightarrow> exn + string \<times> string" where
  "ReadStreamString stream =
     bindE (ReadUint64FromStream stream) (\<lambda>(size, stream).
       if length stream < unat size then Inl (RuntimeError ''LSM file string is truncated'')
       else Inr (take (unat size) stream, drop (unat size) stream))"

section \<open>Round trips\<close>

lemma length_uint64_bytes [simp]: "length (uint64_bytes v) = 8"
  by (simp add: uint64_bytes_def)

lemma WriteUint64_eq: "WriteUint64 out v = out @ uint64_bytes v"
  by (simp add: WriteUint64_def uint64_bytes_def upt_rec)

lemma WriteUint64ToStream_eq: "WriteUint64ToStream v = uint64_bytes v"
  by (simp add: WriteUint64ToStream_def uint64_bytes_def)

lemma byte_of_byte_at: "(word_of_nat (of_char (byte_at v i)) :: u64) = take_bit 8 (drop_bit (i * 8) v)"
proof -
  have m: "drop_bit (i * 8) v AND 0xff = take_bit 8 (drop_bit (i * 8) v)"
    by (simp add: take_bit_eq_mask mask_eq_exp_minus_1)
  have "unat (take_bit 8 (drop_bit (i * 8) v)) < 256"
    using take_bit_nat_less_exp [of 8 "unat (drop_bit (i * 8) v)"] by (simp add: unsigned_take_bit_eq)
  then show ?thesis
    by (simp add: byte_at_def m)
qed

lemma bit_piece:
  "bit (push_bit (i * 8) (take_bit 8 (drop_bit (i * 8) (v::u64)))) n \<longleftrightarrow>
   i * 8 \<le> n \<and> n < i * 8 + 8 \<and> bit v n \<and> n < 64"
  by (auto simp: bit_push_bit_iff bit_take_bit_iff bit_drop_bit_eq)

lemma or_pieces:
  "foldl (\<lambda>value i. value OR push_bit (i * 8) (take_bit 8 (drop_bit (i * 8) v))) 0 [0..<8] = (v::u64)"
proof (rule bit_word_eqI)
  fix n assume n: "n < LENGTH(64)"
  have upt: "[0..<8] = [0, 1, 2, 3, 4, 5, 6, 7]" by (simp add: upt_rec)
  have "bit (foldl (\<lambda>value i. value OR push_bit (i * 8) (take_bit 8 (drop_bit (i * 8) v))) 0 [0..<8]) n
        \<longleftrightarrow> (\<exists>i \<in> set [0..<8]. bit (push_bit (i * 8) (take_bit 8 (drop_bit (i * 8) v))) n)"
    unfolding upt by (simp add: bit_or_iff del: bit_push_bit_iff push_bit_take_bit)
  also have "\<dots> \<longleftrightarrow> bit v n"
  proof -
    have "n div 8 \<in> set [0..<8]" using n by auto
    moreover have "(n div 8) * 8 \<le> n" "n < (n div 8) * 8 + 8" by simp_all
    ultimately show ?thesis using n unfolding bit_piece
      by (intro iffI) (auto intro!: bexI [of _ "n div 8"])
  qed
  finally show "bit (foldl (\<lambda>value i. value OR push_bit (i * 8) (take_bit 8 (drop_bit (i * 8) v))) 0 [0..<8]) n = bit v n" .
qed

lemma foldl_cong_upt:
  "(\<And>i. i < n \<Longrightarrow> f i = g i) \<Longrightarrow> foldl (\<lambda>v i. h v (f i)) z [0..<n] = foldl (\<lambda>v i. h v (g i)) z [0..<n]"
  by (induction n) auto

lemma read_bytes:
  assumes "\<And>i. i < 8 \<Longrightarrow> s i = byte_at v i"
  shows "foldl (\<lambda>value i. value OR push_bit (i * 8) (word_of_nat (of_char (s i)))) 0 [0..<8] = v"
proof -
  have "foldl (\<lambda>value i. value OR push_bit (i * 8) (word_of_nat (of_char (s i)))) 0 [0..<8] =
        foldl (\<lambda>value i. value OR push_bit (i * 8) (take_bit 8 (drop_bit (i * 8) v))) 0 [0..<8]"
    by (rule foldl_cong_upt) (simp add: assms byte_of_byte_at)
  then show ?thesis by (simp only: or_pieces)
qed

lemma uint64_bytes_nth: "i < 8 \<Longrightarrow> uint64_bytes v ! i = byte_at v i"
  by (simp add: uint64_bytes_def)

lemma ReadUint64_append:
  "ReadUint64 (pre @ uint64_bytes v @ post) (length pre) = Inr (v, length pre + 8)"
  by (simp add: ReadUint64_def read_bytes nth_append uint64_bytes_nth)

lemma ReadUint64FromStream_append [simp]:
  "ReadUint64FromStream (uint64_bytes v @ post) = Inr (v, post)"
  by (simp add: ReadUint64FromStream_def read_bytes nth_append uint64_bytes_nth)

lemma unat_length [simp]: "length s < 2 ^ 64 \<Longrightarrow> unat (word_of_nat (length s) :: u64) = length s"
  by (simp add: unat_of_nat take_bit_nat_eq_self)

lemma WriteString_eq: "WriteString out s = out @ uint64_bytes (word_of_nat (length s)) @ s"
  by (simp add: WriteString_def WriteUint64_eq)

lemma ReadString_append:
  assumes "length s < 2 ^ 64"
  shows "ReadString (pre @ uint64_bytes (word_of_nat (length s)) @ s @ post) (length pre) =
         Inr (s, length pre + 8 + length s)"
proof -
  have "ReadUint64 (pre @ uint64_bytes (word_of_nat (length s)) @ s @ post) (length pre) =
        Inr (word_of_nat (length s), length pre + 8)" by (rule ReadUint64_append)
  then show ?thesis using assms by (simp add: ReadString_def)
qed

lemma ReadStreamString_append [simp]:
  "length s < 2 ^ 64 \<Longrightarrow> ReadStreamString (WriteStreamString s @ post) = Inr (s, post)"
  by (simp add: ReadStreamString_def WriteStreamString_def WriteUint64ToStream_eq)

lemma ReadUint64_offset: "ReadUint64 input offset = Inr (v, offset') \<Longrightarrow> offset' = offset + 8 \<and> offset' \<le> length input"
  by (auto simp: ReadUint64_def split: if_splits)

lemma ReadString_offset:
  "ReadString input offset = Inr (s, offset') \<Longrightarrow> offset' = offset + 8 + length s \<and> offset' \<le> length input"
  by (auto simp: ReadString_def bindE_Inr_iff split: if_splits dest!: ReadUint64_offset)

lemma ReadUint64FromStream_length:
  "ReadUint64FromStream stream = Inr (v, rest) \<Longrightarrow> length stream = length rest + 8"
  by (auto simp: ReadUint64FromStream_def split: if_splits)

end
