(* ===== verification/Lsm_Table.thy ===== *)
theory Lsm_Table
  imports Byte_Codec
begin

text \<open>
  The sorted tables of \<open>storage/include/lsm_tree_engine.h\<close>: entries, the Bloom filter and the
  block index of a table, and how both are rebuilt from its entries.  The string hash is that of
  the standard library, whose function is not specified: it is a parameter.  An iterator into the
  entries is a position.  The lemmas show that the filter and the key range never hide a key,
  that a search through the block index finds exactly what the entries hold, and that its scan
  never depends on the end iterator of a block.
\<close>

datatype EntryType = Put | Delete

record Entry =
  entry_type :: EntryType
  entry_value :: string

type_synonym memtable = "(string, Entry) smap"

record BlockMeta =
  firstKey :: string
  lastKey :: string
  block_begin :: nat
  block_end :: nat

record SSTable =
  sequence :: u64
  minKey :: string
  maxKey :: string
  filePath :: string
  bloomBits :: "u64 list"
  blocks :: "BlockMeta list"
  entries :: memtable

definition kBloomBitCount :: nat where "kBloomBitCount = 2048"
definition kBloomWordCount :: nat where "kBloomWordCount = kBloomBitCount div 64"
definition kBloomHashCount :: nat where "kBloomHashCount = 4"
definition kBlockEntryCount :: nat where "kBlockEntryCount = 16"

section \<open>The Bloom filter\<close>

definition bloom_bit :: "(string \<Rightarrow> u64) \<Rightarrow> string \<Rightarrow> nat \<Rightarrow> nat" where
  "bloom_bit hash key i =
     (let h1 = hash key; h2 = hash (''lsm:'' @ key)
      in unat ((h1 + word_of_nat i * h2 + word_of_nat i * word_of_nat i) mod word_of_nat kBloomBitCount))"

definition set_bloom_bit :: "nat \<Rightarrow> u64 list \<Rightarrow> u64 list" where
  "set_bloom_bit b bits = bits[b div 64 := bits ! (b div 64) OR push_bit (b mod 64) 1]"

definition AddBloomKey :: "(string \<Rightarrow> u64) \<Rightarrow> string \<Rightarrow> SSTable \<Rightarrow> SSTable" where
  "AddBloomKey hash key t =
     (let bits = (if bloomBits t = [] then replicate kBloomWordCount 0 else bloomBits t)
      in t\<lparr>bloomBits := foldl (\<lambda>bits i. set_bloom_bit (bloom_bit hash key i) bits) bits [0..<kBloomHashCount]\<rparr>)"

definition BloomMayContain :: "(string \<Rightarrow> u64) \<Rightarrow> SSTable \<Rightarrow> string \<Rightarrow> bool" where
  "BloomMayContain hash t key =
     (if bloomBits t = [] then False
      else list_all (\<lambda>i. let b = bloom_bit hash key i
                         in bloomBits t ! (b div 64) AND push_bit (b mod 64) 1 \<noteq> 0) [0..<kBloomHashCount])"

definition MayContain :: "(string \<Rightarrow> u64) \<Rightarrow> SSTable \<Rightarrow> string \<Rightarrow> bool" where
  "MayContain hash t key =
     (if entries t = [] then False
      else key \<ge> minKey t \<and> key \<le> maxKey t \<and> BloomMayContain hash t key)"

section \<open>The block index\<close>

function scan_block :: "memtable \<Rightarrow> string \<Rightarrow> nat \<Rightarrow> nat \<Rightarrow> exn + Entry option" where
  "scan_block es key it stop =
     (if it = stop then Inr None
      else if it \<ge> length es then Inl (UndefinedBehaviour ''iterator past the end of the table'')
      else if fst (es ! it) = key then Inr (Some (snd (es ! it)))
      else if fst (es ! it) > key then Inr None
      else scan_block es key (Suc it) stop)"
  by pat_completeness auto
termination by (relation "measure (\<lambda>(es, key, it, stop). length es - it)") auto

fun find_in_blocks :: "memtable \<Rightarrow> BlockMeta list \<Rightarrow> string \<Rightarrow> exn + Entry option" where
  "find_in_blocks es [] key = Inr None"
| "find_in_blocks es (b # bs) key =
     (if key < firstKey b \<or> key > lastKey b then find_in_blocks es bs key
      else scan_block es key (block_begin b) (block_end b))"

definition FindInIndexedBlock :: "SSTable \<Rightarrow> string \<Rightarrow> exn + Entry option" where
  "FindInIndexedBlock t key = find_in_blocks (entries t) (blocks t) key"

function grow_block :: "memtable \<Rightarrow> nat \<Rightarrow> nat \<Rightarrow> string \<Rightarrow> nat \<times> string" where
  "grow_block es e count lk =
     (if e < length es \<and> count < kBlockEntryCount
      then grow_block es (Suc e) (Suc count) (fst (es ! e))
      else (e, lk))"
  by pat_completeness auto
termination by (relation "measure (\<lambda>(es, e, count, lk). length es - e)") auto

declare scan_block.simps [simp del] grow_block.simps [simp del]

lemma grow_block_bounds:
  "e \<le> length es \<Longrightarrow> e \<le> fst (grow_block es e count lk) \<and> fst (grow_block es e count lk) \<le> length es"
proof (induction es e count lk rule: grow_block.induct)
  case (1 es e count lk)
  then show ?case by (subst (1 2) grow_block.simps) auto
qed

lemma grow_block_progress: "e < length es \<Longrightarrow> e < fst (grow_block es e 0 lk)"
  using grow_block_bounds [of "Suc e" es "Suc 0"]
  by (subst grow_block.simps) (auto simp: kBlockEntryCount_def Suc_le_eq)

lemma grow_block_last:
  "e \<le> length es \<Longrightarrow> fst (grow_block es e count lk) > e \<Longrightarrow>
   snd (grow_block es e count lk) = fst (es ! (fst (grow_block es e count lk) - 1))"
proof (induction es e count lk rule: grow_block.induct)
  case (1 es e count lk)
  show ?case
  proof (cases "e < length es \<and> count < kBlockEntryCount")
    case True
    let ?g = "grow_block es (Suc e) (Suc count) (fst (es ! e))"
    have g: "grow_block es e count lk = ?g" using True by (subst grow_block.simps) simp
    show ?thesis
    proof (cases "fst ?g > Suc e")
      case False
      then have "fst ?g = Suc e" using grow_block_bounds [of "Suc e" es "Suc count"] True
        by (metis Suc_leI le_neq_implies_less)
      then have "?g = (Suc e, fst (es ! e))"
        using grow_block_bounds [of "Suc (Suc e)" es "Suc (Suc count)" "fst (es ! Suc e)"]
        by (subst (asm) grow_block.simps, subst grow_block.simps) (auto split: if_splits)
      then show ?thesis by (simp add: g)
    qed (use True "1.IH" in \<open>simp add: g\<close>)
  next
    case False
    then have "grow_block es e count lk = (e, lk)" by (subst grow_block.simps) auto
    then show ?thesis using "1.prems" by simp
  qed
qed

function build_blocks :: "memtable \<Rightarrow> nat \<Rightarrow> BlockMeta list" where
  "build_blocks es blockBegin =
     (if blockBegin < length es
      then (case grow_block es blockBegin 0 (fst (es ! blockBegin)) of
              (blockEnd, lk) \<Rightarrow>
                \<lparr>firstKey = fst (es ! blockBegin), lastKey = lk,
                 block_begin = blockBegin, block_end = blockEnd\<rparr> # build_blocks es blockEnd)
      else [])"
  by pat_completeness auto
termination
  by (relation "measure (\<lambda>(es, b). length es - b)")
    (auto dest: grow_block_progress, metis diff_less_mono2 fst_conv grow_block_progress)

declare build_blocks.simps [simp del]

definition RebuildSSTableMetadata :: "(string \<Rightarrow> u64) \<Rightarrow> SSTable \<Rightarrow> SSTable" where
  "RebuildSSTableMetadata hash t =
     (let t = t\<lparr>bloomBits := [], blocks := [], minKey := [], maxKey := []\<rparr>
      in if entries t = [] then t
         else (let t = t\<lparr>minKey := fst (hd (entries t)), maxKey := fst (last (entries t))\<rparr>;
                   t = foldl (\<lambda>t item. AddBloomKey hash (fst item) t) t (entries t)
               in t\<lparr>blocks := build_blocks (entries t) 0\<rparr>))"

section \<open>The filter has no false negatives\<close>

definition bloom_has :: "u64 list \<Rightarrow> nat \<Rightarrow> bool" where
  "bloom_has bits b \<longleftrightarrow> bit (bits ! (b div 64)) (b mod 64)"

lemma bloom_bit_bound: "bloom_bit hash key i < 2048"
proof -
  have "unat ((x :: u64) mod 2048) < 2048" for x
    by (simp add: unat_mod_distrib)
  then show ?thesis by (simp add: bloom_bit_def Let_def kBloomBitCount_def)
qed

lemma length_set_bloom_bit [simp]: "length (set_bloom_bit b bits) = length bits"
  by (simp add: set_bloom_bit_def)

lemma set_bloom_bit_has:
  "length bits = 32 \<Longrightarrow> b < 2048 \<Longrightarrow> bloom_has (set_bloom_bit b bits) b"
  by (auto simp: bloom_has_def set_bloom_bit_def bit_or_iff bit_exp_iff nth_list_update)

lemma set_bloom_bit_keeps: "bloom_has bits c \<Longrightarrow> bloom_has (set_bloom_bit b bits) c"
  by (cases "b div 64 < length bits")
    (auto simp: bloom_has_def set_bloom_bit_def bit_or_iff nth_list_update list_update_beyond)

lemma fold_bloom_keeps: "bloom_has bits c \<Longrightarrow> bloom_has (foldl (\<lambda>bits i. set_bloom_bit (f i) bits) bits is) c"
  by (induction "is" arbitrary: bits) (auto simp: set_bloom_bit_keeps)

lemma length_fold_bloom [simp]: "length (foldl (\<lambda>bits i. set_bloom_bit (f i) bits) bits is) = length bits"
  by (induction "is" arbitrary: bits) auto

lemma fold_bloom_has:
  "length bits = 32 \<Longrightarrow> i \<in> set is \<Longrightarrow> f i < 2048 \<Longrightarrow>
   bloom_has (foldl (\<lambda>bits i. set_bloom_bit (f i) bits) bits is) (f i)"
  by (induction "is" arbitrary: bits) (auto simp: fold_bloom_keeps set_bloom_bit_has)

definition bloom_covers :: "(string \<Rightarrow> u64) \<Rightarrow> SSTable \<Rightarrow> string \<Rightarrow> bool" where
  "bloom_covers hash t key \<longleftrightarrow> (\<forall>i < kBloomHashCount. bloom_has (bloomBits t) (bloom_bit hash key i))"

definition bloom_shape :: "SSTable \<Rightarrow> bool" where
  "bloom_shape t \<longleftrightarrow> bloomBits t = [] \<or> length (bloomBits t) = 32"

lemma BloomMayContain_iff:
  "BloomMayContain hash t key \<longleftrightarrow> bloomBits t \<noteq> [] \<and> bloom_covers hash t key"
  by (auto simp: BloomMayContain_def bloom_covers_def list_all_iff Let_def bloom_has_def
      and_exp_eq_0_iff_not_bit)

lemma AddBloomKey_frame [simp]:
  "entries (AddBloomKey hash key t) = entries t" "minKey (AddBloomKey hash key t) = minKey t"
  "maxKey (AddBloomKey hash key t) = maxKey t" "sequence (AddBloomKey hash key t) = sequence t"
  "filePath (AddBloomKey hash key t) = filePath t" "blocks (AddBloomKey hash key t) = blocks t"
  by (simp_all add: AddBloomKey_def Let_def)

lemma AddBloomKey_shape:
  "bloom_shape t \<Longrightarrow> length (bloomBits (AddBloomKey hash key t)) = 32"
  by (auto simp: AddBloomKey_def bloom_shape_def Let_def kBloomWordCount_def kBloomBitCount_def)

lemma AddBloomKey_covers: "bloom_shape t \<Longrightarrow> bloom_covers hash (AddBloomKey hash key t) key"
  unfolding bloom_covers_def AddBloomKey_def Let_def
  by (auto simp: bloom_shape_def kBloomWordCount_def kBloomBitCount_def bloom_bit_bound
      intro!: fold_bloom_has)

lemma AddBloomKey_keeps:
  "bloomBits t \<noteq> [] \<Longrightarrow> bloom_covers hash t c \<Longrightarrow> bloom_covers hash (AddBloomKey hash key t) c"
  by (simp add: bloom_covers_def AddBloomKey_def Let_def fold_bloom_keeps)

abbreviation add_all :: "(string \<Rightarrow> u64) \<Rightarrow> SSTable \<Rightarrow> memtable \<Rightarrow> SSTable" where
  "add_all hash t es \<equiv> foldl (\<lambda>t item. AddBloomKey hash (fst item) t) t es"

lemma add_all_frame [simp]:
  "entries (add_all hash t es) = entries t" "minKey (add_all hash t es) = minKey t"
  "maxKey (add_all hash t es) = maxKey t" "sequence (add_all hash t es) = sequence t"
  "filePath (add_all hash t es) = filePath t" "blocks (add_all hash t es) = blocks t"
  by (induction es arbitrary: t) simp_all

lemma add_all_keeps:
  "length (bloomBits t) = 32 \<Longrightarrow> bloom_covers hash t c \<Longrightarrow>
   length (bloomBits (add_all hash t es)) = 32 \<and> bloom_covers hash (add_all hash t es) c"
proof (induction es arbitrary: t)
  case (Cons p es)
  have "bloom_shape t" "bloomBits t \<noteq> []" using Cons.prems(1) by (auto simp: bloom_shape_def)
  then show ?case using Cons by (simp add: AddBloomKey_shape AddBloomKey_keeps)
qed simp

lemma add_all_covers:
  "bloom_shape t \<Longrightarrow> p \<in> set es \<Longrightarrow>
   length (bloomBits (add_all hash t es)) = 32 \<and> bloom_covers hash (add_all hash t es) (fst p)"
proof (induction es arbitrary: t)
  case (Cons q es)
  have len: "length (bloomBits (AddBloomKey hash (fst q) t)) = 32"
    using Cons.prems(1) by (rule AddBloomKey_shape)
  show ?case
  proof (cases "p \<in> set es")
    case True
    then show ?thesis using Cons.IH len by (simp add: bloom_shape_def)
  next
    case False
    then have "p = q" using Cons.prems(2) by simp
    then show ?thesis using add_all_keeps [OF len, of hash "fst q" es] Cons.prems(1)
      by (simp add: AddBloomKey_covers)
  qed
qed simp

section \<open>The block index finds what the entries hold\<close>

lemma map_of_drop_step:
  "i < length es \<Longrightarrow> map_of (drop i es) key =
     (if fst (es ! i) = key then Some (snd (es ! i)) else map_of (drop (Suc i) es) key)"
  by (cases "es ! i") (simp flip: Cons_nth_drop_Suc)

lemma smap_drop_keys_greater:
  assumes "smap_wf es" "i < length es" "key < fst (es ! i)"
  shows "map_of (drop i es) key = None"
proof -
  have "key < fst p" if p: "p \<in> set (drop i es)" for p
  proof -
    obtain j where "j < length es - i" and p': "p = es ! (i + j)"
      using p assms(2) by (auto simp: in_set_conv_nth)
    then have j: "i + j < length es" "p = es ! (i + j)" by auto
    then show ?thesis using assms smap_wf_nth_less [of es i "i + j"]
      by (cases "j = 0") (auto dest: order.strict_trans)
  qed
  then show ?thesis by (auto simp: map_of_eq_None_iff image_iff)
qed

lemma map_of_drop_greater:
  assumes "smap_wf es" "b < e" "e \<le> length es" "key > fst (es ! (e - 1))"
  shows "map_of (drop b es) key = map_of (drop e es) key"
proof -
  have "b \<le> e" using assms(2) by simp
  then show ?thesis
proof (induction b rule: inc_induct)
  case (step n)
  have "fst (es ! n) \<le> fst (es ! (e - 1))"
    using smap_wf_nth_less [OF assms(1), of n "e - 1"] step.hyps assms(3) by (cases "n = e - 1") (auto simp: less_imp_le)
  then have "fst (es ! n) \<noteq> key" using assms(4) by auto
  then show ?case using step assms(3) by (simp add: map_of_drop_step)
qed simp
qed

text \<open>
  The scan of a block: when the key is at most the last key of the block, the scan decides
  before it reaches the end iterator, so the answer is the same for any other end.
\<close>

lemma scan_block_finds:
  assumes wf: "smap_wf es" and "key \<le> fst (es ! (e - 1))" and "e \<le> length es"
  shows "b < e \<Longrightarrow> stop \<notin> {b..<e} \<Longrightarrow> scan_block es key b stop = Inr (map_of (drop b es) key)"
proof (induction "e - b" arbitrary: b)
  case (Suc n)
  have b: "b \<noteq> stop" "b < length es" using Suc.prems assms(3) by auto
  show ?case
  proof (cases "fst (es ! b) \<ge> key")
    case True
    then show ?thesis
      using b smap_drop_keys_greater [OF wf b(2), of key]
      by (subst scan_block.simps) (auto simp: map_of_drop_step)
  next
    case False
    then have "b \<noteq> e - 1" using assms(2) by auto
    then have "Suc b < e" "stop \<notin> {Suc b..<e}" "n = e - Suc b" using Suc by auto
    then have "scan_block es key (Suc b) stop = Inr (map_of (drop (Suc b) es) key)"
      using Suc.hyps(1) by blast
    then show ?thesis using b False by (subst scan_block.simps) (auto simp: map_of_drop_step)
  qed
qed simp

lemma find_in_build_blocks:
  "smap_wf es \<Longrightarrow> find_in_blocks es (build_blocks es b) key = Inr (map_of (drop b es) key)"
proof (induction es b rule: build_blocks.induct)
  case (1 es b)
  show ?case
  proof (cases "b < length es")
    case False
    then show ?thesis by (subst build_blocks.simps) simp
  next
    case True
    obtain e lk where g: "grow_block es b 0 (fst (es ! b)) = (e, lk)" by fastforce
    have e: "b < e" "e \<le> length es" "lk = fst (es ! (e - 1))"
      using grow_block_progress [OF True, of "fst (es ! b)"] True
        grow_block_bounds [of b es 0 "fst (es ! b)"] grow_block_last [of b es 0 "fst (es ! b)"]
      by (auto simp: g)
    have IH: "find_in_blocks es (build_blocks es e) key = Inr (map_of (drop e es) key)"
      using "1.IH" [OF True g [symmetric] "1.prems"] .
    have blk: "find_in_blocks es (build_blocks es b) key =
        (if key < fst (es ! b) \<or> key > lk then Inr (map_of (drop e es) key) else scan_block es key b e)"
      using True by (subst build_blocks.simps) (simp add: g IH)
    consider "key < fst (es ! b)" | "key > lk" | "fst (es ! b) \<le> key" "key \<le> lk" by fastforce
    then show ?thesis
    proof cases
      case 1
      have "map_of (drop b es) key = None" by (rule smap_drop_keys_greater [OF "1.prems" True 1])
      moreover have "map_of (drop e es) key = None"
        using set_drop_subset_set_drop [of b e es] e(1) calculation by (auto simp: map_of_eq_None_iff)
      ultimately show ?thesis using 1 by (simp add: blk)
    next
      case 2
      then show ?thesis using map_of_drop_greater [OF "1.prems" e(1,2)] e(3) by (simp add: blk)
    next
      case 3
      then show ?thesis using scan_block_finds [OF "1.prems" _ e(2) e(1), of key e] e(3) by (simp add: blk)
    qed
  qed
qed

section \<open>Tables whose metadata was rebuilt\<close>

lemma smap_bounds:
  assumes "smap_wf es" "map_of es key = Some e"
  shows "fst (hd es) \<le> key" "key \<le> fst (last es)"
proof -
  obtain i where i: "i < length es" "fst (es ! i) = key"
    using assms(2) by (metis fst_conv in_set_conv_nth map_of_SomeD)
  have ne: "es \<noteq> []" using i by auto
  show "fst (hd es) \<le> key"
    using i smap_wf_nth_less [OF assms(1), of 0 i] by (cases i) (auto simp: hd_conv_nth [OF ne] less_imp_le)
  show "key \<le> fst (last es)"
    using i smap_wf_nth_less [OF assms(1), of i "length es - 1"]
    by (cases "i = length es - 1") (auto simp: last_conv_nth [OF ne] less_imp_le)
qed

definition table_ok :: "(string \<Rightarrow> u64) \<Rightarrow> SSTable \<Rightarrow> bool" where
  "table_ok hash t \<longleftrightarrow> smap_wf (entries t) \<and>
     (entries t \<noteq> [] \<longrightarrow>
        minKey t = fst (hd (entries t)) \<and> maxKey t = fst (last (entries t)) \<and>
        length (bloomBits t) = 32 \<and> (\<forall>p \<in> set (entries t). bloom_covers hash t (fst p)) \<and>
        blocks t = build_blocks (entries t) 0)"

lemma Rebuild_frame [simp]:
  "entries (RebuildSSTableMetadata hash t) = entries t"
  "sequence (RebuildSSTableMetadata hash t) = sequence t"
  "filePath (RebuildSSTableMetadata hash t) = filePath t"
  by (simp_all add: RebuildSSTableMetadata_def Let_def)

lemma Rebuild_ok: "smap_wf (entries t) \<Longrightarrow> table_ok hash (RebuildSSTableMetadata hash t)"
proof -
  assume wf: "smap_wf (entries t)"
  let ?t = "t\<lparr>bloomBits := [], blocks := [], minKey := fst (hd (entries t)), maxKey := fst (last (entries t))\<rparr>"
  have shape: "bloom_shape ?t" by (simp add: bloom_shape_def)
  have cov: "length (bloomBits (add_all hash ?t (entries t))) = 32 \<and>
      bloom_covers hash (add_all hash ?t (entries t)) (fst p)" if "p \<in> set (entries t)" for p
    using add_all_covers [OF shape that] .
  then have "length (bloomBits (add_all hash ?t (entries t))) = 32" if "entries t \<noteq> []"
    using that by (metis hd_in_set)
  then show ?thesis
    using wf cov by (auto simp: table_ok_def RebuildSSTableMetadata_def Let_def bloom_covers_def)
qed

lemma table_ok_filePath [simp]: "table_ok hash (t\<lparr>filePath := p\<rparr>) = table_ok hash t"
  by (simp add: table_ok_def bloom_covers_def)

lemma MayContain_complete:
  assumes "table_ok hash t" "map_of (entries t) key = Some e"
  shows "MayContain hash t key"
proof -
  have ne: "entries t \<noteq> []" using assms(2) by auto
  obtain p where "p \<in> set (entries t)" "fst p = key" using assms(2) by (metis fst_conv map_of_SomeD)
  then have "bloom_covers hash t key" using assms(1) ne by (auto simp: table_ok_def)
  moreover have "bloomBits t \<noteq> []" using assms(1) ne by (auto simp: table_ok_def)
  ultimately show ?thesis
    using assms ne smap_bounds [of "entries t" key e]
    by (simp add: MayContain_def BloomMayContain_iff table_ok_def)
qed

lemma FindInIndexedBlock_correct:
  assumes "table_ok hash t" "entries t \<noteq> []"
  shows "FindInIndexedBlock t key = Inr (map_of (entries t) key)"
  using assms find_in_build_blocks [of "entries t" 0 key]
  by (simp add: FindInIndexedBlock_def table_ok_def)

lemma MayContain_nonempty: "MayContain hash t key \<Longrightarrow> entries t \<noteq> []"
  by (auto simp: MayContain_def)

end
