(* ===== verification/Lsm_Engine.thy ===== *)
theory Lsm_Engine
  imports Lsm_Table Kv_Engine
begin

text \<open>
  \<open>LSMTreeEngine\<close> of \<open>storage/include/lsm_tree_engine.h\<close>: mem table, immutable mem tables, sorted
  tables, write-ahead log and manifest, each private routine and each public operation in the
  order of the source.  Files are byte strings by path.  What the file system does is a
  parameter: which paths can be opened for writing, and how many bytes of an output reach a
  file before a write fails.  A routine that throws leaves the object in the state it had
  reached.  Locks are left out: every public operation runs under the engine's mutex.
  The theory \<open>Lsm_Proofs\<close> has the correctness lemmas.
\<close>

type_synonym disk = "string \<rightharpoonup> string"

record lsm_env =
  str_hash :: "string \<Rightarrow> u64"
  can_open :: "string \<Rightarrow> bool"
  short_write :: "string \<Rightarrow> nat option"

record lsm =
  m_memTableFlushThreshold :: nat
  m_nextSSTableSequence :: u64
  m_walPath :: string
  m_manifestPath :: string
  m_asyncFlushEnabled :: bool
  m_memTable :: memtable
  m_immutableMemTables :: "memtable list"
  m_sstables :: "SSTable list"
  m_backgroundStop :: bool
  m_backgroundRunning :: bool
  m_backgroundWorkPending :: bool
  lsm_disk :: disk

section \<open>Output files\<close>

datatype write_status = OpenFailed | WriteFailed | Written

definition put_file :: "lsm_env \<Rightarrow> string \<Rightarrow> string \<Rightarrow> string \<Rightarrow> disk \<Rightarrow> disk \<times> write_status" where
  "put_file env path old bytes d =
     (if \<not> can_open env path then (d, OpenFailed)
      else case short_write env path of
             None \<Rightarrow> (d(path \<mapsto> old @ bytes), Written)
           | Some n \<Rightarrow> (d(path \<mapsto> old @ take n bytes), WriteFailed))"

definition write_trunc :: "lsm_env \<Rightarrow> string \<Rightarrow> string \<Rightarrow> disk \<Rightarrow> disk \<times> write_status" where
  "write_trunc env path bytes d = put_file env path [] bytes d"

definition write_app :: "lsm_env \<Rightarrow> string \<Rightarrow> string \<Rightarrow> disk \<Rightarrow> disk \<times> write_status" where
  "write_app env path bytes d =
     put_file env path (case d path of None \<Rightarrow> [] | Some old \<Rightarrow> old) bytes d"

section \<open>Records of the log and of the table files\<close>

record WALRecord =
  rec_type :: EntryType
  rec_key :: string
  rec_value :: string

definition type_byte :: "EntryType \<Rightarrow> char" where
  "type_byte ty = (case ty of Put \<Rightarrow> char_of (1::nat) | Delete \<Rightarrow> char_of (2::nat))"

definition type_of_byte :: "char \<Rightarrow> EntryType option" where
  "type_of_byte c = (if of_char c = (1::nat) then Some Put
                     else if of_char c = (2::nat) then Some Delete else None)"

definition WriteWALRecord :: "WALRecord \<Rightarrow> string" where
  "WriteWALRecord r =
     [type_byte (rec_type r)] @ WriteUint64ToStream (word_of_nat (length (rec_key r))) @
     WriteUint64ToStream (word_of_nat (length (rec_value r))) @ rec_key r @ rec_value r"

definition ReadWALRecord :: "string \<Rightarrow> exn + WALRecord \<times> string" where
  "ReadWALRecord stream =
     (case stream of
        [] \<Rightarrow> Inl (RuntimeError ''LSM WAL has a truncated record type'')
      | rawType # stream \<Rightarrow>
          bindE (ReadUint64FromStream stream) (\<lambda>(keySize, stream).
          bindE (ReadUint64FromStream stream) (\<lambda>(valueSize, stream).
            case type_of_byte rawType of
              None \<Rightarrow> Inl (RuntimeError ''LSM WAL has an invalid record type'')
            | Some ty \<Rightarrow>
                if length stream < unat keySize + unat valueSize
                then Inl (RuntimeError ''LSM WAL has a truncated record body'')
                else Inr (\<lparr>rec_type = ty, rec_key = take (unat keySize) stream,
                           rec_value = take (unat valueSize) (drop (unat keySize) stream)\<rparr>,
                          drop (unat keySize + unat valueSize) stream))))"

definition table_bytes :: "memtable \<Rightarrow> string" where
  "table_bytes es =
     WriteUint64ToStream (word_of_nat (length es)) @
     concat (map (\<lambda>item. [type_byte (entry_type (snd item))] @
                    WriteUint64ToStream (word_of_nat (length (fst item))) @
                    WriteUint64ToStream (word_of_nat (length (entry_value (snd item)))) @
                    fst item @ entry_value (snd item)) es)"

fun read_table_entries :: "nat \<Rightarrow> string \<Rightarrow> memtable \<Rightarrow> exn + memtable" where
  "read_table_entries 0 stream es = Inr es"
| "read_table_entries (Suc n) stream es =
     (case stream of
        [] \<Rightarrow> Inl (RuntimeError ''LSM SSTable has a truncated record type'')
      | rawType # stream \<Rightarrow>
          bindE (ReadUint64FromStream stream) (\<lambda>(keySize, stream).
          bindE (ReadUint64FromStream stream) (\<lambda>(valueSize, stream).
            case type_of_byte rawType of
              None \<Rightarrow> Inl (RuntimeError ''LSM SSTable has an invalid record type'')
            | Some ty \<Rightarrow>
                if length stream < unat keySize + unat valueSize
                then Inl (RuntimeError ''LSM SSTable has a truncated record body'')
                else read_table_entries n (drop (unat keySize + unat valueSize) stream)
                       (smap_put (take (unat keySize) stream)
                          \<lparr>entry_type = ty, entry_value = take (unat valueSize) (drop (unat keySize) stream)\<rparr> es))))"

definition new_table :: "u64 \<Rightarrow> string \<Rightarrow> memtable \<Rightarrow> SSTable" where
  "new_table seq path es = \<lparr>sequence = seq, minKey = [], maxKey = [], filePath = path,
                            bloomBits = [], blocks = [], entries = es\<rparr>"

definition LoadSSTable :: "lsm_env \<Rightarrow> disk \<Rightarrow> u64 \<Rightarrow> string \<Rightarrow> exn + SSTable" where
  "LoadSSTable env d seq path =
     (case d path of
        None \<Rightarrow> Inl (RuntimeError ''failed to open LSM SSTable'')
      | Some file \<Rightarrow>
          bindE (ReadUint64FromStream file) (\<lambda>(count, stream).
          bindE (read_table_entries (unat count) stream []) (\<lambda>es.
            Inr (RebuildSSTableMetadata (str_hash env) (new_table seq path es)))))"

section \<open>Looking up and exporting\<close>

fun find_in_tables :: "lsm_env \<Rightarrow> SSTable list \<Rightarrow> string \<Rightarrow> exn + Entry option" where
  "find_in_tables env [] key = Inr None"
| "find_in_tables env (t # ts) key =
     (if \<not> MayContain (str_hash env) t key then find_in_tables env ts key
      else bindE (FindInIndexedBlock t key) (\<lambda>r.
             case r of Some e \<Rightarrow> Inr (Some e) | None \<Rightarrow> find_in_tables env ts key))"

fun find_in_memtables :: "memtable list \<Rightarrow> string \<Rightarrow> Entry option" where
  "find_in_memtables [] key = None"
| "find_in_memtables (m # ms) key =
     (case map_of m key of Some e \<Rightarrow> Some e | None \<Rightarrow> find_in_memtables ms key)"

definition FindEntryLocked :: "lsm_env \<Rightarrow> lsm \<Rightarrow> string \<Rightarrow> exn + Entry option" where
  "FindEntryLocked env s key =
     (case map_of (m_memTable s) key of
        Some e \<Rightarrow> Inr (Some e)
      | None \<Rightarrow>
          (case find_in_memtables (rev (m_immutableMemTables s)) key of
             Some e \<Rightarrow> Inr (Some e)
           | None \<Rightarrow> find_in_tables env (rev (m_sstables s)) key))"

definition lsm_Get :: "lsm_env \<Rightarrow> lsm \<Rightarrow> string \<Rightarrow> exn + string option" where
  "lsm_Get env s key =
     bindE (FindEntryLocked env s key) (\<lambda>found.
       case found of
         None \<Rightarrow> Inr None
       | Some entry \<Rightarrow> if entry_type entry = Delete then Inr None else Inr (Some (entry_value entry)))"

fun applyNewestFirst :: "memtable \<Rightarrow> (string, string) smap \<times> string set \<Rightarrow> (string, string) smap \<times> string set" where
  "applyNewestFirst [] (result, seen) = (result, seen)"
| "applyNewestFirst (item # es) (result, seen) =
     (if fst item \<in> seen then applyNewestFirst es (result, seen)
      else applyNewestFirst es
             (if entry_type (snd item) = Put then smap_put (fst item) (entry_value (snd item)) result else result,
              insert (fst item) seen))"

definition ExportVisibleDataLocked :: "lsm \<Rightarrow> (string, string) smap" where
  "ExportVisibleDataLocked s =
     (let acc = applyNewestFirst (m_memTable s) ([], {});
          acc = foldl (\<lambda>acc m. applyNewestFirst m acc) acc (rev (m_immutableMemTables s));
          acc = foldl (\<lambda>acc t. applyNewestFirst (entries t) acc) acc (rev (m_sstables s))
      in fst acc)"

definition RangeScan :: "lsm \<Rightarrow> string \<Rightarrow> string \<Rightarrow> (string \<times> string) list" where
  "RangeScan s startKey endKey =
     (if startKey > endKey then []
      else takeWhile (\<lambda>item. fst item \<le> endKey)
             (dropWhile (\<lambda>item. fst item < startKey) (ExportVisibleDataLocked s)))"

definition lsm_Size :: "lsm \<Rightarrow> int" where
  "lsm_Size s = size_to_int (length (ExportVisibleDataLocked s))"

definition SSTableCount :: "lsm \<Rightarrow> nat" where
  "SSTableCount s = length (m_sstables s)"

definition lsm_Snapshot :: "lsm \<Rightarrow> string" where
  "lsm_Snapshot s =
     (let data = ExportVisibleDataLocked s;
          snapshot = WriteUint64 [] (word_of_nat (length data))
      in foldl (\<lambda>snapshot item. WriteString (WriteString snapshot (fst item)) (snd item)) snapshot data)"

section \<open>Writing the log, the tables and the manifest\<close>

definition AppendWALLocked :: "lsm_env \<Rightarrow> EntryType \<Rightarrow> string \<Rightarrow> string \<Rightarrow> lsm \<Rightarrow> lsm proc" where
  "AppendWALLocked env ty key value s =
     (if m_walPath s = [] then (s, None)
      else case write_app env (m_walPath s)
                  (WriteWALRecord \<lparr>rec_type = ty, rec_key = key, rec_value = value\<rparr>) (lsm_disk s) of
             (d, OpenFailed) \<Rightarrow> (s, Some (RuntimeError ''failed to open LSM WAL for append''))
           | (d, WriteFailed) \<Rightarrow> (s\<lparr>lsm_disk := d\<rparr>, Some (RuntimeError ''failed to write LSM WAL record''))
           | (d, Written) \<Rightarrow> (s\<lparr>lsm_disk := d\<rparr>, None))"

definition RewriteWALLocked :: "lsm_env \<Rightarrow> lsm \<Rightarrow> lsm proc" where
  "RewriteWALLocked env s =
     (if m_walPath s = [] then (s, None)
      else case write_trunc env (m_walPath s)
                  (concat (map (\<lambda>item. WriteWALRecord \<lparr>rec_type = Put, rec_key = fst item, rec_value = snd item\<rparr>)
                             (ExportVisibleDataLocked s))) (lsm_disk s) of
             (d, OpenFailed) \<Rightarrow> (s, Some (RuntimeError ''failed to rewrite LSM WAL''))
           | (d, WriteFailed) \<Rightarrow> (s\<lparr>lsm_disk := d\<rparr>, Some (RuntimeError ''failed to flush rewritten LSM WAL''))
           | (d, Written) \<Rightarrow> (s\<lparr>lsm_disk := d\<rparr>, None))"

definition SSTablePath :: "lsm \<Rightarrow> u64 \<Rightarrow> string" where
  "SSTablePath s seq = (if m_manifestPath s = [] then [] else m_manifestPath s @ ''.sst.'' @ dec_string (unat seq))"

definition PersistSSTableLocked :: "lsm_env \<Rightarrow> SSTable \<Rightarrow> lsm \<Rightarrow> lsm \<times> (exn + SSTable)" where
  "PersistSSTableLocked env t s =
     (if m_manifestPath s = [] then (s, Inr t)
      else (let t = t\<lparr>filePath := SSTablePath s (sequence t)\<rparr>
            in case write_trunc env (filePath t) (table_bytes (entries t)) (lsm_disk s) of
                 (d, OpenFailed) \<Rightarrow> (s, Inl (RuntimeError ''failed to write LSM SSTable''))
               | (d, WriteFailed) \<Rightarrow> (s\<lparr>lsm_disk := d\<rparr>, Inl (RuntimeError ''failed to flush LSM SSTable''))
               | (d, Written) \<Rightarrow> (s\<lparr>lsm_disk := d\<rparr>, Inr t)))"

definition manifest_bytes :: "lsm \<Rightarrow> string" where
  "manifest_bytes s =
     WriteUint64ToStream (m_nextSSTableSequence s) @
     WriteUint64ToStream (word_of_nat (length (m_sstables s))) @
     concat (map (\<lambda>t. WriteUint64ToStream (sequence t) @ WriteStreamString (filePath t) @
                     WriteStreamString (minKey t) @ WriteStreamString (maxKey t)) (m_sstables s))"

definition RewriteManifestLocked :: "lsm_env \<Rightarrow> lsm \<Rightarrow> lsm proc" where
  "RewriteManifestLocked env s =
     (if m_manifestPath s = [] then (s, None)
      else case write_trunc env (m_manifestPath s) (manifest_bytes s) (lsm_disk s) of
             (d, OpenFailed) \<Rightarrow> (s, Some (RuntimeError ''failed to rewrite LSM manifest''))
           | (d, WriteFailed) \<Rightarrow> (s\<lparr>lsm_disk := d\<rparr>, Some (RuntimeError ''failed to flush LSM manifest''))
           | (d, Written) \<Rightarrow> (s\<lparr>lsm_disk := d\<rparr>, None))"

definition DeleteSSTableFilesLocked :: "lsm \<Rightarrow> lsm" where
  "DeleteSSTableFilesLocked s =
     (if m_manifestPath s = [] then s
      else s\<lparr>lsm_disk := foldl (\<lambda>d t. if filePath t \<noteq> [] then d(filePath t := None) else d)
                          (lsm_disk s) (m_sstables s)\<rparr>)"

section \<open>Rotating, flushing, compacting\<close>

definition RotateMemTableToImmutableLocked :: "lsm \<Rightarrow> lsm" where
  "RotateMemTableToImmutableLocked s =
     (if m_memTable s = [] then s
      else s\<lparr>m_immutableMemTables := m_immutableMemTables s @ [m_memTable s], m_memTable := []\<rparr>)"

text \<open>
  The body of the flush loop, for the oldest immutable mem table: it is taken off the queue
  before its table is written.
\<close>

definition flush_one :: "lsm_env \<Rightarrow> memtable \<Rightarrow> memtable list \<Rightarrow> lsm \<Rightarrow> lsm proc" where
  "flush_one env es rest s =
     (let s = s\<lparr>m_immutableMemTables := rest, m_nextSSTableSequence := m_nextSSTableSequence s + 1\<rparr>;
          t = RebuildSSTableMetadata (str_hash env) (new_table (m_nextSSTableSequence s) [] es)
      in case PersistSSTableLocked env t s of
           (s, Inl e) \<Rightarrow> (s, Some e)
         | (s, Inr t) \<Rightarrow> RewriteManifestLocked env (s\<lparr>m_sstables := m_sstables s @ [t]\<rparr>))"

fun flush_loop :: "lsm_env \<Rightarrow> memtable list \<Rightarrow> lsm \<Rightarrow> lsm proc" where
  "flush_loop env [] s = (s, None)"
| "flush_loop env (es # rest) s = seqS (flush_one env es rest s) (flush_loop env rest)"

definition FlushImmutableMemTablesLocked :: "lsm_env \<Rightarrow> lsm \<Rightarrow> lsm proc" where
  "FlushImmutableMemTablesLocked env s = flush_loop env (m_immutableMemTables s) s"

definition FlushMemTableLocked :: "lsm_env \<Rightarrow> lsm \<Rightarrow> lsm proc" where
  "FlushMemTableLocked env s = FlushImmutableMemTablesLocked env (RotateMemTableToImmutableLocked s)"

definition NotifyBackgroundWorker :: "lsm \<Rightarrow> lsm" where
  "NotifyBackgroundWorker s = s\<lparr>m_backgroundWorkPending := True\<rparr>"

definition FlushMemTableIfNeededLocked :: "lsm_env \<Rightarrow> lsm \<Rightarrow> lsm proc" where
  "FlushMemTableIfNeededLocked env s =
     (if length (m_memTable s) \<ge> m_memTableFlushThreshold s
      then if m_asyncFlushEnabled s
           then (NotifyBackgroundWorker (RotateMemTableToImmutableLocked s), None)
           else FlushMemTableLocked env s
      else (s, None))"

fun compact_scan :: "memtable \<Rightarrow> memtable \<times> string set \<Rightarrow> memtable \<times> string set" where
  "compact_scan [] (merged, seen) = (merged, seen)"
| "compact_scan (item # es) (merged, seen) =
     (if fst item \<in> seen then compact_scan es (merged, seen)
      else compact_scan es
             (if entry_type (snd item) = Put then smap_put (fst item) (snd item) merged else merged,
              insert (fst item) seen))"

definition merge_tables :: "SSTable list \<Rightarrow> memtable" where
  "merge_tables ts = fst (foldl (\<lambda>acc t. compact_scan (entries t) acc) ([], {}) (rev ts))"

definition CompactSSTablesLocked :: "lsm_env \<Rightarrow> lsm \<Rightarrow> lsm proc" where
  "CompactSSTablesLocked env s =
     (if length (m_sstables s) \<le> 1 then (s, None)
      else (let merged = merge_tables (m_sstables s)
            in if merged = []
               then (let s = DeleteSSTableFilesLocked s
                     in RewriteManifestLocked env (s\<lparr>m_sstables := []\<rparr>))
               else (let s = s\<lparr>m_nextSSTableSequence := m_nextSSTableSequence s + 1\<rparr>;
                         t = RebuildSSTableMetadata (str_hash env) (new_table (m_nextSSTableSequence s) [] merged)
                     in case PersistSSTableLocked env t s of
                          (s, Inl e) \<Rightarrow> (s, Some e)
                        | (s, Inr t) \<Rightarrow>
                            (let s = DeleteSSTableFilesLocked s
                             in RewriteManifestLocked env (s\<lparr>m_sstables := [t]\<rparr>)))))"

section \<open>The public operations that write\<close>

definition lsm_Put :: "lsm_env \<Rightarrow> lsm \<Rightarrow> string \<Rightarrow> string \<Rightarrow> lsm proc" where
  "lsm_Put env s key value =
     seqS (AppendWALLocked env Put key value s) (\<lambda>s.
       FlushMemTableIfNeededLocked env
         (s\<lparr>m_memTable := smap_put key \<lparr>entry_type = Put, entry_value = value\<rparr> (m_memTable s)\<rparr>))"

definition lsm_Delete :: "lsm_env \<Rightarrow> lsm \<Rightarrow> string \<Rightarrow> lsm proc" where
  "lsm_Delete env s key =
     seqS (AppendWALLocked env Delete key [] s) (\<lambda>s.
       FlushMemTableIfNeededLocked env
         (s\<lparr>m_memTable := smap_put key \<lparr>entry_type = Delete, entry_value = []\<rparr> (m_memTable s)\<rparr>))"

fun read_items :: "nat \<Rightarrow> string \<Rightarrow> nat \<Rightarrow> memtable \<Rightarrow> exn + memtable \<times> nat" where
  "read_items 0 snapshot offset restored = Inr (restored, offset)"
| "read_items (Suc n) snapshot offset restored =
     bindE (ReadString snapshot offset) (\<lambda>(key, offset).
     bindE (ReadString snapshot offset) (\<lambda>(value, offset).
       read_items n snapshot offset (smap_put key \<lparr>entry_type = Put, entry_value = value\<rparr> restored)))"

definition parse_snapshot :: "string \<Rightarrow> exn + memtable" where
  "parse_snapshot snapshot =
     bindE (ReadUint64 snapshot 0) (\<lambda>(count, offset).
     bindE (read_items (unat count) snapshot offset []) (\<lambda>(restored, offset).
       if offset \<noteq> length snapshot then Inl (RuntimeError ''LSM snapshot has trailing bytes'')
       else Inr restored))"

definition lsm_Restore :: "lsm_env \<Rightarrow> lsm \<Rightarrow> string \<Rightarrow> lsm proc" where
  "lsm_Restore env s snapshot =
     (if snapshot = []
      then (let s = (DeleteSSTableFilesLocked s)
                      \<lparr>m_memTable := [], m_immutableMemTables := [], m_sstables := []\<rparr>
            in seqS (RewriteWALLocked env s) (RewriteManifestLocked env))
      else case parse_snapshot snapshot of
             Inl e \<Rightarrow> (s, Some e)
           | Inr restored \<Rightarrow>
               (let s = (DeleteSSTableFilesLocked s)
                          \<lparr>m_memTable := restored, m_immutableMemTables := [], m_sstables := []\<rparr>
                in seqS (RewriteWALLocked env s) (\<lambda>s.
                   seqS (RewriteManifestLocked env s) (FlushMemTableIfNeededLocked env))))"

definition Flush :: "lsm_env \<Rightarrow> lsm \<Rightarrow> lsm proc" where
  "Flush env s = FlushMemTableLocked env s"

definition Compact :: "lsm_env \<Rightarrow> lsm \<Rightarrow> lsm proc" where
  "Compact env s = CompactSSTablesLocked env s"

section \<open>The background worker\<close>

definition EnableAsyncFlush :: "bool \<Rightarrow> lsm \<Rightarrow> lsm" where
  "EnableAsyncFlush enabled s = s\<lparr>m_asyncFlushEnabled := enabled\<rparr>"

definition StartBackgroundWorker :: "lsm \<Rightarrow> lsm" where
  "StartBackgroundWorker s =
     (if m_backgroundRunning s then s
      else s\<lparr>m_backgroundStop := False, m_backgroundRunning := True\<rparr>)"

definition flush_and_compact :: "lsm_env \<Rightarrow> lsm \<Rightarrow> lsm proc" where
  "flush_and_compact env s =
     seqS (FlushMemTableLocked env s) (\<lambda>s.
       if length (m_sstables s) > 1 then CompactSSTablesLocked env s else (s, None))"

text \<open>
  One turn of \<open>BackgroundWorkerLoop\<close> after a wake-up: the result says whether the loop goes on.
  The turn that sees the stop flag leaves the loop and runs the final flush.
\<close>

definition BackgroundWorkerTurn :: "lsm_env \<Rightarrow> lsm \<Rightarrow> lsm proc \<times> bool" where
  "BackgroundWorkerTurn env s =
     (if m_backgroundStop s then (flush_and_compact env s, False)
      else (flush_and_compact env (s\<lparr>m_backgroundWorkPending := False\<rparr>), True))"

text \<open>
  \<open>StopBackgroundWorker\<close>: raise the flag, wait for the worker's last turn, lower the running flag.
\<close>

definition StopBackgroundWorker :: "lsm_env \<Rightarrow> lsm \<Rightarrow> lsm proc" where
  "StopBackgroundWorker env s =
     (if \<not> m_backgroundRunning s then (s, None)
      else seqS (fst (BackgroundWorkerTurn env (s\<lparr>m_backgroundStop := True\<rparr>))) (\<lambda>s.
             (s\<lparr>m_backgroundRunning := False\<rparr>, None)))"

section \<open>Recovery and construction\<close>

lemma ReadWALRecord_length: "ReadWALRecord stream = Inr (r, rest) \<Longrightarrow> length rest < length stream"
  by (auto simp: ReadWALRecord_def bindE_Inr_iff split: list.splits option.splits if_splits
      dest!: ReadUint64FromStream_length)

function replay_wal :: "lsm_env \<Rightarrow> string \<Rightarrow> lsm \<Rightarrow> lsm proc" where
  "replay_wal env stream s =
     (if stream = [] then (s, None)
      else case ReadWALRecord stream of
             Inl e \<Rightarrow> (s, Some e)
           | Inr (r, rest) \<Rightarrow>
               seqS (FlushMemTableIfNeededLocked env
                       (s\<lparr>m_memTable := smap_put (rec_key r)
                             \<lparr>entry_type = rec_type r, entry_value = rec_value r\<rparr> (m_memTable s)\<rparr>))
                    (replay_wal env rest))"
  by pat_completeness auto
termination
  by (relation "measure (\<lambda>(env, stream, s). length stream)") (auto dest: ReadWALRecord_length)

declare replay_wal.simps [simp del]

definition RecoverFromWALLocked :: "lsm_env \<Rightarrow> lsm \<Rightarrow> lsm proc" where
  "RecoverFromWALLocked env s =
     (if m_walPath s = [] then (s, None)
      else case lsm_disk s (m_walPath s) of
             None \<Rightarrow> (s, None)
           | Some stream \<Rightarrow> replay_wal env stream s)"

fun read_manifest_tables :: "lsm_env \<Rightarrow> nat \<Rightarrow> string \<Rightarrow> lsm \<Rightarrow> lsm proc" where
  "read_manifest_tables env 0 stream s = (s, None)"
| "read_manifest_tables env (Suc n) stream s =
     (case bindE (ReadUint64FromStream stream) (\<lambda>(seq, stream).
           bindE (ReadStreamString stream) (\<lambda>(path, stream).
           bindE (ReadStreamString stream) (\<lambda>(_, stream).
           bindE (ReadStreamString stream) (\<lambda>(_, stream).
           bindE (LoadSSTable env (lsm_disk s) seq path) (\<lambda>t. Inr (t, stream)))))) of
        Inl e \<Rightarrow> (s, Some e)
      | Inr (t, stream) \<Rightarrow> read_manifest_tables env n stream (s\<lparr>m_sstables := m_sstables s @ [t]\<rparr>))"

definition RecoverFromManifestLocked :: "lsm_env \<Rightarrow> lsm \<Rightarrow> lsm proc" where
  "RecoverFromManifestLocked env s =
     (if m_manifestPath s = [] then (s, None)
      else case lsm_disk s (m_manifestPath s) of
             None \<Rightarrow> (s, None)
           | Some file \<Rightarrow>
               (case ReadUint64FromStream file of
                  Inl e \<Rightarrow> (s, Some e)
                | Inr (next, stream) \<Rightarrow>
                    (let s = s\<lparr>m_nextSSTableSequence := next\<rparr>
                     in case ReadUint64FromStream stream of
                          Inl e \<Rightarrow> (s, Some e)
                        | Inr (tableCount, stream) \<Rightarrow> read_manifest_tables env (unat tableCount) stream s)))"

definition lsm_blank :: "nat \<Rightarrow> string \<Rightarrow> string \<Rightarrow> disk \<Rightarrow> lsm" where
  "lsm_blank threshold walPath manifestPath d =
     \<lparr>m_memTableFlushThreshold = (if threshold = 0 then 1 else threshold), m_nextSSTableSequence = 0,
      m_walPath = walPath, m_manifestPath = manifestPath, m_asyncFlushEnabled = False,
      m_memTable = [], m_immutableMemTables = [], m_sstables = [],
      m_backgroundStop = False, m_backgroundRunning = False, m_backgroundWorkPending = False,
      lsm_disk = d\<rparr>"

text \<open>The three constructors: in memory, with a log, with a log and a manifest.\<close>

definition LSMTreeEngine_mem :: "nat \<Rightarrow> disk \<Rightarrow> lsm" where
  "LSMTreeEngine_mem threshold d = lsm_blank threshold [] [] d"

definition LSMTreeEngine_wal :: "lsm_env \<Rightarrow> nat \<Rightarrow> string \<Rightarrow> disk \<Rightarrow> lsm proc" where
  "LSMTreeEngine_wal env threshold walPath d = RecoverFromWALLocked env (lsm_blank threshold walPath [] d)"

definition LSMTreeEngine_full :: "lsm_env \<Rightarrow> nat \<Rightarrow> string \<Rightarrow> string \<Rightarrow> disk \<Rightarrow> lsm proc" where
  "LSMTreeEngine_full env threshold walPath manifestPath d =
     seqS (RecoverFromManifestLocked env (lsm_blank threshold walPath manifestPath d)) (RecoverFromWALLocked env)"

definition lsm_ops :: "lsm_env \<Rightarrow> lsm kv_ops" where
  "lsm_ops env = \<lparr>eGet = (\<lambda>s k. (s, lsm_Get env s k)), ePut = lsm_Put env, eDelete = lsm_Delete env,
                  eSnapshot = (\<lambda>s. Inr (lsm_Snapshot s)), eRestore = lsm_Restore env, eSize = lsm_Size\<rparr>"

end
