(* ===== verification/Lsm_Proofs.thy ===== *)
theory Lsm_Proofs
  imports Lsm_Engine Cached_Engine
begin

text \<open>
  Correctness of the log-structured engine.  Its contents are a list of layers, newest first: the
  mem table, the immutable mem tables and the entries of the sorted tables.  The newest layer
  that has a key decides, and a tombstone hides what is below.  Lookups and exports compute this
  view; rotation and flushing do not change the layers at all; compaction changes the layers but
  not the view.  From this follow the engine laws of \<open>Kv_Engine\<close>, which the interpretation at the
  end discharges.
\<close>

definition layers :: "lsm \<Rightarrow> memtable list" where
  "layers s = m_memTable s # rev (m_immutableMemTables s) @ map entries (rev (m_sstables s))"

definition live :: "Entry option \<Rightarrow> Entry option" where
  "live found = (case found of None \<Rightarrow> None | Some e \<Rightarrow> if entry_type e = Put then Some e else None)"

definition lsm_view :: "lsm \<Rightarrow> string \<rightharpoonup> string" where
  "lsm_view s key = map_option entry_value (live (find_in_memtables (layers s) key))"

definition lsm_ok :: "lsm_env \<Rightarrow> lsm \<Rightarrow> bool" where
  "lsm_ok env s \<longleftrightarrow> (\<forall>m \<in> set (layers s). smap_wf m) \<and> (\<forall>t \<in> set (m_sstables s). table_ok (str_hash env) t)"

lemma live_simps [simp]:
  "live None = None" "live (Some \<lparr>entry_type = Put, entry_value = v\<rparr>) = Some \<lparr>entry_type = Put, entry_value = v\<rparr>"
  "live (Some \<lparr>entry_type = Delete, entry_value = v\<rparr>) = None"
  by (simp_all add: live_def)

lemma layers_disk [simp]: "layers (s\<lparr>lsm_disk := d\<rparr>) = layers s"
  by (simp add: layers_def)

lemma lsm_ok_disk [simp]: "lsm_ok env (s\<lparr>lsm_disk := d\<rparr>) = lsm_ok env s"
  by (simp add: lsm_ok_def)

lemma lsm_view_disk [simp]: "lsm_view (s\<lparr>lsm_disk := d\<rparr>) = lsm_view s"
  by (simp add: lsm_view_def fun_eq_iff)

section \<open>Lookups read the layers\<close>

lemma find_append:
  "find_in_memtables (ms @ ns) key =
   (case find_in_memtables ms key of Some e \<Rightarrow> Some e | None \<Rightarrow> find_in_memtables ns key)"
  by (induction ms) (auto split: option.split)

lemma find_in_tables_correct:
  "\<forall>t \<in> set ts. table_ok (str_hash env) t \<Longrightarrow>
   find_in_tables env ts key = Inr (find_in_memtables (map entries ts) key)"
proof (induction ts)
  case (Cons t ts)
  then have t: "table_ok (str_hash env) t"
    and IH: "find_in_tables env ts key = Inr (find_in_memtables (map entries ts) key)" by auto
  show ?case
  proof (cases "MayContain (str_hash env) t key")
    case True
    then show ?thesis
      using FindInIndexedBlock_correct [OF t MayContain_nonempty] IH by (auto split: option.split)
  next
    case False
    then have "map_of (entries t) key = None" using MayContain_complete [OF t] by (cases "map_of (entries t) key") auto
    then show ?thesis using False IH by simp
  qed
qed simp

lemma FindEntryLocked_correct:
  "lsm_ok env s \<Longrightarrow> FindEntryLocked env s key = Inr (find_in_memtables (layers s) key)"
  by (auto simp: FindEntryLocked_def layers_def find_append find_in_tables_correct lsm_ok_def split: option.split)

lemma lsm_Get_correct: "lsm_ok env s \<Longrightarrow> lsm_Get env s key = Inr (lsm_view s key)"
  by (auto simp: lsm_Get_def FindEntryLocked_correct lsm_view_def live_def split: option.split)
    (metis EntryType.exhaust)+

section \<open>Exporting and merging read the layers\<close>

lemma compact_scan_spec:
  assumes "compact_scan es (m, seen) = (m', seen')" "distinct (map fst es)" "smap_wf m"
    "dom (map_of m) \<subseteq> seen"
  shows "smap_wf m' \<and> seen' = seen \<union> fst ` set es \<and>
    map_of m' = (\<lambda>k. if k \<in> seen then map_of m k else live (map_of es k))"
  using assms
proof (induction es arbitrary: m seen)
  case Nil
  then show ?case by (auto simp: fun_eq_iff)
next
  case (Cons item es)
  obtain k e where item: "item = (k, e)" by (cases item)
  have k: "k \<notin> fst ` set es" and dist: "distinct (map fst es)" using Cons.prems(2) by (auto simp: item)
  then have none: "map_of es k = None" by (auto simp: map_of_eq_None_iff)
  show ?case
  proof (cases "k \<in> seen")
    case True
    then have "compact_scan es (m, seen) = (m', seen')" using Cons.prems(1) by (simp add: item)
    from Cons.IH [OF this dist Cons.prems(3,4)] show ?thesis
      using True by (auto simp: item fun_eq_iff)
  next
    case False
    let ?m = "if entry_type e = Put then smap_put k e m else m"
    have run: "compact_scan es (?m, insert k seen) = (m', seen')"
      using Cons.prems(1) False by (cases "entry_type e = Put") (simp_all add: item)
    have wf: "smap_wf ?m" "dom (map_of ?m) \<subseteq> insert k seen"
      using Cons.prems(3,4) by (auto intro: smap_wf_put split: if_splits)
    have mk: "map_of m k = None" using False Cons.prems(4) by auto
    show ?thesis
      using Cons.IH [OF run dist wf] False none mk
      by (auto simp: item fun_eq_iff live_def)
  qed
qed

lemma compact_all_spec:
  assumes "foldl (\<lambda>acc m. compact_scan m acc) (m, seen) ms = (m', seen')"
    "\<forall>x \<in> set ms. smap_wf x" "smap_wf m" "dom (map_of m) \<subseteq> seen"
  shows "smap_wf m' \<and> map_of m' = (\<lambda>k. if k \<in> seen then map_of m k else live (find_in_memtables ms k))"
  using assms
proof (induction ms arbitrary: m seen)
  case (Cons x ms)
  obtain m1 seen1 where one: "compact_scan x (m, seen) = (m1, seen1)" by fastforce
  have x: "distinct (map fst x)" using Cons.prems(2) by (simp add: smap_wf_distinct)
  note spec = compact_scan_spec [OF one x Cons.prems(3,4)]
  then have dom: "dom (map_of m1) \<subseteq> seen1"
    using Cons.prems(4) by (auto simp: live_def map_of_eq_None_iff split: if_splits option.splits)
      (metis fst_conv imageI map_of_SomeD)
  have run: "foldl (\<lambda>acc m. compact_scan m acc) (m1, seen1) ms = (m', seen')"
    using Cons.prems(1) one by simp
  have "smap_wf m' \<and> map_of m' = (\<lambda>k. if k \<in> seen1 then map_of m1 k else live (find_in_memtables ms k))"
    using Cons.IH [OF run _ _ dom] Cons.prems(2) spec by simp
  then show ?case
    using spec by (auto simp: fun_eq_iff map_of_eq_None_iff image_iff split: option.split)
      (metis fst_conv map_of_SomeD)+
qed (auto simp: fun_eq_iff)

lemma merge_tables_spec:
  assumes "\<forall>t \<in> set ts. smap_wf (entries t)"
  shows "smap_wf (merge_tables ts) \<and>
    map_of (merge_tables ts) = (\<lambda>k. live (find_in_memtables (map entries (rev ts)) k))"
proof -
  obtain m seen where r: "foldl (\<lambda>acc m. compact_scan m acc) ([], {}) (map entries (rev ts)) = (m, seen)"
    by fastforce
  then have "merge_tables ts = m" by (simp add: merge_tables_def foldl_map)
  then show ?thesis using compact_all_spec [OF r] assms by auto
qed

text \<open>The export is the same scan over all layers, keeping only the values.\<close>

definition strip :: "memtable \<Rightarrow> (string, string) smap" where
  "strip m = map (apsnd entry_value) m"

lemma strip_put: "strip (smap_put k e m) = smap_put k (entry_value e) (strip m)"
  by (induction k e m rule: smap_put.induct) (auto simp: strip_def)

lemma map_of_strip: "map_of (strip m) k = map_option entry_value (map_of m k)"
  by (induction m) (auto simp: strip_def)

lemma smap_wf_strip [simp]: "smap_wf (strip m) = smap_wf m"
  by (simp add: smap_wf_def strip_def)

lemma applyNewestFirst_scan:
  "applyNewestFirst es (strip m, seen) = apfst strip (compact_scan es (m, seen))"
  by (induction es arbitrary: m seen) (auto simp flip: strip_put)

lemma applyNewestFirst_apfst: "applyNewestFirst es (apfst strip acc) = apfst strip (compact_scan es acc)"
  by (cases acc) (simp add: applyNewestFirst_scan)

lemma foldl_apply_scan:
  "foldl (\<lambda>acc m. applyNewestFirst m acc) (apfst strip acc) ms =
   apfst strip (foldl (\<lambda>acc m. compact_scan m acc) acc ms)"
  by (induction ms arbitrary: acc) (simp_all add: applyNewestFirst_apfst)

lemma Export_scan:
  "ExportVisibleDataLocked s = strip (fst (foldl (\<lambda>acc m. compact_scan m acc) ([], {}) (layers s)))"
proof -
  have "ExportVisibleDataLocked s = fst (foldl (\<lambda>acc m. applyNewestFirst m acc) (apfst strip ([], {})) (layers s))"
    by (simp add: ExportVisibleDataLocked_def layers_def foldl_map strip_def)
  then show ?thesis by (simp only: foldl_apply_scan fst_apfst)
qed

lemma Export_correct:
  assumes "lsm_ok env s"
  shows "smap_wf (ExportVisibleDataLocked s) \<and> map_of (ExportVisibleDataLocked s) = lsm_view s"
proof -
  obtain m seen where r: "foldl (\<lambda>acc m. compact_scan m acc) ([], {}) (layers s) = (m, seen)" by fastforce
  have "smap_wf m \<and> map_of m = (\<lambda>k. live (find_in_memtables (layers s) k))"
    using compact_all_spec [OF r] assms by (simp add: lsm_ok_def)
  then show ?thesis by (auto simp: Export_scan r fun_eq_iff map_of_strip lsm_view_def)
qed

section \<open>Writing files changes nothing but the files\<close>

definition only_disk :: "lsm \<Rightarrow> lsm \<Rightarrow> bool" where
  "only_disk s s' \<longleftrightarrow> s' = s\<lparr>lsm_disk := lsm_disk s'\<rparr>"

lemma only_diskE:
  assumes "only_disk s s'"
  obtains d where "s' = s\<lparr>lsm_disk := d\<rparr>"
  using assms by (auto simp: only_disk_def)

lemma only_diskI [intro]: "only_disk s (s\<lparr>lsm_disk := d\<rparr>)" "only_disk s s"
  by (auto simp: only_disk_def)

lemma AppendWAL_only_disk: "AppendWALLocked env ty k v s = (s', r) \<Longrightarrow> only_disk s s'"
  by (auto simp: AppendWALLocked_def split: prod.splits write_status.splits if_splits)

lemma RewriteWAL_only_disk: "RewriteWALLocked env s = (s', r) \<Longrightarrow> only_disk s s'"
  by (auto simp: RewriteWALLocked_def split: prod.splits write_status.splits if_splits)

lemma RewriteManifest_only_disk: "RewriteManifestLocked env s = (s', r) \<Longrightarrow> only_disk s s'"
  by (auto simp: RewriteManifestLocked_def split: prod.splits write_status.splits if_splits)

lemma filePath_self: "t = t\<lparr>filePath := filePath t\<rparr>"
  by simp

lemma PersistSSTable_only_disk:
  "PersistSSTableLocked env t s = (s', r) \<Longrightarrow>
   only_disk s s' \<and> (\<forall>t'. r = Inr t' \<longrightarrow> (\<exists>p. t' = t\<lparr>filePath := p\<rparr>))"
  by (auto simp: PersistSSTableLocked_def Let_def split: prod.splits write_status.splits if_splits
      intro: filePath_self)

lemma DeleteSSTableFiles_only_disk: "only_disk s (DeleteSSTableFilesLocked s)"
  by (auto simp: DeleteSSTableFilesLocked_def)

section \<open>Rotation and flushing keep the layers\<close>

lemma layers_cong:
  "m_memTable s = m_memTable s' \<Longrightarrow> m_immutableMemTables s = m_immutableMemTables s' \<Longrightarrow>
   m_sstables s = m_sstables s' \<Longrightarrow> layers s = layers s'"
  by (simp add: layers_def)

lemma flush_one_layers:
  assumes "m_immutableMemTables s = es # rest" "flush_one env es rest s = (s', None)" "lsm_ok env s"
  shows "layers s' = layers s \<and> lsm_ok env s' \<and> m_immutableMemTables s' = rest \<and>
         m_memTable s' = m_memTable s \<and> length (m_sstables s') = Suc (length (m_sstables s))"
proof -
  let ?s = "s\<lparr>m_immutableMemTables := rest, m_nextSSTableSequence := m_nextSSTableSequence s + 1\<rparr>"
  let ?t = "RebuildSSTableMetadata (str_hash env) (new_table (m_nextSSTableSequence ?s) [] es)"
  obtain s1 t1 where P: "PersistSSTableLocked env ?t ?s = (s1, Inr t1)"
    and M: "RewriteManifestLocked env (s1\<lparr>m_sstables := m_sstables s1 @ [t1]\<rparr>) = (s', None)"
    using assms(2) by (auto simp: flush_one_def Let_def split: prod.splits sum.splits)
  obtain p where t1: "t1 = ?t\<lparr>filePath := p\<rparr>" using PersistSSTable_only_disk [OF P] by blast
  obtain d where s1: "s1 = ?s\<lparr>lsm_disk := d\<rparr>" using PersistSSTable_only_disk [OF P] by (auto elim: only_diskE)
  obtain d' where s': "s' = (s1\<lparr>m_sstables := m_sstables s1 @ [t1]\<rparr>)\<lparr>lsm_disk := d'\<rparr>"
    using RewriteManifest_only_disk [OF M] by (auto elim: only_diskE)
  have es: "smap_wf es" using assms(1,3) by (auto simp: lsm_ok_def layers_def)
  have t_entries: "entries ?t = es" by (simp add: new_table_def)
  have "table_ok (str_hash env) ?t" using es by (intro Rebuild_ok) (simp add: new_table_def)
  then show ?thesis
    using assms(1,3) t_entries by (auto simp: s' s1 t1 layers_def lsm_ok_def)
qed

lemma flush_loop_layers:
  "m_immutableMemTables s = ms \<Longrightarrow> flush_loop env ms s = (s', None) \<Longrightarrow> lsm_ok env s \<Longrightarrow>
   layers s' = layers s \<and> lsm_ok env s' \<and> m_immutableMemTables s' = [] \<and> m_memTable s' = m_memTable s"
proof (induction ms arbitrary: s)
  case (Cons es rest)
  obtain s1 where one: "flush_one env es rest s = (s1, None)" and loop: "flush_loop env rest s1 = (s', None)"
    using Cons.prems(2) by (auto simp: seqS_None_iff)
  note 1 = flush_one_layers [OF Cons.prems(1) one Cons.prems(3)]
  then show ?case using Cons.IH [OF _ loop] by simp
qed simp

lemma find_in_memtables_Nil_layer [simp]: "find_in_memtables ([] # ms) key = find_in_memtables ms key"
  by simp

lemma Rotate_ok:
  assumes "lsm_ok env s"
  shows "lsm_ok env (RotateMemTableToImmutableLocked s) \<and>
    lsm_view (RotateMemTableToImmutableLocked s) = lsm_view s \<and> m_memTable (RotateMemTableToImmutableLocked s) = []"
  using assms by (auto simp: RotateMemTableToImmutableLocked_def lsm_ok_def layers_def lsm_view_def fun_eq_iff)

lemma lsm_view_layers: "layers s = layers s' \<Longrightarrow> lsm_view s = lsm_view s'"
  by (simp add: lsm_view_def fun_eq_iff)

lemma FlushMemTable_ok:
  assumes "FlushMemTableLocked env s = (s', None)" "lsm_ok env s"
  shows "lsm_ok env s' \<and> lsm_view s' = lsm_view s \<and> m_memTable s' = [] \<and> m_immutableMemTables s' = []"
  using assms Rotate_ok [OF assms(2)]
    flush_loop_layers [of "RotateMemTableToImmutableLocked s" _ env s']
  by (auto simp: FlushMemTableLocked_def FlushImmutableMemTablesLocked_def
      dest: lsm_view_layers [of s' "RotateMemTableToImmutableLocked s"])

lemma Notify_frame [simp]:
  "layers (NotifyBackgroundWorker s) = layers s" "lsm_ok env (NotifyBackgroundWorker s) = lsm_ok env s"
  "lsm_view (NotifyBackgroundWorker s) = lsm_view s"
  by (auto simp: NotifyBackgroundWorker_def layers_def lsm_ok_def lsm_view_def fun_eq_iff)

lemma FlushIfNeeded_ok:
  assumes "FlushMemTableIfNeededLocked env s = (s', None)" "lsm_ok env s"
  shows "lsm_ok env s' \<and> lsm_view s' = lsm_view s"
  using assms FlushMemTable_ok Rotate_ok by (auto simp: FlushMemTableIfNeededLocked_def split: if_splits)

section \<open>Compaction keeps the view\<close>

lemma find_live_below:
  "live (find_in_memtables (ms @ ns) key) =
   (case find_in_memtables ms key of Some e \<Rightarrow> live (Some e) | None \<Rightarrow> live (find_in_memtables ns key))"
  by (auto simp: find_append split: option.split)

lemma live_idem: "live (live x) = live x"
  by (auto simp: live_def split: option.split)

lemma live_swap_below:
  "live (find_in_memtables ns key) = live (find_in_memtables ns' key) \<Longrightarrow>
   live (find_in_memtables (ms @ ns) key) = live (find_in_memtables (ms @ ns') key)"
  by (simp add: find_live_below split: option.split)

lemma find_single: "find_in_memtables [m] key = map_of m key"
  by (simp split: option.split)

lemma Compact_ok:
  assumes "CompactSSTablesLocked env s = (s', None)" "lsm_ok env s"
  shows "lsm_ok env s' \<and> lsm_view s' = lsm_view s"
proof (cases "length (m_sstables s) \<le> 1")
  case True
  then show ?thesis using assms by (simp add: CompactSSTablesLocked_def)
next
  case False
  let ?merged = "merge_tables (m_sstables s)"
  have wf: "smap_wf ?merged"
    and m: "map_of ?merged = (\<lambda>k. live (find_in_memtables (map entries (rev (m_sstables s))) k))"
    using merge_tables_spec [of "m_sstables s"] assms(2) by (auto simp: lsm_ok_def layers_def)
  let ?upper = "m_memTable s # rev (m_immutableMemTables s)"
  have split: "layers s = ?upper @ map entries (rev (m_sstables s))" by (simp add: layers_def)
  have view: "lsm_view s' = lsm_view s" if "layers s' = ?upper @ [?merged]"
  proof
    fix key
    have "live (find_in_memtables (?upper @ [?merged]) key) =
          live (find_in_memtables (?upper @ map entries (rev (m_sstables s))) key)"
      by (rule live_swap_below) (simp only: find_single m live_idem)
    then show "lsm_view s' key = lsm_view s key" by (simp only: lsm_view_def that split)
  qed
  show ?thesis
  proof (cases "?merged = []")
    case True
    obtain d where "s' = s\<lparr>m_sstables := [], lsm_disk := d\<rparr>"
      using assms(1) False True DeleteSSTableFiles_only_disk [of s]
      by (auto simp: CompactSSTablesLocked_def Let_def dest!: RewriteManifest_only_disk elim!: only_diskE)
    moreover have "live (find_in_memtables (map entries (rev (m_sstables s))) k) = None" for k
      using fun_cong [OF m, of k] True by simp
    ultimately show ?thesis
      using assms(2) unfolding lsm_view_def split
      by (auto simp: layers_def lsm_ok_def fun_eq_iff find_live_below split: option.split)
  next
    case nonempty: False
    let ?s = "s\<lparr>m_nextSSTableSequence := m_nextSSTableSequence s + 1\<rparr>"
    let ?t = "RebuildSSTableMetadata (str_hash env) (new_table (m_nextSSTableSequence ?s) [] ?merged)"
    obtain s1 t1 where P: "PersistSSTableLocked env ?t ?s = (s1, Inr t1)"
      and M: "RewriteManifestLocked env ((DeleteSSTableFilesLocked s1)\<lparr>m_sstables := [t1]\<rparr>) = (s', None)"
      using assms(1) False nonempty
      by (auto simp: CompactSSTablesLocked_def Let_def split: prod.splits sum.splits)
    obtain p where t1: "t1 = ?t\<lparr>filePath := p\<rparr>" using PersistSSTable_only_disk [OF P] by blast
    obtain d where s1: "s1 = ?s\<lparr>lsm_disk := d\<rparr>"
      using PersistSSTable_only_disk [OF P] by (auto elim: only_diskE)
    obtain d' where s': "s' = s1\<lparr>m_sstables := [t1], lsm_disk := d'\<rparr>"
      using RewriteManifest_only_disk [OF M] DeleteSSTableFiles_only_disk [of s1]
      by (auto elim!: only_diskE)
    have ok: "table_ok (str_hash env) ?t" using wf by (intro Rebuild_ok) (simp add: new_table_def)
    have lay: "layers s' = ?upper @ [?merged]"
      by (simp add: s' s1 t1 layers_def new_table_def)
    moreover have "lsm_ok env s'"
      using assms(2) wf ok unfolding lsm_ok_def lay by (auto simp: s' t1 layers_def)
    ultimately show ?thesis using view by simp
  qed
qed

section \<open>The public operations\<close>

lemma view_after_insert:
  assumes "lsm_ok env s"
  shows "lsm_ok env (s\<lparr>m_memTable := smap_put k e (m_memTable s)\<rparr>)"
    and "lsm_view (s\<lparr>m_memTable := smap_put k e (m_memTable s)\<rparr>) =
         (lsm_view s)(k := map_option entry_value (live (Some e)))"
  using assms by (auto simp: lsm_ok_def layers_def smap_wf_put lsm_view_def fun_eq_iff)

lemma lsm_Put_ok:
  assumes "lsm_Put env s k v = (s', None)" "lsm_ok env s"
  shows "lsm_ok env s' \<and> lsm_view s' = (lsm_view s)(k \<mapsto> v)"
proof -
  obtain s1 where A: "AppendWALLocked env Put k v s = (s1, None)"
    and F: "FlushMemTableIfNeededLocked env
        (s1\<lparr>m_memTable := smap_put k \<lparr>entry_type = Put, entry_value = v\<rparr> (m_memTable s1)\<rparr>) = (s', None)"
    using assms(1) by (auto simp: lsm_Put_def seqS_None_iff)
  obtain d where s1: "s1 = s\<lparr>lsm_disk := d\<rparr>" using AppendWAL_only_disk [OF A] by (auto elim: only_diskE)
  have ok1: "lsm_ok env s1" using assms(2) by (simp add: s1)
  show ?thesis
    using FlushIfNeeded_ok [OF F view_after_insert(1) [OF ok1]] view_after_insert(2) [OF ok1]
    by (simp add: s1)
qed

lemma lsm_Delete_ok:
  assumes "lsm_Delete env s k = (s', None)" "lsm_ok env s"
  shows "lsm_ok env s' \<and> lsm_view s' = (lsm_view s)(k := None)"
proof -
  obtain s1 where A: "AppendWALLocked env Delete k [] s = (s1, None)"
    and F: "FlushMemTableIfNeededLocked env
        (s1\<lparr>m_memTable := smap_put k \<lparr>entry_type = Delete, entry_value = []\<rparr> (m_memTable s1)\<rparr>) = (s', None)"
    using assms(1) by (auto simp: lsm_Delete_def seqS_None_iff)
  obtain d where s1: "s1 = s\<lparr>lsm_disk := d\<rparr>" using AppendWAL_only_disk [OF A] by (auto elim: only_diskE)
  have ok1: "lsm_ok env s1" using assms(2) by (simp add: s1)
  show ?thesis
    using FlushIfNeeded_ok [OF F view_after_insert(1) [OF ok1]] view_after_insert(2) [OF ok1]
    by (simp add: s1)
qed

section \<open>Snapshots\<close>

definition item_bytes :: "string \<times> string \<Rightarrow> string" where
  "item_bytes item = uint64_bytes (word_of_nat (length (fst item))) @ fst item @
                     uint64_bytes (word_of_nat (length (snd item))) @ snd item"

lemma item_bytes_pair:
  "item_bytes (k, v) = uint64_bytes (word_of_nat (length k)) @ k @ uint64_bytes (word_of_nat (length v)) @ v"
  by (simp add: item_bytes_def)

lemma Snapshot_bytes:
  "lsm_Snapshot s = uint64_bytes (word_of_nat (length (ExportVisibleDataLocked s))) @
     concat (map item_bytes (ExportVisibleDataLocked s))"
proof -
  have "foldl (\<lambda>snapshot item. WriteString (WriteString snapshot (fst item)) (snd item)) out items =
        out @ concat (map item_bytes items)" for out items
    by (induction items arbitrary: out) (simp_all add: WriteString_eq item_bytes_def)
  then show ?thesis by (simp add: lsm_Snapshot_def Let_def WriteUint64_eq)
qed

abbreviation entries_of :: "(string \<times> string) list \<Rightarrow> memtable" where
  "entries_of items \<equiv> map (apsnd (\<lambda>v. \<lparr>entry_type = Put, entry_value = v\<rparr>)) items"

definition put_items :: "(string \<times> string) list \<Rightarrow> memtable \<Rightarrow> memtable" where
  "put_items items m = foldl (\<lambda>m item. smap_put (fst item) \<lparr>entry_type = Put, entry_value = snd item\<rparr> m) m items"

lemma read_items_append:
  assumes "\<forall>item \<in> set items. length (fst item) < 2 ^ 64 \<and> length (snd item) < 2 ^ 64"
  shows "read_items (length items) (pre @ concat (map item_bytes items) @ post) (length pre) m =
         Inr (put_items items m, length pre + length (concat (map item_bytes items)))"
  using assms
proof (induction items arbitrary: pre m)
  case Nil
  then show ?case by (simp add: put_items_def)
next
  case (Cons item items)
  obtain k v where item: "item = (k, v)" by (cases item)
  have len: "length k < 2 ^ 64" "length v < 2 ^ 64" using Cons.prems by (auto simp: item)
  let ?rest = "concat (map item_bytes items) @ post"
  let ?kb = "uint64_bytes (word_of_nat (length k)) @ k"
  let ?vb = "uint64_bytes (word_of_nat (length v)) @ v"
  have k: "ReadString (pre @ ?kb @ ?vb @ ?rest) (length pre) = Inr (k, length pre + 8 + length k)"
    using ReadString_append [OF len(1), of pre "?vb @ ?rest"] by simp
  have v: "ReadString (pre @ ?kb @ ?vb @ ?rest) (length pre + 8 + length k) =
      Inr (v, length pre + 8 + length k + 8 + length v)"
    using ReadString_append [OF len(2), of "pre @ ?kb" ?rest] by (simp add: ac_simps)
  have IH: "read_items (length items) ((pre @ ?kb @ ?vb) @ ?rest) (length (pre @ ?kb @ ?vb)) m' =
      Inr (put_items items m', length (pre @ ?kb @ ?vb) + length (concat (map item_bytes items)))" for m'
    using Cons.IH [of "pre @ ?kb @ ?vb"] Cons.prems by simp
  have "read_items (length items) (pre @ ?kb @ ?vb @ ?rest) (length pre + 8 + length k + 8 + length v) m' =
      Inr (put_items items m', length pre + 8 + length k + 8 + length v + length (concat (map item_bytes items)))" for m'
    using IH [of m'] by (simp add: ac_simps)
  then show ?case
    using k v by (simp add: item item_bytes_pair put_items_def ac_simps)
qed

lemma put_items_spec:
  "smap_wf m \<Longrightarrow> distinct (map fst items) \<Longrightarrow>
   smap_wf (put_items items m) \<and>
   map_of (put_items items m) =
     (\<lambda>k. case map_of items k of None \<Rightarrow> map_of m k | Some v \<Rightarrow> Some \<lparr>entry_type = Put, entry_value = v\<rparr>)"
proof (induction items arbitrary: m)
  case Nil
  then show ?case by (simp add: put_items_def)
next
  case (Cons item items)
  have none: "map_of items (fst item) = None" using Cons.prems(2) by (simp add: map_of_eq_None_iff)
  have "smap_wf (smap_put (fst item) \<lparr>entry_type = Put, entry_value = snd item\<rparr> m)"
    using Cons.prems(1) by (rule smap_wf_put)
  from Cons.IH [OF this] Cons.prems(2) show ?case
    using none by (cases item) (auto simp: put_items_def fun_eq_iff split: option.split)
qed

lemma parse_snapshot_Snapshot:
  assumes "lsm_ok env s" "fits (lsm_view s)"
  shows "\<exists>m. parse_snapshot (lsm_Snapshot s) = Inr m \<and> smap_wf m \<and>
             (\<forall>k. map_of m k = map_option (\<lambda>v. \<lparr>entry_type = Put, entry_value = v\<rparr>) (lsm_view s k))"
proof -
  let ?data = "ExportVisibleDataLocked s"
  have ex: "smap_wf ?data" "map_of ?data = lsm_view s" using Export_correct [OF assms(1)] by auto
  have dist: "distinct (map fst ?data)" using ex(1) by (rule smap_wf_distinct)
  have "card (dom (map_of ?data)) = length ?data"
    using dist by (metis distinct_card dom_map_of_conv_image_fst length_map list.set_map)
  then have n: "length ?data < 2 ^ 64" using assms(2) ex(2) by (simp add: fits_def)
  have small: "\<forall>item \<in> set ?data. length (fst item) < 2 ^ 64 \<and> length (snd item) < 2 ^ 64"
  proof
    fix item assume "item \<in> set ?data"
    then have "lsm_view s (fst item) = Some (snd item)"
      using dist ex(2) by (metis map_of_is_SomeI prod.collapse)
    then show "length (fst item) < 2 ^ 64 \<and> length (snd item) < 2 ^ 64"
      using assms(2) by (auto simp: fits_def)
  qed
  let ?hd = "uint64_bytes (word_of_nat (length ?data))"
  have "read_items (length ?data) (lsm_Snapshot s) 8 [] =
        Inr (put_items ?data [], length (lsm_Snapshot s))"
    using read_items_append [OF small, of ?hd "[]" "[]"] by (simp add: Snapshot_bytes)
  moreover have "ReadUint64 (lsm_Snapshot s) 0 = Inr (word_of_nat (length ?data), 8)"
    using ReadUint64_append [of "[]" "word_of_nat (length ?data)"] by (simp add: Snapshot_bytes)
  moreover have "unat (word_of_nat (length ?data) :: u64) = length ?data"
    using n by (simp add: unat_of_nat take_bit_nat_eq_self)
  ultimately have "parse_snapshot (lsm_Snapshot s) = Inr (put_items ?data [])"
    by (simp add: parse_snapshot_def)
  moreover have "smap_wf (put_items ?data [])" "\<forall>k. map_of (put_items ?data []) k =
      map_option (\<lambda>v. \<lparr>entry_type = Put, entry_value = v\<rparr>) (lsm_view s k)"
    using put_items_spec [OF smap_wf_Nil dist] ex(2) by (auto split: option.split)
  ultimately show ?thesis by blast
qed

lemma Restore_parsed:
  assumes "lsm_Restore env t b = (t', None)" "b \<noteq> []" "parse_snapshot b = Inr m" "smap_wf m"
  shows "lsm_ok env t' \<and> lsm_view t' = (\<lambda>k. map_option entry_value (live (map_of m k)))"
proof -
  let ?t = "(DeleteSSTableFilesLocked t)\<lparr>m_memTable := m, m_immutableMemTables := [], m_sstables := []\<rparr>"
  obtain t1 t2 where R: "RewriteWALLocked env ?t = (t1, None)" and M: "RewriteManifestLocked env t1 = (t2, None)"
    and F: "FlushMemTableIfNeededLocked env t2 = (t', None)"
    using assms(1-3) by (auto simp: lsm_Restore_def Let_def seqS_None_iff)
  have "layers t2 = [m]" "m_sstables t2 = []"
    using RewriteWAL_only_disk [OF R] RewriteManifest_only_disk [OF M]
    by (auto simp: layers_def elim!: only_diskE)
  then have ok: "lsm_ok env t2" "lsm_view t2 = (\<lambda>k. map_option entry_value (live (map_of m k)))"
    using assms(4) by (auto simp: lsm_ok_def lsm_view_def fun_eq_iff split: option.split)
  then show ?thesis using FlushIfNeeded_ok [OF F ok(1)] by simp
qed

lemma lsm_Restore_ok:
  assumes "lsm_ok env s" "fits (lsm_view s)" "lsm_Restore env t (lsm_Snapshot s) = (t', None)"
  shows "lsm_ok env t' \<and> lsm_view t' = lsm_view s"
proof -
  obtain m where m: "parse_snapshot (lsm_Snapshot s) = Inr m" "smap_wf m"
    "\<forall>k. map_of m k = map_option (\<lambda>v. \<lparr>entry_type = Put, entry_value = v\<rparr>) (lsm_view s k)"
    using parse_snapshot_Snapshot [OF assms(1,2)] by blast
  have ne: "lsm_Snapshot s \<noteq> []"
    by (metis Snapshot_bytes append_is_Nil_conv length_uint64_bytes list.size(3) zero_neq_numeral)
  show ?thesis
    using Restore_parsed [OF assms(3) ne m(1,2)] m(3)
    by (auto simp: fun_eq_iff live_def split: option.splits)
qed

lemma lsm_Size_ok:
  assumes "lsm_ok env s" "card (dom (lsm_view s)) < 2 ^ 31"
  shows "lsm_Size s = int (card (dom (lsm_view s)))"
proof -
  have ex: "smap_wf (ExportVisibleDataLocked s)" "map_of (ExportVisibleDataLocked s) = lsm_view s"
    using Export_correct [OF assms(1)] by auto
  have "card (dom (lsm_view s)) = length (ExportVisibleDataLocked s)"
    using smap_wf_distinct [OF ex(1)] ex(2)
    by (metis distinct_card dom_map_of_conv_image_fst length_map list.set_map)
  then show ?thesis using assms(2) by (simp add: lsm_Size_def size_to_int_small)
qed

interpretation lsm: kv_engine "lsm_ops env" lsm_view "lsm_ok env" for env
proof
  show "\<And>s k. lsm_ok env s \<Longrightarrow> \<exists>s'. eGet (lsm_ops env) s k = (s', Inr (lsm_view s k)) \<and> lsm_ok env s' \<and> lsm_view s' = lsm_view s"
    by (simp add: lsm_ops_def lsm_Get_correct)
  show "\<And>s k v s'. lsm_ok env s \<Longrightarrow> ePut (lsm_ops env) s k v = (s', None) \<Longrightarrow> lsm_ok env s' \<and> lsm_view s' = (lsm_view s)(k \<mapsto> v)"
    unfolding lsm_ops_def kv_ops.simps by (rule lsm_Put_ok)
  show "\<And>s k s'. lsm_ok env s \<Longrightarrow> eDelete (lsm_ops env) s k = (s', None) \<Longrightarrow> lsm_ok env s' \<and> lsm_view s' = (lsm_view s)(k := None)"
    unfolding lsm_ops_def kv_ops.simps by (rule lsm_Delete_ok)
  show "\<And>s. lsm_ok env s \<Longrightarrow> \<exists>data. eSnapshot (lsm_ops env) s = Inr data"
    by (simp add: lsm_ops_def)
  show "\<And>s t data t'. lsm_ok env s \<Longrightarrow> lsm_ok env t \<Longrightarrow> fits (lsm_view s) \<Longrightarrow> eSnapshot (lsm_ops env) s = Inr data \<Longrightarrow>
      eRestore (lsm_ops env) t data = (t', None) \<Longrightarrow> lsm_ok env t' \<and> lsm_view t' = lsm_view s"
    unfolding lsm_ops_def kv_ops.simps by (auto dest: lsm_Restore_ok)
  show "\<And>s. lsm_ok env s \<Longrightarrow> card (dom (lsm_view s)) < 2 ^ 31 \<Longrightarrow> eSize (lsm_ops env) s = int (card (dom (lsm_view s)))"
    unfolding lsm_ops_def kv_ops.simps by (rule lsm_Size_ok)
qed

text \<open>
  Without a log and a manifest (the way the server builds the engine) no operation touches a
  file, and none throws.
\<close>

lemma flush_loop_mem:
  "m_manifestPath s = [] \<Longrightarrow> \<exists>s'. flush_loop env ms s = (s', None) \<and> m_manifestPath s' = [] \<and> m_walPath s' = m_walPath s"
proof (induction ms arbitrary: s)
  case (Cons es rest)
  obtain s1 where "flush_one env es rest s = (s1, None)" "m_manifestPath s1 = []" "m_walPath s1 = m_walPath s"
    using Cons.prems by (simp add: flush_one_def Let_def PersistSSTableLocked_def RewriteManifestLocked_def)
  then show ?case using Cons.IH [of s1] by simp
qed simp

lemma FlushIfNeeded_mem:
  "m_manifestPath s = [] \<Longrightarrow> \<exists>s'. FlushMemTableIfNeededLocked env s = (s', None) \<and> m_manifestPath s' = [] \<and> m_walPath s' = m_walPath s"
  using flush_loop_mem [of "RotateMemTableToImmutableLocked s" env]
  by (auto simp: FlushMemTableIfNeededLocked_def FlushMemTableLocked_def FlushImmutableMemTablesLocked_def
      NotifyBackgroundWorker_def RotateMemTableToImmutableLocked_def)

lemma lsm_Put_mem:
  "m_manifestPath s = [] \<Longrightarrow> m_walPath s = [] \<Longrightarrow>
   \<exists>s'. lsm_Put env s k v = (s', None) \<and> m_manifestPath s' = [] \<and> m_walPath s' = []"
  using FlushIfNeeded_mem [of "s\<lparr>m_memTable := smap_put k \<lparr>entry_type = Put, entry_value = v\<rparr> (m_memTable s)\<rparr>" env]
  by (auto simp: lsm_Put_def AppendWALLocked_def)

lemma lsm_Delete_mem:
  "m_manifestPath s = [] \<Longrightarrow> m_walPath s = [] \<Longrightarrow>
   \<exists>s'. lsm_Delete env s k = (s', None) \<and> m_manifestPath s' = [] \<and> m_walPath s' = []"
  using FlushIfNeeded_mem [of "s\<lparr>m_memTable := smap_put k \<lparr>entry_type = Delete, entry_value = []\<rparr> (m_memTable s)\<rparr>" env]
  by (auto simp: lsm_Delete_def AppendWALLocked_def)

lemma lsm_new_ok: "lsm_ok env (LSMTreeEngine_mem n d)" "lsm_view (LSMTreeEngine_mem n d) = Map.empty"
  by (auto simp: LSMTreeEngine_mem_def lsm_blank_def lsm_ok_def layers_def lsm_view_def fun_eq_iff)

lemma background_turn_ok:
  assumes "BackgroundWorkerTurn env s = ((s', None), go)" "lsm_ok env s"
  shows "lsm_ok env s' \<and> lsm_view s' = lsm_view s"
proof -
  have *: "lsm_ok env u' \<and> lsm_view u' = lsm_view u" if "flush_and_compact env u = (u', None)" "lsm_ok env u" for u u'
    using that FlushMemTable_ok [of env u] Compact_ok [of env]
    by (fastforce simp: flush_and_compact_def seqS_None_iff split: if_splits)
  have "lsm_ok env (s\<lparr>m_backgroundWorkPending := False\<rparr>)"
    "lsm_view (s\<lparr>m_backgroundWorkPending := False\<rparr>) = lsm_view s"
    using assms(2) by (auto simp: lsm_ok_def layers_def lsm_view_def fun_eq_iff)
  then show ?thesis using * assms by (fastforce simp: BackgroundWorkerTurn_def split: if_splits)
qed

end
