(* ===== verification/Lsm_Recovery.thy ===== *)
theory Lsm_Recovery
  imports Lsm_Proofs
begin

text \<open>
  Recovery of the log-structured engine that has a write-ahead log and no manifest: the log holds the
  history of the contents, every operation keeps it so, and an engine constructed on the log has the
  contents of the one that wrote it.
\<close>

section \<open>Records\<close>

definition rec_fits :: "WALRecord \<Rightarrow> bool" where
  "rec_fits r \<longleftrightarrow> length (rec_key r) < 2 ^ 64 \<and> length (rec_value r) < 2 ^ 64"

lemma type_byte_inverse [simp]: "type_of_byte (type_byte ty) = Some ty"
  by (cases ty) (simp_all add: type_of_byte_def type_byte_def)

lemma ReadWALRecord_append:
  assumes "rec_fits r"
  shows "ReadWALRecord (WriteWALRecord r @ rest) = Inr (r, rest)"
  using assms by (simp add: ReadWALRecord_def WriteWALRecord_def WriteUint64ToStream_eq rec_fits_def)

lemma WriteWALRecord_not_Nil [simp]: "WriteWALRecord r \<noteq> []"
  by (simp add: WriteWALRecord_def)

text \<open>What a record does to the contents.\<close>

definition apply_rec :: "(string \<rightharpoonup> string) \<Rightarrow> WALRecord \<Rightarrow> (string \<rightharpoonup> string)" where
  "apply_rec m r = m(rec_key r := (if rec_type r = Put then Some (rec_value r) else None))"

definition wal_text :: "WALRecord list \<Rightarrow> string" where
  "wal_text rs = concat (map WriteWALRecord rs)"

lemma wal_text_Nil_iff: "wal_text rs = [] \<longleftrightarrow> rs = []"
  by (cases rs) (simp_all add: wal_text_def)

section \<open>Replay\<close>

lemma replay_step:
  assumes "lsm_ok env s"
  shows "lsm_ok env (s\<lparr>m_memTable := smap_put (rec_key r) \<lparr>entry_type = rec_type r, entry_value = rec_value r\<rparr> (m_memTable s)\<rparr>)"
    and "lsm_view (s\<lparr>m_memTable := smap_put (rec_key r) \<lparr>entry_type = rec_type r, entry_value = rec_value r\<rparr> (m_memTable s)\<rparr>)
      = apply_rec (lsm_view s) r"
  using view_after_insert [OF assms, of "rec_key r"]
  by (auto simp: apply_rec_def live_def split: EntryType.splits)

lemma replay_ok:
  assumes "\<forall>r \<in> set rs. rec_fits r" "lsm_ok env s" "m_manifestPath s = []"
  shows "\<exists>s'. replay_wal env (wal_text rs) s = (s', None) \<and> lsm_ok env s' \<and>
    lsm_view s' = foldl apply_rec (lsm_view s) rs"
  using assms
proof (induction rs arbitrary: s)
  case Nil
  then show ?case by (simp add: wal_text_def replay_wal.simps [of env "[]"])
next
  case (Cons r rs)
  let ?s = "s\<lparr>m_memTable := smap_put (rec_key r) \<lparr>entry_type = rec_type r, entry_value = rec_value r\<rparr> (m_memTable s)\<rparr>"
  have "m_manifestPath ?s = []" using Cons.prems(3) by simp
  then obtain s1 where s1: "FlushMemTableIfNeededLocked env ?s = (s1, None)" "m_manifestPath s1 = []"
    using FlushIfNeeded_mem [of ?s env] by auto
  have ok1: "lsm_ok env s1" "lsm_view s1 = apply_rec (lsm_view s) r"
    using FlushIfNeeded_ok [OF s1(1)] replay_step [OF Cons.prems(2), of r] by simp_all
  from Cons.IH [OF _ ok1(1) s1(2)] Cons.prems(1) obtain s' where
    s': "replay_wal env (wal_text rs) s1 = (s', None)" "lsm_ok env s'"
      "lsm_view s' = foldl apply_rec (lsm_view s1) rs" by auto
  have "ReadWALRecord (wal_text (r # rs)) = Inr (r, wal_text rs)"
    using Cons.prems(1) ReadWALRecord_append [of r "wal_text rs"] by (simp add: wal_text_def)
  then have "replay_wal env (wal_text (r # rs)) s = (s', None)"
    using s1(1) s'(1) by (subst replay_wal.simps) (simp add: wal_text_Nil_iff)
  then show ?case using s' ok1(2) by auto
qed

section \<open>The log holds the history\<close>

definition wal_holds :: "lsm \<Rightarrow> bool" where
  "wal_holds s \<longleftrightarrow> m_walPath s \<noteq> [] \<and> m_manifestPath s = [] \<and>
     (\<exists>rs. (\<forall>r \<in> set rs. rec_fits r) \<and> foldl apply_rec Map.empty rs = lsm_view s \<and>
        (lsm_disk s (m_walPath s) = Some (wal_text rs) \<or> rs = [] \<and> lsm_disk s (m_walPath s) = None))"

lemma recovery:
  assumes "wal_holds s"
  shows "\<exists>s'. LSMTreeEngine_wal env n (m_walPath s) (lsm_disk s) = (s', None) \<and> lsm_ok env s' \<and> lsm_view s' = lsm_view s"
proof -
  let ?b = "lsm_blank n (m_walPath s) [] (lsm_disk s)"
  obtain rs where rs: "\<forall>r \<in> set rs. rec_fits r" "foldl apply_rec Map.empty rs = lsm_view s"
    "lsm_disk s (m_walPath s) = Some (wal_text rs) \<or> rs = [] \<and> lsm_disk s (m_walPath s) = None"
    and p: "m_walPath s \<noteq> []"
    using assms by (auto simp: wal_holds_def)
  have b: "lsm_ok env ?b" "lsm_view ?b = Map.empty" "m_manifestPath ?b = []"
    by (auto simp: lsm_blank_def lsm_ok_def layers_def lsm_view_def fun_eq_iff)
  obtain s' where s': "replay_wal env (wal_text rs) ?b = (s', None)" "lsm_ok env s'"
    "lsm_view s' = foldl apply_rec (lsm_view ?b) rs"
    using replay_ok [OF rs(1) b(1,3)] by blast
  from rs(3) show ?thesis
  proof
    assume "lsm_disk s (m_walPath s) = Some (wal_text rs)"
    then show ?thesis using s' b(2) rs(2) p
      by (auto simp: LSMTreeEngine_wal_def RecoverFromWALLocked_def lsm_blank_def)
  next
    assume "rs = [] \<and> lsm_disk s (m_walPath s) = None"
    then show ?thesis using b rs(2) p
      by (auto simp: LSMTreeEngine_wal_def RecoverFromWALLocked_def lsm_blank_def)
  qed
qed

text \<open>Flushing changes neither paths nor, without a manifest, the disk.\<close>

lemma flush_loop_disk:
  "m_manifestPath s = [] \<Longrightarrow> flush_loop env ms s = (s', e) \<Longrightarrow>
   lsm_disk s' = lsm_disk s \<and> m_manifestPath s' = [] \<and> m_walPath s' = m_walPath s"
proof (induction ms arbitrary: s)
  case (Cons es rest)
  obtain s1 where "flush_one env es rest s = (s1, None)" "m_manifestPath s1 = []" "m_walPath s1 = m_walPath s"
    "lsm_disk s1 = lsm_disk s"
    using Cons.prems(1) by (simp add: flush_one_def Let_def PersistSSTableLocked_def RewriteManifestLocked_def)
  then show ?case using Cons.IH [of s1] Cons.prems(2) by simp
qed simp

lemma FlushIfNeeded_disk:
  assumes "m_manifestPath s = []" "FlushMemTableIfNeededLocked env s = (s', e)"
  shows "lsm_disk s' = lsm_disk s \<and> m_manifestPath s' = [] \<and> m_walPath s' = m_walPath s"
proof -
  let ?r = "RotateMemTableToImmutableLocked s"
  have r: "lsm_disk ?r = lsm_disk s" "m_manifestPath ?r = []" "m_walPath ?r = m_walPath s"
    using assms(1) by (simp_all add: RotateMemTableToImmutableLocked_def)
  have "s' = s \<or> s' = NotifyBackgroundWorker ?r \<or> flush_loop env (m_immutableMemTables ?r) ?r = (s', e)"
    using assms(2) by (auto simp: FlushMemTableIfNeededLocked_def FlushMemTableLocked_def
        FlushImmutableMemTablesLocked_def split: if_splits)
  then show ?thesis
    using flush_loop_disk [OF r(2), of env "m_immutableMemTables ?r" s' e] r assms(1)
    by (elim disjE) (simp_all add: NotifyBackgroundWorker_def)
qed

lemma AppendWAL_disk:
  assumes "AppendWALLocked env ty k v s = (s', None)" "m_walPath s \<noteq> []"
  shows "s' = s\<lparr>lsm_disk := (lsm_disk s)(m_walPath s \<mapsto>
      (case lsm_disk s (m_walPath s) of None \<Rightarrow> [] | Some old \<Rightarrow> old) @
      WriteWALRecord \<lparr>rec_type = ty, rec_key = k, rec_value = v\<rparr>)\<rparr>"
  using assms by (auto simp: AppendWALLocked_def write_app_def put_file_def split: if_splits option.splits)

lemma wal_extend:
  assumes "wal_holds s" "rec_fits r" "lsm_view s' = apply_rec (lsm_view s) r"
    "m_walPath s' = m_walPath s" "m_manifestPath s' = []"
    "lsm_disk s' = (lsm_disk s)(m_walPath s \<mapsto>
       (case lsm_disk s (m_walPath s) of None \<Rightarrow> [] | Some old \<Rightarrow> old) @ WriteWALRecord r)"
  shows "wal_holds s'"
proof -
  obtain rs where rs: "\<forall>r \<in> set rs. rec_fits r" "foldl apply_rec Map.empty rs = lsm_view s"
    "lsm_disk s (m_walPath s) = Some (wal_text rs) \<or> rs = [] \<and> lsm_disk s (m_walPath s) = None"
    and p: "m_walPath s \<noteq> []"
    using assms(1) by (auto simp: wal_holds_def)
  have "lsm_disk s' (m_walPath s') = Some (wal_text (rs @ [r]))"
    using rs(3) assms(4,6) by (auto simp: wal_text_def)
  then show ?thesis
    using rs assms p unfolding wal_holds_def by (intro conjI exI [of _ "rs @ [r]"]) auto
qed

lemma Put_wal_holds:
  assumes "wal_holds s" "lsm_ok env s" "length k < 2 ^ 64" "length v < 2 ^ 64" "lsm_Put env s k v = (s', None)"
  shows "wal_holds s'" "m_walPath s' = m_walPath s"
proof -
  let ?r = "\<lparr>rec_type = Put, rec_key = k, rec_value = v\<rparr>"
  have p: "m_walPath s \<noteq> []" "m_manifestPath s = []" using assms(1) by (auto simp: wal_holds_def)
  obtain s1 where A: "AppendWALLocked env Put k v s = (s1, None)"
    and F: "FlushMemTableIfNeededLocked env
        (s1\<lparr>m_memTable := smap_put k \<lparr>entry_type = Put, entry_value = v\<rparr> (m_memTable s1)\<rparr>) = (s', None)"
    using assms(5) by (auto simp: lsm_Put_def seqS_None_iff)
  note s1 = AppendWAL_disk [OF A p(1)]
  have "lsm_disk s' = lsm_disk s1 \<and> m_manifestPath s' = [] \<and> m_walPath s' = m_walPath s1"
    using FlushIfNeeded_disk [OF _ F] p(2) by (simp add: s1)
  moreover have "lsm_view s' = apply_rec (lsm_view s) ?r"
    using lsm_Put_ok [OF assms(5,2)] by (simp add: apply_rec_def)
  ultimately show "wal_holds s'" "m_walPath s' = m_walPath s"
    using assms(3,4) by (simp_all add: s1 rec_fits_def wal_extend [OF assms(1), of ?r])
qed

lemma Delete_wal_holds:
  assumes "wal_holds s" "lsm_ok env s" "length k < 2 ^ 64" "lsm_Delete env s k = (s', None)"
  shows "wal_holds s'" "m_walPath s' = m_walPath s"
proof -
  let ?r = "\<lparr>rec_type = Delete, rec_key = k, rec_value = []\<rparr>"
  have p: "m_walPath s \<noteq> []" "m_manifestPath s = []" using assms(1) by (auto simp: wal_holds_def)
  obtain s1 where A: "AppendWALLocked env Delete k [] s = (s1, None)"
    and F: "FlushMemTableIfNeededLocked env
        (s1\<lparr>m_memTable := smap_put k \<lparr>entry_type = Delete, entry_value = []\<rparr> (m_memTable s1)\<rparr>) = (s', None)"
    using assms(4) by (auto simp: lsm_Delete_def seqS_None_iff)
  note s1 = AppendWAL_disk [OF A p(1)]
  have "lsm_disk s' = lsm_disk s1 \<and> m_manifestPath s' = [] \<and> m_walPath s' = m_walPath s1"
    using FlushIfNeeded_disk [OF _ F] p(2) by (simp add: s1)
  moreover have "lsm_view s' = apply_rec (lsm_view s) ?r"
    using lsm_Delete_ok [OF assms(4,2)] by (simp add: apply_rec_def)
  ultimately show "wal_holds s'" "m_walPath s' = m_walPath s"
    using assms(3) by (simp_all add: s1 rec_fits_def wal_extend [OF assms(1), of ?r])
qed

lemma new_wal_holds: "path \<noteq> [] \<Longrightarrow> d path = None \<Longrightarrow> wal_holds (lsm_blank n path [] d)"
  by (auto simp: wal_holds_def lsm_blank_def lsm_view_def layers_def fun_eq_iff)

text \<open>A history of updates on a log-keeping engine.\<close>

datatype update = UPut string string | UDelete string

fun run_updates :: "lsm_env \<Rightarrow> update list \<Rightarrow> lsm \<Rightarrow> lsm proc" where
  "run_updates env [] s = (s, None)"
| "run_updates env (UPut k v # us) s = seqS (lsm_Put env s k v) (run_updates env us)"
| "run_updates env (UDelete k # us) s = seqS (lsm_Delete env s k) (run_updates env us)"

fun update_fits :: "update \<Rightarrow> bool" where
  "update_fits (UPut k v) \<longleftrightarrow> length k < 2 ^ 64 \<and> length v < 2 ^ 64"
| "update_fits (UDelete k) \<longleftrightarrow> length k < 2 ^ 64"

fun update_view :: "(string \<rightharpoonup> string) \<Rightarrow> update \<Rightarrow> (string \<rightharpoonup> string)" where
  "update_view m (UPut k v) = m(k \<mapsto> v)"
| "update_view m (UDelete k) = m(k := None)"

lemma run_updates_ok:
  "wal_holds s \<Longrightarrow> lsm_ok env s \<Longrightarrow> \<forall>u \<in> set us. update_fits u \<Longrightarrow> run_updates env us s = (s', None) \<Longrightarrow>
   wal_holds s' \<and> lsm_ok env s' \<and> lsm_view s' = foldl update_view (lsm_view s) us \<and> m_walPath s' = m_walPath s"
proof (induction us arbitrary: s)
  case (Cons u us)
  show ?case
  proof (cases u)
    case (UPut k v)
    then obtain t where t: "lsm_Put env s k v = (t, None)" "run_updates env us t = (s', None)"
      using Cons.prems(4) by (auto simp: seqS_None_iff)
    have "wal_holds t" "m_walPath t = m_walPath s" "lsm_ok env t" "lsm_view t = (lsm_view s)(k \<mapsto> v)"
      using Put_wal_holds [OF Cons.prems(1,2) _ _ t(1)] lsm_Put_ok [OF t(1) Cons.prems(2)] Cons.prems(3) UPut by auto
    then show ?thesis using Cons.IH [of t] Cons.prems(3) t(2) UPut by (simp del: fun_upd_apply)
  next
    case (UDelete k)
    then obtain t where t: "lsm_Delete env s k = (t, None)" "run_updates env us t = (s', None)"
      using Cons.prems(4) by (auto simp: seqS_None_iff)
    have "wal_holds t" "m_walPath t = m_walPath s" "lsm_ok env t" "lsm_view t = (lsm_view s)(k := None)"
      using Delete_wal_holds [OF Cons.prems(1,2) _ t(1)] lsm_Delete_ok [OF t(1) Cons.prems(2)] Cons.prems(3) UDelete by auto
    then show ?thesis using Cons.IH [of t] Cons.prems(3) t(2) UDelete by (simp del: fun_upd_apply)
  qed
qed simp

end
