(* ===== verification/Storage_Props.thy ===== *)
theory Storage_Props
  imports Lsm_Recovery
begin

text \<open>
  The properties of the storage engines: the LRU cache, the log-structured engine with its table
  lookup, snapshots and write-ahead log, and the caching engine over it (which is what the server
  runs).
\<close>

interpretation lsm_cached: kv_engine "cached_ops (lsm_ops env)" "cached_view lsm_view"
  "cached_inv (lsm_ok env) lsm_view" for env
  by (rule lsm.cached_kv_engine)

text \<open>A file system in which everything works, for the concrete runs.\<close>

definition plain_lsm_env :: lsm_env where
  "plain_lsm_env = \<lparr>str_hash = (\<lambda>s. word_of_nat (length s)), can_open = (\<lambda>_. True), short_write = (\<lambda>_. None)\<rparr>"

section \<open>The cache\<close>

text \<open>
  From any cache whose index and list agree, a lookup never dereferences a dangling iterator,
  answers exactly what the cached pairs say, moves the pair it found to the front and leaves the
  rest in order, and keeps index and list in agreement.
\<close>

theorem lru_get_refines:
  assumes "lru_inv c"
  shows "\<exists>c'. lru_Get c k = Inr (c', map_of (lru_abs c) k) \<and> lru_inv c' \<and>
              lru_abs c' = to_front k (lru_abs c)"
  using lru_Get_ok [OF assms, of k] by (auto simp: lru_view_def)

theorem lru_get_refines_witness:
  "\<exists>c'. lru_Get (lru_new 2) ''a'' = Inr (c', None) \<and> lru_inv c' \<and> lru_abs c' = []"
  using lru_get_refines [OF lru_inv_new, of 2 "''a''"]
  by (simp add: lru_abs_def lru_new_def pairs_def to_front_def)

text \<open>
  An insertion into a cache of positive capacity puts the pair in front, drops any older pair of the
  key, and evicts the least recently used pair when the cache is full; the size never exceeds the
  capacity, and a cache of capacity 0 stays empty.
\<close>

theorem lru_put_evicts_last:
  assumes "lru_inv c"
  shows "\<exists>c'. lru_Put c k v = Inr c' \<and> lru_inv c' \<and>
    lru_abs c' = take (m_capacity c) ((k, v) # filter (\<lambda>p. fst p \<noteq> k) (lru_abs c)) \<and>
    lru_Size c' \<le> m_capacity c"
  using lru_Put_ok [OF assms, of k v] lru_Size_bound by force

theorem lru_put_evicts_last_witness:
  "\<exists>c'. lru_Put (lru_new 2) ''a'' ''1'' = Inr c' \<and> lru_abs c' = [(''a'', ''1'')] \<and> lru_Size c' \<le> 2"
  using lru_put_evicts_last [OF lru_inv_new, of 2 "''a''" "''1''"]
  by (auto simp: lru_abs_def lru_new_def pairs_def)

section \<open>The log-structured engine\<close>

text \<open>
  A lookup answers from the newest layer that has the key (mem table, then immutable mem tables,
  then sorted tables, newest first), and a tombstone found there hides every older value.
\<close>

theorem lsm_get_newest_layer:
  assumes "lsm_ok env s"
  shows "lsm_Get env s key = Inr
    (case find_in_memtables (layers s) key of
       None \<Rightarrow> None
     | Some e \<Rightarrow> (case entry_type e of Put \<Rightarrow> Some (entry_value e) | Delete \<Rightarrow> None))"
  using lsm_Get_correct [OF assms]
  by (auto simp: lsm_view_def live_def split: option.splits EntryType.splits)

theorem lsm_get_newest_layer_witness:
  "lsm_Get plain_lsm_env (LSMTreeEngine_mem 2 Map.empty) ''k'' = Inr None"
  using lsm_get_newest_layer [OF lsm_new_ok(1), of plain_lsm_env 2 Map.empty "''k''"]
  by (simp add: LSMTreeEngine_mem_def lsm_blank_def layers_def)

text \<open>
  Inside a table whose metadata was rebuilt, neither the key range nor the Bloom filter hides a key the
  table has, and the search through the block index finds exactly what the entries hold, without
  reading past an end iterator.
\<close>

theorem table_lookup_exact:
  fixes hash :: "string \<Rightarrow> u64"
  assumes "smap_wf (entries t)"
  defines "u \<equiv> RebuildSSTableMetadata hash t"
  shows "(\<forall>e. map_of (entries t) key = Some e \<longrightarrow> MayContain hash u key) \<and>
    (MayContain hash u key \<longrightarrow> FindInIndexedBlock u key = Inr (map_of (entries t) key))"
proof -
  have ok: "table_ok hash u" and es: "entries u = entries t"
    using Rebuild_ok [OF assms(1)] by (simp_all add: u_def)
  then show ?thesis
    using MayContain_complete [OF ok] FindInIndexedBlock_correct [OF ok MayContain_nonempty] by auto
qed

definition demo_entries :: memtable where
  "demo_entries = [(''a'', \<lparr>entry_type = Put, entry_value = ''1''\<rparr>),
                   (''b'', \<lparr>entry_type = Delete, entry_value = []\<rparr>)]"

lemma demo_entries_wf: "smap_wf demo_entries"
  by (simp add: demo_entries_def smap_wf_def)

theorem table_lookup_exact_witness:
  "FindInIndexedBlock (RebuildSSTableMetadata (str_hash plain_lsm_env) (new_table 1 [] demo_entries)) ''b'' =
     Inr (Some \<lparr>entry_type = Delete, entry_value = []\<rparr>)"
proof -
  have "entries (new_table 1 [] demo_entries) = demo_entries" by (simp add: new_table_def)
  then show ?thesis
    using table_lookup_exact [of "new_table 1 [] demo_entries" "''b''" "str_hash plain_lsm_env"] demo_entries_wf
    by (simp add: demo_entries_def)
qed

text \<open>
  Without a log and a manifest, which is how the server builds the engine, an insertion and a deletion
  never throw, whatever flushing they start, and change the visible contents in the one key.
\<close>

theorem lsm_update_in_memory:
  assumes "lsm_ok env s" "m_walPath s = []" "m_manifestPath s = []"
  shows "(\<exists>s'. lsm_Put env s k v = (s', None) \<and> lsm_ok env s' \<and> lsm_view s' = (lsm_view s)(k \<mapsto> v)) \<and>
    (\<exists>s'. lsm_Delete env s k = (s', None) \<and> lsm_ok env s' \<and> lsm_view s' = (lsm_view s)(k := None))"
  using lsm_Put_mem [OF assms(3,2), of env k v] lsm_Delete_mem [OF assms(3,2), of env k]
    lsm_Put_ok [OF _ assms(1)] lsm_Delete_ok [OF _ assms(1)] by blast

theorem lsm_update_in_memory_witness:
  "\<exists>s'. lsm_Put plain_lsm_env (LSMTreeEngine_mem 1 Map.empty) ''k'' ''v'' = (s', None) \<and> lsm_view s' = [''k'' \<mapsto> ''v'']"
proof -
  have "m_walPath (LSMTreeEngine_mem 1 Map.empty) = []" "m_manifestPath (LSMTreeEngine_mem 1 Map.empty) = []"
    by (simp_all add: LSMTreeEngine_mem_def lsm_blank_def)
  from lsm_update_in_memory [OF lsm_new_ok(1) this, of plain_lsm_env "''k''" "''v''"] show ?thesis by (auto simp: lsm_new_ok(2))
qed

text \<open>A compaction that returns leaves at most one table.\<close>

lemma compact_tables:
  assumes "CompactSSTablesLocked env s = (s', None)"
  shows "length (m_sstables s') \<le> 1"
  using assms
  by (auto simp: CompactSSTablesLocked_def Let_def split: if_splits prod.splits sum.splits
      dest!: RewriteManifest_only_disk elim!: only_diskE)

lemma compacted_tables:
  assumes "flush_and_compact env s = (s', None)"
  shows "length (m_sstables s') \<le> 1"
  using assms compact_tables by (auto simp: flush_and_compact_def seqS_None_iff split: if_splits)

text \<open>
  C19: flushing and compacting are invisible: a turn of the background worker that does not throw changes no
  answer of the engine; it leaves at most one sorted table, and goes on unless the stop flag is up.
\<close>

theorem background_turn_invisible:
  assumes "lsm_ok env s" "BackgroundWorkerTurn env s = ((s', None), go)"
  shows "lsm_ok env s' \<and> lsm_view s' = lsm_view s \<and> length (m_sstables s') \<le> 1 \<and>
    (go \<longleftrightarrow> \<not> m_backgroundStop s)"
proof -
  have "length (m_sstables s') \<le> 1 \<and> (go \<longleftrightarrow> \<not> m_backgroundStop s)"
    using assms(2) compacted_tables by (auto simp: BackgroundWorkerTurn_def split: if_splits)
  then show ?thesis using background_turn_ok [OF assms(2,1)] by blast
qed

theorem background_turn_invisible_witness:
  "\<exists>s'. BackgroundWorkerTurn plain_lsm_env (LSMTreeEngine_mem 1 Map.empty) = ((s', None), True) \<and> lsm_view s' = Map.empty"
proof -
  let ?s = "LSMTreeEngine_mem 1 Map.empty"
  have run: "BackgroundWorkerTurn plain_lsm_env ?s = ((?s\<lparr>m_backgroundWorkPending := False\<rparr>, None), True)"
    by (simp add: BackgroundWorkerTurn_def flush_and_compact_def FlushMemTableLocked_def
        FlushImmutableMemTablesLocked_def RotateMemTableToImmutableLocked_def LSMTreeEngine_mem_def lsm_blank_def)
  from background_turn_invisible [OF lsm_new_ok(1) run] run lsm_new_ok(2) show ?thesis by auto
qed

text \<open>A range of an ordered map.\<close>

lemma takeWhile_sorted: "smap_wf m \<Longrightarrow> takeWhile (\<lambda>p. fst p \<le> b) m = filter (\<lambda>p. fst p \<le> b) m"
proof (induction m)
  case (Cons p m)
  have "filter (\<lambda>p. fst p \<le> b) m = []" if "\<not> fst p \<le> b"
    using Cons.prems that by (force simp: smap_wf_Cons filter_empty_conv)
  then show ?case using Cons by (simp add: smap_wf_Cons)
qed simp

lemma smap_wf_range:
  "smap_wf m \<Longrightarrow>
   takeWhile (\<lambda>p. fst p \<le> b) (dropWhile (\<lambda>p. fst p < a) m) = filter (\<lambda>p. a \<le> fst p \<and> fst p \<le> b) m"
proof (induction m)
  case (Cons p m)
  show ?case
  proof (cases "fst p < a")
    case False
    then have "\<forall>q \<in> set (p # m). a \<le> fst q" using Cons.prems by (force simp: smap_wf_Cons)
    then have "filter (\<lambda>p. a \<le> fst p \<and> fst p \<le> b) (p # m) = filter (\<lambda>p. fst p \<le> b) (p # m)"
      by (intro filter_cong) auto
    then show ?thesis using False takeWhile_sorted [OF Cons.prems, of b] by simp
  qed (use Cons in \<open>auto simp: smap_wf_Cons\<close>)
qed simp

text \<open>
  A range scan returns the visible pairs whose keys lie in the closed range, all of them, in strictly
  increasing key order; an inverted range is empty.
\<close>

theorem range_scan_exact:
  assumes "lsm_ok env s"
  shows "set (RangeScan s a b) = {(k, v). a \<le> k \<and> k \<le> b \<and> lsm_view s k = Some v} \<and>
    sorted_wrt (<) (map fst (RangeScan s a b))"
proof -
  let ?d = "ExportVisibleDataLocked s"
  have d: "smap_wf ?d" "map_of ?d = lsm_view s" using Export_correct [OF assms] by auto
  have scan: "RangeScan s a b = filter (\<lambda>p. a \<le> fst p \<and> fst p \<le> b) ?d"
    using smap_wf_range [OF d(1), of b a] by (auto simp: RangeScan_def empty_filter_conv)
  have "(k, v) \<in> set ?d \<longleftrightarrow> lsm_view s k = Some v" for k v
    using d smap_wf_distinct [OF d(1)] by (metis map_of_eq_Some_iff)
  moreover have "sorted_wrt (<) (map fst (filter P ?d))" for P
    using d(1) by (simp add: smap_wf_def sorted_wrt_map sorted_wrt_filter)
  ultimately show ?thesis unfolding scan by auto
qed

theorem range_scan_exact_witness:
  "set (RangeScan ((LSMTreeEngine_mem 9 Map.empty)\<lparr>m_memTable := demo_entries\<rparr>) ''a'' ''b'') = {(''a'', ''1'')}"
proof -
  let ?s = "(LSMTreeEngine_mem 9 Map.empty)\<lparr>m_memTable := demo_entries\<rparr>"
  have "lsm_ok plain_lsm_env ?s"
    using demo_entries_wf by (simp add: lsm_ok_def layers_def LSMTreeEngine_mem_def lsm_blank_def)
  moreover have "lsm_view ?s k = (if k = ''a'' then Some ''1'' else None)" for k
    by (simp add: lsm_view_def layers_def LSMTreeEngine_mem_def lsm_blank_def demo_entries_def)
  ultimately show ?thesis
    using range_scan_exact [of plain_lsm_env ?s "''a''" "''b''"] by (auto split: if_splits)
qed

text \<open>
  A snapshot restored into any engine gives it the contents of the engine it was taken from, whatever
  layers either had, unless the restore throws.
\<close>

theorem snapshot_restore_roundtrip:
  assumes "lsm_ok env s" "fits (lsm_view s)" "lsm_Restore env t (lsm_Snapshot s) = (t', None)"
  shows "lsm_ok env t' \<and> lsm_view t' = lsm_view s"
  using assms by (rule lsm_Restore_ok)

theorem snapshot_restore_roundtrip_witness:
  "\<exists>t'. lsm_Restore plain_lsm_env (LSMTreeEngine_mem 9 Map.empty)
     (lsm_Snapshot ((LSMTreeEngine_mem 9 Map.empty)\<lparr>m_memTable := demo_entries\<rparr>)) = (t', None) \<and>
     lsm_view t' = [''a'' \<mapsto> ''1'']"
proof -
  let ?s = "(LSMTreeEngine_mem 9 Map.empty)\<lparr>m_memTable := demo_entries\<rparr>" and ?t = "LSMTreeEngine_mem 9 Map.empty"
  have ok: "lsm_ok plain_lsm_env ?s"
    using demo_entries_wf by (simp add: lsm_ok_def layers_def LSMTreeEngine_mem_def lsm_blank_def)
  have view: "lsm_view ?s = [''a'' \<mapsto> ''1'']"
    by (simp add: fun_eq_iff lsm_view_def layers_def LSMTreeEngine_mem_def lsm_blank_def demo_entries_def)
  have fit: "fits (lsm_view ?s)" unfolding view by (simp add: fits_def)
  have "\<exists>t'. lsm_Restore plain_lsm_env ?t b = (t', None)" if b: "parse_snapshot b = Inr m" "b \<noteq> []" for b m
    using b FlushIfNeeded_mem [of "(?t)\<lparr>m_memTable := m, m_immutableMemTables := [], m_sstables := []\<rparr>" plain_lsm_env]
    by (auto simp: lsm_Restore_def LSMTreeEngine_mem_def lsm_blank_def DeleteSSTableFilesLocked_def
        RewriteWALLocked_def RewriteManifestLocked_def Let_def)
  moreover have "lsm_Snapshot ?s \<noteq> []"
    by (metis Snapshot_bytes append_is_Nil_conv length_uint64_bytes list.size(3) zero_neq_numeral)
  ultimately obtain t' where "lsm_Restore plain_lsm_env ?t (lsm_Snapshot ?s) = (t', None)"
    using parse_snapshot_Snapshot [OF ok fit] by blast
  then show ?thesis using snapshot_restore_roundtrip [OF ok fit] view by auto
qed

text \<open>
  An engine with a write-ahead log that is started again on the disk it left has the contents that the
  updates it acknowledged produce, in their order, whatever threshold it is started with.
\<close>

theorem wal_recovers_updates:
  assumes "path \<noteq> []" "d path = None" "\<forall>u \<in> set us. update_fits u"
    "run_updates env us (lsm_blank n path [] d) = (s, None)"
  shows "\<exists>s'. LSMTreeEngine_wal env n' path (lsm_disk s) = (s', None) \<and>
    lsm_view s' = foldl update_view Map.empty us \<and> lsm_view s = lsm_view s'"
proof -
  let ?b = "lsm_blank n path [] d"
  have b: "lsm_ok env ?b" "lsm_view ?b = Map.empty" "m_walPath ?b = path"
    by (auto simp: lsm_blank_def lsm_ok_def layers_def lsm_view_def fun_eq_iff)
  have "wal_holds s \<and> lsm_view s = foldl update_view Map.empty us \<and> m_walPath s = path"
    using run_updates_ok [OF new_wal_holds b(1) assms(3,4)] assms(1,2) b(2,3) by auto
  then show ?thesis using recovery [of s env n'] by auto
qed

theorem wal_recovers_updates_witness:
  "\<exists>s s'. run_updates plain_lsm_env [UPut ''a'' ''1'', UPut ''b'' ''2'', UDelete ''a''] (lsm_blank 9 ''w'' [] Map.empty) = (s, None) \<and>
     LSMTreeEngine_wal plain_lsm_env 1 ''w'' (lsm_disk s) = (s', None) \<and> lsm_view s' = [''b'' \<mapsto> ''2'']"
proof -
  let ?us = "[UPut ''a'' ''1'', UPut ''b'' ''2'', UDelete ''a'']" and ?b = "lsm_blank 9 ''w'' [] Map.empty"
  have "snd (run_updates plain_lsm_env ?us ?b) = None" by code_simp
  then obtain s where s: "run_updates plain_lsm_env ?us ?b = (s, None)" by (metis prod.collapse)
  from wal_recovers_updates [OF _ _ _ s, of 1] s show ?thesis by (auto simp: fun_eq_iff)
qed

section \<open>The caching engine over the log-structured engine\<close>

text \<open>
  C14: the engine the server uses when the log-structured engine and the cache are enabled: whatever the cache
  holds and evicts, a lookup after an insertion that returned gives the inserted value for its key and
  what the base had for any other key.
\<close>

theorem cached_get_after_put:
  assumes "cached_inv (lsm_ok env) lsm_view c" "cached_Put (lsm_ops env) c k v = (c', None)"
  shows "\<exists>c''. cached_Get (lsm_ops env) c' x = (c'', Inr (if x = k then Some v else lsm_view (m_base c) x)) \<and>
    cached_inv (lsm_ok env) lsm_view c''"
proof -
  have c': "cached_inv (lsm_ok env) lsm_view c'" "lsm_view (m_base c') = (lsm_view (m_base c))(k \<mapsto> v)"
    using lsm.cached_put [OF assms] by auto
  from lsm.cached_get [OF c'(1), of x] c'(2) show ?thesis by (auto simp: fun_upd_def)
qed

theorem cached_get_after_put_witness:
  "\<exists>c' c''. cached_Put (lsm_ops plain_lsm_env) (cached_new (LSMTreeEngine_mem 1 Map.empty) 1) ''k'' ''v'' = (c', None) \<and>
     cached_Get (lsm_ops plain_lsm_env) c' ''k'' = (c'', Inr (Some ''v''))"
proof -
  let ?b = "LSMTreeEngine_mem 1 Map.empty" and ?c = "cached_new (LSMTreeEngine_mem 1 Map.empty) 1"
  have inv: "cached_inv (lsm_ok plain_lsm_env) lsm_view ?c"
    by (simp add: cached_inv_def cached_new_def lsm_new_ok coherent_new)
  obtain b' where "lsm_Put plain_lsm_env ?b ''k'' ''v'' = (b', None)"
    using lsm_Put_mem [of ?b plain_lsm_env "''k''" "''v''"] by (auto simp: LSMTreeEngine_mem_def lsm_blank_def)
  moreover obtain l where "lru_Put (lru_new 1) ''k'' ''v'' = Inr l" using lru_Put_ok [OF lru_inv_new] by blast
  ultimately obtain c' where "cached_Put (lsm_ops plain_lsm_env) ?c ''k'' ''v'' = (c', None)"
    by (simp add: cached_Put_def cached_new_def lsm_ops_def)
  then show ?thesis using cached_get_after_put [OF inv, of "''k''" "''v''" _ "''k''"] by auto
qed

end
