(* ===== verification/Kv_Props.thy ===== *)
theory Kv_Props
  imports Kv_Demo Storage_Props
begin

text \<open>
  The properties of the KV server, on the engine it is built with by default: the skip list behind the
  cache.
\<close>

abbreviation op_messages :: "kv_env \<Rightarrow> (Op \<times> int \<times> int) list \<Rightarrow> ApplyMsg list" where
  "op_messages env ops \<equiv> map (\<lambda>(op, t, i). command_msg (op_entry (kv_raft env) op t i)) ops"

section \<open>Applying the log\<close>

text \<open>
  C2: the apply loop, run over any queue of committed commands, gets through all of them without failing,
  whatever snapshots it takes on the way, and leaves the state that the abstract state machine computes from the
  commands in their order.
\<close>

theorem apply_log_refines:
  assumes "kv_archive_ok env" "server_wf (default_ok senv) s" "length clock = length ops"
    "applyChan (m_raftNode s) = op_messages env ops @ rest"
    "\<forall>(op, t, i) \<in> set ops. m_lastSnapShotRaftLogIndex s < i"
  shows "\<exists>s'. apply_turns (default_ops senv) env clock s = Inr s' \<and> server_wf (default_ok senv) s' \<and>
    kv_abs default_view s' = kv_run (zip clock (map fst ops)) (kv_abs default_view s) \<and>
    applyChan (m_raftNode s') = rest"
  using default_engine.run_ok [OF assms] by blast

theorem apply_log_refines_witness:
  "\<exists>s'. apply_turns (default_ops demo_sl_env) demo_kv_env [7, 8]
     (demo_server (demo_leader [] 0 (op_messages demo_kv_env [(demo_put ''x'' 1, 1, 1), (demo_append ''y'' 2, 1, 2)]))) = Inr s' \<and>
     default_view (m_engine s') ''k'' = Some ''xy''"
proof -
  let ?ops = "[(demo_put ''x'' 1, 1, 1), (demo_append ''y'' 2, 1, 2)] :: (Op \<times> int \<times> int) list"
  let ?s = "demo_server (demo_leader [] 0 (op_messages demo_kv_env ?ops))"
  have wf: "server_wf (default_ok demo_sl_env) ?s" by (intro demo_server_wf demo_leader_wf) simp_all
  obtain s' where s': "apply_turns (default_ops demo_sl_env) demo_kv_env [7, 8] ?s = Inr s'"
    "kv_abs default_view s' = kv_run (zip [7, 8] (map fst ?ops)) (kv_abs default_view ?s)"
    using apply_log_refines [OF demo_kv_ok wf, of "[7, 8]" ?ops "[]"] by auto
  have "kv_map (kv_abs default_view s') ''k'' = Some ''xy''"
    unfolding s'(2) demo_server_abs
    by (simp add: kv_exec_def kv_seen_def kv_write_def kv_read_def kv_expired_def demo_ops)
  then show ?thesis using s'(1) by simp
qed

text \<open>Requests the state machine has seen.\<close>

lemma kv_exec_done:
  assumes "kv_done a c = Some n"
  shows "\<exists>m \<ge> n. kv_done (kv_exec now op a) c = Some m"
proof (cases "kv_seen a op \<or> ClientId op \<noteq> c")
  case True
  then show ?thesis using assms by (auto simp: kv_exec_def kv_write_def)
next
  case False
  then have "n \<le> RequestId op" using assms by (auto simp: kv_seen_def)
  then show ?thesis using False assms by (auto simp: kv_exec_def kv_write_def)
qed

lemma kv_run_done: "kv_done a c = Some n \<Longrightarrow> \<exists>m \<ge> n. kv_done (kv_run ops a) c = Some m"
proof (induction ops a arbitrary: n rule: kv_run.induct)
  case (2 now op ops a)
  then show ?case using kv_exec_done [of a c n now op] by (metis kv_run.simps(2) order.trans)
qed auto

lemma kv_run_append: "kv_run (xs @ ys) a = kv_run ys (kv_run xs a)"
  by (induction xs a rule: kv_run.induct) auto

lemma kv_exec_marks:
  assumes "Operation op = ''Put'' \<or> Operation op = ''Append''"
  shows "\<exists>m \<ge> RequestId op. kv_done (kv_exec now op a) (ClientId op) = Some m"
  using assms by (auto simp: kv_exec_def kv_write_def kv_seen_def split: option.splits)

lemma kv_exec_retry:
  assumes "kv_done a (ClientId op) = Some m" "RequestId op \<le> m"
  shows "kv_exec now op a = a"
  using assms by (simp add: kv_exec_def kv_seen_def)

text \<open>
  A write takes effect once: when the log holds it again, or an older request of the same client, any
  number of commands later, applying that entry changes nothing.
\<close>

theorem retries_change_nothing:
  assumes "kv_archive_ok env" "server_wf (default_ok senv) s"
    "applyChan (m_raftNode s) = op_messages env (xs @ (op, t, i) # ys @ [(op', t', i')]) @ rest"
    "\<forall>(op, t, i) \<in> set (xs @ (op, t, i) # ys @ [(op', t', i')]). m_lastSnapShotRaftLogIndex s < i"
    "length clock = length xs + 1 + length ys"
    "Operation op = ''Put'' \<or> Operation op = ''Append''" "ClientId op' = ClientId op" "RequestId op' \<le> RequestId op"
  shows "\<exists>s1 s2. apply_turns (default_ops senv) env clock s = Inr s1 \<and>
    ReadRaftApplyCommandLoop_turn (default_ops senv) env now s1 = Inr s2 \<and> kv_abs default_view s2 = kv_abs default_view s1"
proof -
  let ?ops = "xs @ (op, t, i) # ys" and ?m = "command_msg (op_entry (kv_raft env) op' t' i')"
  have "length clock = length ?ops" "applyChan (m_raftNode s) = op_messages env ?ops @ ?m # rest"
    "\<forall>(op, t, i) \<in> set ?ops. m_lastSnapShotRaftLogIndex s < i" using assms(3-5) by auto
  from default_engine.run_ok [OF assms(1,2) this] obtain s1 where s1: "apply_turns (default_ops senv) env clock s = Inr s1"
    "server_wf (default_ok senv) s1" "kv_abs default_view s1 = kv_run (zip clock (map fst ?ops)) (kv_abs default_view s)"
    "applyChan (m_raftNode s1) = ?m # rest" "m_lastSnapShotRaftLogIndex s1 = m_lastSnapShotRaftLogIndex s" by blast
  have m: "CommandValid ?m" "\<not> SnapshotValid ?m" "parseFromString (kv_raft env) (Command ?m) = Inr op'"
    "m_lastSnapShotRaftLogIndex s1 < CommandIndex ?m"
    using assms(4) s1(5) kv_archive_okD(3) [OF assms(1)] by (simp_all add: command_msg_def op_entry_def ApplyMsg_new_def)
  obtain s2 where s2: "ReadRaftApplyCommandLoop_turn (default_ops senv) env now s1 = Inr s2"
    using default_engine.turn_total [OF s1(2,4) m(1-3)] by blast
  have "default_ok senv (m_engine s1)" using s1(2) by (simp add: server_wf_def)
  then have "kv_abs default_view s2 = kv_exec now op' (kv_abs default_view s1)"
    using default_engine.turn_ok [OF _ s1(4) m s2] by blast
  moreover have "\<exists>n \<ge> RequestId op. kv_done (kv_abs default_view s1) (ClientId op) = Some n"
  proof -
    let ?n = "length xs"
    have "?n < length clock" using assms(5) by simp
    from id_take_nth_drop [OF this] obtain c1 ck c2 where "clock = c1 @ ck # c2" "length c1 = ?n"
      using assms(5) by (metis \<open>?n < length clock\<close> length_take min.absorb4)
    then have "zip clock (map fst ?ops) = zip c1 (map fst xs) @ (ck, op) # zip c2 (map fst ys)" by simp
    then have run: "kv_abs default_view s1 = kv_run (zip c2 (map fst ys)) (kv_exec ck op (kv_run (zip c1 (map fst xs)) (kv_abs default_view s)))"
      unfolding s1(3) by (simp add: kv_run_append)
    obtain n where n: "RequestId op \<le> n" "kv_done (kv_exec ck op (kv_run (zip c1 (map fst xs)) (kv_abs default_view s))) (ClientId op) = Some n"
      using kv_exec_marks [OF assms(6)] by blast
    from kv_run_done [OF n(2)] n(1) show ?thesis unfolding run by (meson order.trans)
  qed
  ultimately show ?thesis using s1(1) s2 kv_exec_retry [of "kv_abs default_view s1" op'] assms(7,8) by fastforce
qed

theorem retries_change_nothing_witness:
  "\<exists>s1 s2. apply_turns (default_ops demo_sl_env) demo_kv_env [7]
     (demo_server (demo_leader [] 0 (op_messages demo_kv_env [(demo_append ''x'' 1, 1, 1), (demo_append ''x'' 1, 1, 2)]))) = Inr s1 \<and>
     ReadRaftApplyCommandLoop_turn (default_ops demo_sl_env) demo_kv_env 8 s1 = Inr s2 \<and>
     kv_abs default_view s2 = kv_abs default_view s1"
proof -
  let ?s = "demo_server (demo_leader [] 0 (op_messages demo_kv_env [(demo_append ''x'' 1, 1, 1), (demo_append ''x'' 1, 1, 2)]))"
  have wf: "server_wf (default_ok demo_sl_env) ?s" by (intro demo_server_wf demo_leader_wf) simp_all
  show ?thesis
    using retries_change_nothing [OF demo_kv_ok wf, of "[]" "demo_append ''x'' 1" 1 1 "[]" "demo_append ''x'' 1" 1 2 "[]" "[7]" 8]
    by (simp add: demo_ops)
qed

section \<open>Snapshots and restarts\<close>

text \<open>
  C4: when the Raft state has outgrown nine tenths of its bound, the server stores a snapshot; a server
  started on the disk it left, whatever engine it is given, has the same data, expiry times and request numbers, and
  its node goes on applying right behind the snapshot with the log that followed it.
\<close>

theorem server_restart_restores:
  assumes "kv_archive_ok env" "server_wf (default_ok senv) s" "fits (default_view (m_engine s))"
    "persister_of (m_me (m_raftNode s)) (m_persister (m_raftNode s))"
    "persister_ok (file_open (kv_raft env)) (m_persister (m_raftNode s))"
    "0 < m_maxRaftState s" "m_maxRaftState s * 9 < 10 * GetRaftStateSize (m_raftNode s)"
    "m_lastSnapshotIncludeIndex (m_raftNode s) < i" "i \<le> m_commitIndex (m_raftNode s)" "default_ok senv engine"
  shows "\<exists>s' t. IfNeedToSendSnapShotCommand (default_ops senv) env i 9 s = Inr s' \<and>
    KvServer_new (default_ops senv) env engine (m_me (m_raftNode s)) maxraft (m_peers (m_raftNode s)) now
      (ps_disk (m_persister (m_raftNode s'))) = Inr t \<and>
    server_wf (default_ok senv) t \<and> kv_abs default_view t = kv_abs default_view s \<and>
    m_lastApplied (m_raftNode t) = i \<and> m_logs (m_raftNode t) = entries_after (m_raftNode s) i"
proof -
  let ?r = "m_raftNode s" and ?env = "kv_raft env"
  have wf: "default_ok senv (m_engine s)" "raft_wf ?r" using assms(2) by (auto simp: server_wf_def)
  obtain d where d: "MakeSnapShot (default_ops senv) env s = Inr (s\<lparr>m_serializedKVData := []\<rparr>, d)"
    using default_engine.make_snapshot_ok [OF wf(1), of env] by blast
  let ?c = "cut_log ?env i d ?r"
  have cut: "Raft_Snapshot ?env i d ?r = Inr ?c" using assms(8,9) by (simp add: Raft_Snapshot_eq [OF wf(2)])
  have run: "IfNeedToSendSnapShotCommand (default_ops senv) env i 9 s = Inr (s\<lparr>m_serializedKVData := [], m_raftNode := ?c\<rparr>)"
    using assms(6,7) d cut by (simp add: IfNeedToSendSnapShotCommand_def)
  have f: "m_me ?c = m_me ?r" "m_peers ?c = m_peers ?r" "m_lastSnapshotIncludeIndex ?c = i"
    "m_logs ?c = entries_after ?r i" by (simp_all add: cut_log_def Let_def entries_after_def)
  have disk: "persister_of (m_me ?c) (m_persister ?c)" "ReadRaftState (m_persister ?c) = persistData ?env ?c"
    "stored_snapshot (m_persister ?c) = d"
    using assms(4) Save_reads(1,2) [OF assms(5)] f(1) by (simp_all add: cut_log_def Let_def persistData_def)
  from default_engine.restart_ok [OF assms(1) wf(1) assms(3,10) cut_log_wf(1) [OF wf(2) assms(8,9)] disk(1,2) d disk(3), of maxraft now]
  obtain t where t: "KvServer_new (default_ops senv) env engine (m_me ?r) maxraft (m_peers ?r) now (ps_disk (m_persister ?c)) = Inr t"
    "kv_abs default_view t = kv_abs default_view s" "server_wf (default_ok senv) t"
    "m_raftNode t = restarted now (m_persister (m_raftNode t)) [] ?c" unfolding f by blast
  have "m_lastApplied (m_raftNode t) = i" "m_logs (m_raftNode t) = entries_after ?r i"
    by (subst t(4), simp add: restarted_def f)+
  then show ?thesis using run t(1-3) by (intro exI [of _ "s\<lparr>m_serializedKVData := [], m_raftNode := ?c\<rparr>"] exI [of _ t]) simp
qed

definition demo_logged :: raft where
  "demo_logged = persist demo_env (demo_leader [op_entry demo_env (demo_put ''x'' 1) 1 1, op_entry demo_env (demo_put ''y'' 2) 1 2] 1 [])"

theorem server_restart_restores_witness:
  "\<exists>s' t. IfNeedToSendSnapShotCommand (default_ops demo_sl_env) demo_kv_env 1 9 ((demo_server demo_logged)\<lparr>m_maxRaftState := 1\<rparr>) = Inr s' \<and>
    KvServer_new (default_ops demo_sl_env) demo_kv_env CreateDefaultKVEngine 0 1 3 5 (ps_disk (m_persister (m_raftNode s'))) = Inr t \<and>
    m_lastApplied (m_raftNode t) = 1"
proof -
  let ?s = "(demo_server demo_logged)\<lparr>m_maxRaftState := 1\<rparr>"
  have wf: "raft_wf demo_logged" unfolding demo_logged_def
    by (simp add: demo_leader_wf indexed_from_Cons op_entry_def)
  have s: "server_wf (default_ok demo_sl_env) ?s"
    using demo_server_wf [OF wf] by (simp add: server_wf_def chan_ok_def)
  have fit: "fits (default_view (m_engine ?s))" using default_new(2) by (simp add: fits_def demo_server_def)
  have me: "m_me demo_logged = 0" "m_peers demo_logged = 3" "m_commitIndex demo_logged = 1" "m_lastSnapshotIncludeIndex demo_logged = 0"
    by (simp_all add: demo_logged_def demo_leader_def)
  have p: "persister_of 0 (m_persister demo_logged)" "persister_ok (file_open demo_env) (m_persister demo_logged)"
    using persister_of_new [of 0] by (simp_all add: demo_logged_def demo_leader_def persister_of_def persister_ok_def Persister_new_names)
  have "codecs_ok demo_env" by (rule demo_codecs_ok)
  have size: "1 * 9 < 10 * GetRaftStateSize demo_logged"
  proof -
    have "node_oarchive demo_env n \<noteq> []" for n using codecs_okD(2) [OF demo_codecs_ok] .
    then have "0 < length (persistData demo_env r)" for r by (simp add: persistData_def)
    then have "1 \<le> int (length (persistData demo_env r))" for r by (metis Suc_leI int_one_le_iff_zero_less of_nat_0_less_iff)
    then have "9 < 10 * int (length (persistData demo_env r))" for r by (smt (verit))
    then show ?thesis by (simp add: demo_logged_def persist_def GetRaftStateSize_def SaveRaftState_reads(3))
  qed
  show ?thesis
    using server_restart_restores [OF demo_kv_ok s fit, of 1 CreateDefaultKVEngine 1 5] me p size default_new(1) [OF demo_sl_ok] by auto
qed

section \<open>Replicas\<close>

lemma kv_exec_clock:
  assumes "kv_expire a = Map.empty" "sint (ExpireAtMs op) \<le> 0"
  shows "kv_exec now op a = kv_exec now' op a" "kv_expire (kv_exec now op a) = Map.empty"
  using assms by (auto simp: kv_exec_def kv_read_def kv_expired_def kv_write_def)

lemma kv_run_clock:
  "length c = length ops \<Longrightarrow> length c' = length ops \<Longrightarrow> kv_expire a = Map.empty \<Longrightarrow>
   \<forall>op \<in> set ops. sint (ExpireAtMs op) \<le> 0 \<Longrightarrow> kv_run (zip c ops) a = kv_run (zip c' ops) a"
proof (induction ops arbitrary: a c c')
  case (Cons op ops)
  then obtain t u c1 c1' where c: "c = t # c1" "c' = u # c1'" by (metis length_Suc_conv list.size(4) add.right_neutral add_Suc_right)
  have "kv_exec t op a = kv_exec u op a" "kv_expire (kv_exec u op a) = Map.empty"
    using kv_exec_clock [OF Cons.prems(3)] Cons.prems(4) by auto
  then show ?case using Cons.IH [of c1 c1' "kv_exec u op a"] Cons.prems c by simp
qed simp

text \<open>
  C11: two replicas that apply the same commands, none of which expires, hold the same data and the same
  request numbers afterwards: it matters neither when they apply them nor that one keeps its data in the skip list
  and the other in the log-structured engine.
\<close>

theorem replicas_agree:
  assumes "kv_archive_ok env" "default_ok senv (m_engine s)" "cached_inv (lsm_ok lenv) lsm_view (m_engine t)"
    "kv_abs default_view s = kv_abs (cached_view lsm_view) t" "m_expireMap s = []"
    "applyChan (m_raftNode s) = op_messages env ops @ rest" "applyChan (m_raftNode t) = op_messages env ops @ rest'"
    "\<forall>(op, trm, i) \<in> set ops. sint (ExpireAtMs op) \<le> 0 \<and> m_lastSnapShotRaftLogIndex s < i \<and> m_lastSnapShotRaftLogIndex t < i"
    "length clock = length ops" "length clock' = length ops"
    "apply_turns (default_ops senv) env clock s = Inr s'" "apply_turns (cached_ops (lsm_ops lenv)) env clock' t = Inr t'"
  shows "kv_abs default_view s' = kv_abs (cached_view lsm_view) t'"
proof -
  have "kv_abs default_view s' = kv_run (zip clock (map fst ops)) (kv_abs default_view s)"
    using default_engine.turns_ok [OF assms(1,9,2,6) _ assms(11)] assms(8) by fastforce
  moreover have "kv_abs (cached_view lsm_view) t' = kv_run (zip clock' (map fst ops)) (kv_abs (cached_view lsm_view) t)"
    using kv_engine.turns_ok [OF lsm_cached.kv_engine_axioms assms(1,10,3,7) _ assms(12)] assms(8) by fastforce
  moreover have "kv_run (zip clock (map fst ops)) (kv_abs default_view s) = kv_run (zip clock' (map fst ops)) (kv_abs default_view s)"
    using assms(5,8-10) by (intro kv_run_clock) auto
  ultimately show ?thesis using assms(4) by simp
qed

definition demo_lsm_server :: "raft \<Rightarrow> lsm cached kvserver" where
  "demo_lsm_server r =
     \<lparr>kv_me = 0, m_raftNode = r, m_maxRaftState = -1, m_serializedKVData = [],
      m_engine = cached_new (LSMTreeEngine_mem 1 Map.empty) 1,
      waitApplyCh = Map.empty, channels = Map.empty, next_channel = 0, m_lastRequestId = [],
      m_lastSnapShotRaftLogIndex = 0, m_expireMap = []\<rparr>"

theorem replicas_agree_witness:
  "\<exists>s' t'. apply_turns (default_ops demo_sl_env) demo_kv_env [7]
      (demo_server (demo_leader [] 0 (op_messages demo_kv_env [(demo_put ''x'' 1, 1, 1)]))) = Inr s' \<and>
    apply_turns (cached_ops (lsm_ops plain_lsm_env)) demo_kv_env [9]
      (demo_lsm_server (demo_leader [] 0 (op_messages demo_kv_env [(demo_put ''x'' 1, 1, 1)]))) = Inr t' \<and>
    kv_abs default_view s' = kv_abs (cached_view lsm_view) t'"
proof -
  let ?ops = "[(demo_put ''x'' 1, 1, 1)] :: (Op \<times> int \<times> int) list"
  let ?s = "demo_server (demo_leader [] 0 (op_messages demo_kv_env ?ops))"
    and ?t = "demo_lsm_server (demo_leader [] 0 (op_messages demo_kv_env ?ops))"
  have wf: "server_wf (default_ok demo_sl_env) ?s" by (intro demo_server_wf demo_leader_wf) simp_all
  obtain s' where s': "apply_turns (default_ops demo_sl_env) demo_kv_env [7] ?s = Inr s'"
    using default_engine.run_ok [OF demo_kv_ok wf, of "[7]" ?ops "[]"] by auto
  have ok: "cached_inv (lsm_ok plain_lsm_env) lsm_view (m_engine ?t)"
    by (simp add: demo_lsm_server_def cached_inv_def cached_new_def lsm_new_ok coherent_new)
  have abs: "kv_abs default_view ?s = kv_abs (cached_view lsm_view) ?t"
    unfolding demo_server_abs by (simp add: kv_abs_def demo_lsm_server_def cached_view_def cached_new_def lsm_new_ok)
  have "\<exists>e. ePut (cached_ops (lsm_ops plain_lsm_env)) (m_engine ?t) ''k'' ''x'' = (e, None)"
  proof -
    obtain b where "lsm_Put plain_lsm_env (LSMTreeEngine_mem 1 Map.empty) ''k'' ''x'' = (b, None)"
      using lsm_Put_mem [of "LSMTreeEngine_mem 1 Map.empty" plain_lsm_env "''k''" "''x''"] by (auto simp: LSMTreeEngine_mem_def lsm_blank_def)
    moreover obtain l where "lru_Put (lru_new 1) ''k'' ''x'' = Inr l" using lru_Put_ok [OF lru_inv_new] by blast
    ultimately show ?thesis by (simp add: cached_Put_def cached_new_def lsm_ops_def cached_ops_def demo_lsm_server_def)
  qed
  then obtain t' where t': "apply_turns (cached_ops (lsm_ops plain_lsm_env)) demo_kv_env [9] ?t = Inr t'"
    using kv_archive_okD(3) [OF demo_kv_ok, of "demo_put ''x'' 1"]
    by (auto simp: ReadRaftApplyCommandLoop_turn_def GetCommandFromRaft_def command_msg_def op_entry_def ApplyMsg_new_def
        execute_command_def ifRequestDuplicate_def ExecutePutOpOnKVDB_def engine_do_def SendMessageToWaitChan_def
        demo_lsm_server_def demo_ops setKeyExpire_def Let_def)
  have "kv_abs default_view s' = kv_abs (cached_view lsm_view) t'"
    by (rule replicas_agree [OF demo_kv_ok _ ok abs _ _ _ _ _ _ s' t', where ops = ?ops and rest = "[]" and rest' = "[]"])
      (use wf in \<open>simp_all add: server_wf_def demo_server_def demo_lsm_server_def demo_ops\<close>)
  then show ?thesis using s' t' by blast
qed

end
