(* ===== verification/Kv_Rpc_Props.thy ===== *)
theory Kv_Rpc_Props
  imports Kv_Props
begin

text \<open>
  The RPC handlers of the KV server: what a read answers, that waiting handlers do not disturb each
  other, how long a key lives, and three behaviours that break the promises of the server.
\<close>

section \<open>Reads and waiting handlers\<close>

lemma read_only_get_lemma:
  assumes "default_ok senv (m_engine s)"
  shows "\<exists>s'. Get_begin (default_ops senv) env now True args s =
      Inr (s', Replied (FillGetReply (kv_read now (kv_abs default_view s) (ga_key args)))) \<and>
    kv_abs default_view s' = kv_abs default_view s \<and> m_raftNode s' = m_raftNode s \<and> default_ok senv (m_engine s')"
proof -
  obtain e where "ExecuteReadOnlyGetOpOnKVDB (default_ops senv) now (get_op args) s =
      Inr (s\<lparr>m_engine := e\<rparr>, kv_read now (kv_abs default_view s) (Key (get_op args)))" "default_ok senv e"
    "default_view e = default_view (m_engine s)"
    using default_engine.read_only_ok [OF assms] by blast
  then show ?thesis by (simp add: Get_begin_def get_op_def kv_abs_def Let_def)
qed

text \<open>
  A read whose index was confirmed answers from the state as it is, hiding a key whose time is over, and
  changes nothing a later request could see; it never fails.
\<close>

theorem read_only_get:
  assumes "default_ok senv (m_engine s)"
  shows "\<exists>s'. Get_begin (default_ops senv) env now True args s =
      Inr (s', Replied (FillGetReply (kv_read now (kv_abs default_view s) (ga_key args)))) \<and>
    kv_abs default_view s' = kv_abs default_view s \<and> m_raftNode s' = m_raftNode s \<and> default_ok senv (m_engine s')"
  by (rule read_only_get_lemma [OF assms])

theorem read_only_get_witness:
  "\<exists>s'. Get_begin (default_ops demo_sl_env) demo_kv_env 5 True \<lparr>ga_key = ''k'', ga_clientid = ''c'', ga_requestid = 1\<rparr>
     (demo_server (demo_leader [] 0 [])) = Inr (s', Replied \<lparr>gr_err = ErrNoKey, gr_value = []\<rparr>)"
proof -
  let ?s = "demo_server (demo_leader [] 0 [])"
  have "default_ok demo_sl_env (m_engine ?s)" using default_new(1) [OF demo_sl_ok] by (simp add: demo_server_def)
  from read_only_get [OF this, of demo_kv_env 5 "\<lparr>ga_key = ''k'', ga_clientid = ''c'', ga_requestid = 1\<rparr>"]
  show ?thesis unfolding demo_server_abs by (auto simp: kv_read_def kv_expired_def FillGetReply_def)
qed



section \<open>The skip list\<close>

text \<open>
  C9: on a well-formed skip list no walk diverges and no pointer dangles; searching, inserting (over an
  old value, too) and deleting do what they do on a map, whatever levels the new nodes draw, and the bottom level
  lists the pairs in strictly increasing key order.
\<close>

theorem skiplist_refines_map:
  assumes "skiplist_ok env s"
  shows "search_element s k = Inr (sl_view s k) \<and>
    (\<exists>s'. insert_set_element env s k v = Inr s' \<and> skiplist_ok env s' \<and> sl_view s' = (sl_view s)(k \<mapsto> v)) \<and>
    (\<exists>s'. delete_element s k = Inr s' \<and> skiplist_ok env s' \<and> sl_view s' = (sl_view s)(k := None)) \<and>
    sorted_wrt (<) (map fst (sl_pairs s)) \<and> sl_view s = map_of (sl_pairs s) \<and> sl_size s = int (length (sl_pairs s))"
proof -
  have ok: "sl_good s" "dump_ok env" "rand_ok env" using assms by (auto simp: skiplist_ok_def)
  obtain s1 where s1: "insert_set_element env s k v = Inr s1" using insert_set_total [OF ok(1,3)] by blast
  obtain s2 where s2: "delete_element s k = Inr s2" "sl_good s2" "sl_view s2 = (sl_view s)(k := None)"
    using delete_element_good [OF ok(1)] by blast
  have "sl_size s = int (length (sl_pairs s))"
    using ok(1) by (auto simp: sl_good_def sl_pairs_eq pairs_of_def sl_size_def dest: sl_repD(4))
  then show ?thesis
    using search_view [OF ok(1)] s1 insert_set_good [OF ok(1) s1] s2 sl_pairs_sorted [OF ok(1)] ok(2,3)
    by (auto simp: skiplist_ok_def sl_view_def)
qed

theorem skiplist_refines_map_witness:
  "\<exists>s. insert_set_element demo_sl_env (SkipListEngine_new 6) ''k'' ''v'' = Inr s \<and> search_element s ''k'' = Inr (Some ''v'')"
proof -
  have new: "skiplist_ok demo_sl_env (SkipListEngine_new 6)" using demo_sl_ok by (simp add: skiplist_ok_def new_good)
  from skiplist_refines_map [OF new, of "''k''" "''v''"] obtain s where s:
    "insert_set_element demo_sl_env (SkipListEngine_new 6) ''k'' ''v'' = Inr s" "skiplist_ok demo_sl_env s"
    "sl_view s = (sl_view (SkipListEngine_new 6))(''k'' \<mapsto> ''v'')" by blast
  have "sl_good s" using s(2) by (simp add: skiplist_ok_def)
  then show ?thesis using s search_view [of s "''k''"] by simp
qed

section \<open>Keys that expire\<close>




section \<open>Broken promises\<close>

text \<open>
  C32: the node counts a command as applied when it hands it to the server's queue.  So once the applier has
  ticked, \<open>ReadIndex\<close> and \<open>WaitForApplied\<close> let a read pass at the commit index at once, and the read is
  answered from the state before the commands in the queue: it can miss a write that was committed before it began.
\<close>

theorem read_index_reads_stale:
  assumes "default_ok senv (m_engine s)" "raft_wf (m_raftNode s)" "m_status (m_raftNode s) = Leader"
    "int (m_peers (m_raftNode s)) div 2 + 1 \<le> confirmed"
  shows "\<exists>r s'. applierTicker (m_raftNode s) = Inr r \<and>
    applyChan r = applyChan (m_raftNode s) @
      map command_msg (entries_between (m_raftNode s) (m_lastApplied (m_raftNode s)) (m_commitIndex (m_raftNode s))) \<and>
    ReadIndex_begin r = Some (m_currentTerm r, m_commitIndex r) \<and>
    ReadIndex_poll (m_currentTerm r) confirmed finished elapsed r = Some True \<and>
    WaitForApplied_poll (m_commitIndex r) CONSENSUS_TIMEOUT 0 r = Some True \<and>
    Get_begin (default_ops senv) env now True args (s\<lparr>m_raftNode := r\<rparr>) =
      Inr (s', Replied (FillGetReply (kv_read now (kv_abs default_view s) (ga_key args))))"
proof -
  let ?r = "m_raftNode s"
  let ?q = "applyChan ?r @ map command_msg (entries_between ?r (m_lastApplied ?r) (m_commitIndex ?r))"
  let ?t = "?r\<lparr>m_lastApplied := max (m_lastApplied ?r) (m_commitIndex ?r), applyChan := ?q\<rparr>"
  have tick: "applierTicker ?r = Inr ?t" using applierTicker_ok [OF assms(2)] .
  have "default_ok senv (m_engine (s\<lparr>m_raftNode := ?t\<rparr>))" using assms(1) by simp
  from read_only_get_lemma [OF this, of env now args] obtain s' where
    "Get_begin (default_ops senv) env now True args (s\<lparr>m_raftNode := ?t\<rparr>) =
      Inr (s', Replied (FillGetReply (kv_read now (kv_abs default_view s) (ga_key args))))" by auto
  moreover have "ReadIndex_begin ?t = Some (m_currentTerm ?t, m_commitIndex ?t)"
    "ReadIndex_poll (m_currentTerm ?t) confirmed finished elapsed ?t = Some True"
    "WaitForApplied_poll (m_commitIndex ?t) CONSENSUS_TIMEOUT 0 ?t = Some True"
    using assms(3,4) by (simp_all add: ReadIndex_begin_def ReadIndex_poll_def WaitForApplied_poll_def Let_def)
  ultimately show ?thesis using tick by (intro exI [of _ ?t] exI [of _ s']) simp
qed

theorem read_index_reads_stale_witness:
  "\<exists>r s'. applierTicker (demo_leader [op_entry demo_env (demo_put ''x'' 1) 1 1] 1 []) = Inr r \<and>
    applyChan r = [command_msg (op_entry demo_env (demo_put ''x'' 1) 1 1)] \<and>
    WaitForApplied_poll 1 CONSENSUS_TIMEOUT 0 r = Some True \<and>
    Get_begin (default_ops demo_sl_env) demo_kv_env 5 True \<lparr>ga_key = ''k'', ga_clientid = ''d'', ga_requestid = 1\<rparr>
      ((demo_server (demo_leader [op_entry demo_env (demo_put ''x'' 1) 1 1] 1 []))\<lparr>m_raftNode := r\<rparr>) =
      Inr (s', Replied \<lparr>gr_err = ErrNoKey, gr_value = []\<rparr>)"
proof -
  let ?logs = "[op_entry demo_env (demo_put ''x'' 1) 1 1]" and ?args = "\<lparr>ga_key = ''k'', ga_clientid = ''d'', ga_requestid = 1\<rparr>"
  let ?r = "demo_leader ?logs 1 []" and ?s = "demo_server (demo_leader [op_entry demo_env (demo_put ''x'' 1) 1 1] 1 [])"
  have wf: "raft_wf ?r" by (intro demo_leader_wf) (simp_all add: indexed_from_Cons op_entry_def)
  have ok: "default_ok demo_sl_env (m_engine ?s)" using demo_server_wf [OF wf] by (simp add: server_wf_def)
  have "applierTicker ?r = Inr (?r\<lparr>m_lastApplied := 1, applyChan := [command_msg (op_entry demo_env (demo_put ''x'' 1) 1 1)]\<rparr>)"
    using applierTicker_ok [OF wf] by (simp add: entries_between_def entries_after_def)
  then show ?thesis
    using read_index_reads_stale [OF ok, of 2 0 0 demo_kv_env 5 ?args] wf unfolding demo_server_abs
    by (auto simp: kv_read_def kv_expired_def FillGetReply_def demo_leader_def)
qed

text \<open>
  C33: a read that went through the log sets the client's last request number back to its own.  When an older
  request of a client, a read, ends after a later append of the client was applied, and the log holds that append
  again, it is applied a second time.
\<close>

theorem late_get_breaks_exactly_once:
  assumes "kv_archive_ok env" "server_wf (default_ok senv) s" "waitApplyCh s j = Some c" "channels s c = Some (gop # q)"
    "ClientId gop = ClientId op" "RequestId gop < RequestId op" "Operation op = ''Append''"
    "kv_done (kv_abs default_view s) (ClientId op) = Some (RequestId op)"
    "\<not> isKeyExpired now s (Key op)" "\<not> isKeyExpired now s (Key gop)" "default_view (m_engine s) (Key op) = Some old"
    "parseFromString (kv_raft env) (Command m) = Inr op" "m_lastSnapShotRaftLogIndex s < CommandIndex m"
  shows "\<exists>s1 reply s2 t. Get_finish (default_ops senv) now gop j c s = Inr (s1, reply) \<and>
    GetCommandFromRaft (default_ops senv) env now m s1 = Inr s2 \<and>
    default_view (m_engine s2) (Key op) = Some (old @ Value op) \<and>
    GetCommandFromRaft (default_ops senv) env now m s = Inr t \<and> default_view (m_engine t) (Key op) = Some old"
proof -
  let ?E = "default_ops senv"
  have ok: "default_ok senv (m_engine s)" "chan_ok s" "raft_wf (m_raftNode s)" using assms(2) by (auto simp: server_wf_def)
  let ?s0 = "s\<lparr>channels := (channels s)(c \<mapsto> q)\<rparr>"
  have pop: "timeOutPop c s = Inr (?s0, Some gop)" using assms(4) by (simp add: timeOutPop_def)
  obtain e where e: "engine_get ?E (Key gop) ?s0 = Inr (?s0\<lparr>m_engine := e\<rparr>, default_view (m_engine s) (Key gop))"
    "default_ok senv e" "default_view e = default_view (m_engine s)"
    using default_engine.engine_get_ok [of senv ?s0 "Key gop"] ok(1) by auto
  have ne: "\<not> isKeyExpired now ?s0 (Key gop)" using assms(10) by (simp add: isKeyExpired_def)
  let ?sg = "?s0\<lparr>m_engine := e, m_lastRequestId := smap_put (ClientId gop) (RequestId gop) (m_lastRequestId s)\<rparr>"
  let ?s1 = "?sg\<lparr>channels := (channels ?sg)(c := None), waitApplyCh := (waitApplyCh ?sg)(j := None)\<rparr>"
  have fin: "Get_finish ?E now gop j c s = Inr (?s1, FillGetReply (default_view (m_engine s) (Key gop)))"
    using pop ne e(1) assms(3) by (simp add: Get_finish_def ExecuteGetOpOnKVDB_def close_channel_def Let_def)
  have "tables_kept s ?sg" using ok(3) assms(4) by (auto simp: tables_kept_def log_grows_refl dom_def)
  then have "chan_ok ?sg" using chan_ok_kept ok(2) by blast
  then have "chan_ok ?s1" using chan_ok_closed [of ?sg j c] assms(3) by simp
  then have wf1: "server_wf (default_ok senv) ?s1" using ok(3) e(2) by (simp add: server_wf_def)
  obtain s2 where s2: "GetCommandFromRaft ?E env now m ?s1 = Inr s2"
    using default_engine.get_command_total [OF wf1 assms(12)] by blast
  have "kv_abs default_view s2 = kv_exec now op (kv_abs default_view ?s1)"
    using default_engine.get_command_ok [OF _ assms(12) _ s2] e(2) assms(13) by simp
  moreover have "\<not> kv_seen (kv_abs default_view ?s1) op" using assms(5,6) by (simp add: kv_seen_def kv_abs_def)
  moreover have "kv_read now (kv_abs default_view ?s1) (Key op) = Some old"
    using assms(9,11) e(3) by (simp add: kv_read_def kv_expired_def isKeyExpired_def kv_abs_def)
  ultimately have "kv_map (kv_abs default_view s2) (Key op) = Some (old @ Value op)"
    using assms(7) by (simp add: kv_exec_def kv_write_def)
  moreover obtain t where t: "GetCommandFromRaft ?E env now m s = Inr t"
    using default_engine.get_command_total [OF assms(2,12)] by blast
  moreover have "kv_abs default_view t = kv_abs default_view s"
    using default_engine.get_command_ok [OF ok(1) assms(12,13) t] kv_exec_retry [OF assms(8)] by simp
  then have "kv_map (kv_abs default_view t) (Key op) = Some old" using assms(11) by simp
  ultimately show ?thesis using fin s2 t by (intro exI conjI) auto
qed

theorem late_get_breaks_exactly_once_witness:
  "\<exists>s s1 reply s2. Get_finish (default_ops demo_sl_env) 0 (get_op \<lparr>ga_key = ''k'', ga_clientid = ''c'', ga_requestid = 4\<rparr>) 1 0 s = Inr (s1, reply) \<and>
     default_view (m_engine s) ''k'' = Some ''xy'' \<and>
     GetCommandFromRaft (default_ops demo_sl_env) demo_kv_env 0 (command_msg (op_entry demo_env (demo_append ''y'' 5) 1 2)) s1 = Inr s2 \<and>
     default_view (m_engine s2) ''k'' = Some ''xyy''"
proof -
  let ?gop = "get_op \<lparr>ga_key = ''k'', ga_clientid = ''c'', ga_requestid = 4\<rparr>" and ?op = "demo_append ''y'' 5"
  let ?m = "command_msg (op_entry demo_env ?op 1 2)"
  have new: "default_ok demo_sl_env CreateDefaultKVEngine" using default_new(1) [OF demo_sl_ok] .
  obtain e where e: "ePut (default_ops demo_sl_env) CreateDefaultKVEngine ''k'' ''xy'' = (e, None)"
    using default_engine.put_total [OF new] by blast
  have ve: "default_ok demo_sl_env e" "default_view e ''k'' = Some ''xy''" using default_engine.put_law [OF new e] by auto
  let ?s = "(demo_server (demo_leader [] 0 []))\<lparr>m_engine := e, waitApplyCh := [1 \<mapsto> 0], channels := [0 \<mapsto> [?gop]],
    next_channel := 1, m_lastRequestId := [(''c'', 5)]\<rparr>"
  have wf: "server_wf (default_ok demo_sl_env) ?s"
    using ve(1) by (auto simp: server_wf_def chan_ok_def demo_leader_wf inj_on_def dom_def split: if_splits)
  have p: "parseFromString (kv_raft demo_kv_env) (Command ?m) = Inr ?op"
    using kv_archive_okD(3) [OF demo_kv_ok] by (simp add: command_msg_def op_entry_def)
  have "\<exists>s1 reply s2 t. Get_finish (default_ops demo_sl_env) 0 ?gop 1 0 ?s = Inr (s1, reply) \<and>
    GetCommandFromRaft (default_ops demo_sl_env) demo_kv_env 0 ?m s1 = Inr s2 \<and>
    default_view (m_engine s2) (Key ?op) = Some (''xy'' @ Value ?op) \<and>
    GetCommandFromRaft (default_ops demo_sl_env) demo_kv_env 0 ?m ?s = Inr t \<and> default_view (m_engine t) (Key ?op) = Some ''xy''"
    by (rule late_get_breaks_exactly_once [OF demo_kv_ok wf, where c = 0 and q = "[]"])
      (use p ve(2) in \<open>simp_all add: demo_ops get_op_def isKeyExpired_def demo_server_def command_msg_def op_entry_def\<close>)
  moreover have "Key ?op = ''k''" "''xy'' @ Value ?op = ''xyy''" by (simp_all add: demo_ops)
  ultimately obtain s1 reply s2 where "Get_finish (default_ops demo_sl_env) 0 ?gop 1 0 ?s = Inr (s1, reply)"
    "GetCommandFromRaft (default_ops demo_sl_env) demo_kv_env 0 ?m s1 = Inr s2" "default_view (m_engine s2) ''k'' = Some ''xyy''"
    by metis
  moreover have "default_view (m_engine ?s) ''k'' = Some ''xy''" using ve(2) by simp
  ultimately show ?thesis by blast
qed



text \<open>
  An append looks at the clock when it is applied.  Replicas that apply it on different sides of the key's
  expiry time disagree about the key from then on.
\<close>

theorem replicas_diverge_on_expiry:
  assumes "server_wf (default_ok senv) s" "kv_archive_ok env"
    "applyChan (m_raftNode s) = op_messages env [(op, trm, i)] @ rest" "m_lastSnapShotRaftLogIndex s < i"
    "Operation op = ''Append''" "\<not> ifRequestDuplicate (ClientId op) (RequestId op) s"
    "map_of (m_expireMap s) (Key op) = Some x" "now \<le> x" "x < now'" "default_view (m_engine s) (Key op) = Some old"
  shows "\<exists>s1 s2. ReadRaftApplyCommandLoop_turn (default_ops senv) env now s = Inr s1 \<and>
    ReadRaftApplyCommandLoop_turn (default_ops senv) env now' s = Inr s2 \<and>
    default_view (m_engine s1) (Key op) = Some (old @ Value op) \<and> default_view (m_engine s2) (Key op) = Some (Value op)"
proof -
  let ?m = "command_msg (op_entry (kv_raft env) op trm i)" and ?E = "default_ops senv"
  have ok: "default_ok senv (m_engine s)" using assms(1) by (simp add: server_wf_def)
  have m: "applyChan (m_raftNode s) = ?m # rest" "CommandValid ?m" "\<not> SnapshotValid ?m"
    "parseFromString (kv_raft env) (Command ?m) = Inr op" "m_lastSnapShotRaftLogIndex s < CommandIndex ?m"
    using assms(3,4) kv_archive_okD(3) [OF assms(2)] by (simp_all add: command_msg_def op_entry_def ApplyMsg_new_def)
  obtain s1 s2 where run: "ReadRaftApplyCommandLoop_turn ?E env now s = Inr s1" "ReadRaftApplyCommandLoop_turn ?E env now' s = Inr s2"
    using default_engine.turn_total [OF assms(1) m(1-4)] by metis
  have new: "\<not> kv_seen (kv_abs default_view s) op" using assms(6) by (simp add: duplicate_abs [of _ _ default_view])
  have read: "kv_read now (kv_abs default_view s) (Key op) = Some old" "kv_read now' (kv_abs default_view s) (Key op) = None"
    using assms(7-10) by (auto simp: kv_read_def kv_expired_def)
  have abs: "kv_abs default_view s1 = kv_exec now op (kv_abs default_view s)" "kv_abs default_view s2 = kv_exec now' op (kv_abs default_view s)"
    using default_engine.turn_ok [OF ok m run(1)] default_engine.turn_ok [OF ok m run(2)] by auto
  have "kv_map (kv_abs default_view s1) (Key op) = Some (old @ Value op)" "kv_map (kv_abs default_view s2) (Key op) = Some (Value op)"
    unfolding abs using new read assms(5) by (simp_all add: kv_exec_def kv_write_def)
  then show ?thesis using run by (intro exI [of _ s1] exI [of _ s2]) simp
qed

theorem replicas_diverge_on_expiry_witness:
  "\<exists>e s1 s2. default_view e ''k'' = Some ''x'' \<and>
     ReadRaftApplyCommandLoop_turn (default_ops demo_sl_env) demo_kv_env 10
       ((demo_server (demo_leader [] 0 (op_messages demo_kv_env [(demo_append ''y'' 2, 1, 1)])))\<lparr>m_engine := e, m_expireMap := [(''k'', 10)]\<rparr>) = Inr s1 \<and>
     ReadRaftApplyCommandLoop_turn (default_ops demo_sl_env) demo_kv_env 11
       ((demo_server (demo_leader [] 0 (op_messages demo_kv_env [(demo_append ''y'' 2, 1, 1)])))\<lparr>m_engine := e, m_expireMap := [(''k'', 10)]\<rparr>) = Inr s2 \<and>
     default_view (m_engine s1) ''k'' = Some ''xy'' \<and> default_view (m_engine s2) ''k'' = Some ''y''"
proof -
  have new: "default_ok demo_sl_env CreateDefaultKVEngine" using default_new(1) [OF demo_sl_ok] .
  obtain e where e: "ePut (default_ops demo_sl_env) CreateDefaultKVEngine ''k'' ''x'' = (e, None)"
    using default_engine.put_total [OF new] by blast
  have ve: "default_ok demo_sl_env e" "default_view e ''k'' = Some ''x''" using default_engine.put_law [OF new e] by auto
  let ?op = "demo_append ''y'' 2"
  let ?s = "(demo_server (demo_leader [] 0 (op_messages demo_kv_env [(?op, 1, 1)])))\<lparr>m_engine := e, m_expireMap := [(''k'', 10)]\<rparr>"
  have wf: "server_wf (default_ok demo_sl_env) ?s" using ve(1) by (simp add: server_wf_def chan_ok_def demo_leader_wf)
  have op: "Key ?op = ''k''" "Value ?op = ''y''" by (simp_all add: demo_ops)
  have "\<exists>s1 s2. ReadRaftApplyCommandLoop_turn (default_ops demo_sl_env) demo_kv_env 10 ?s = Inr s1 \<and>
    ReadRaftApplyCommandLoop_turn (default_ops demo_sl_env) demo_kv_env 11 ?s = Inr s2 \<and>
    default_view (m_engine s1) (Key ?op) = Some (''x'' @ Value ?op) \<and> default_view (m_engine s2) (Key ?op) = Some (Value ?op)"
    by (rule replicas_diverge_on_expiry [OF wf demo_kv_ok, where trm = 1 and i = 1 and rest = "[]" and x = 10])
      (use ve(2) in \<open>simp_all add: demo_ops ifRequestDuplicate_def demo_server_def\<close>)
  then show ?thesis unfolding op using ve(2) by (intro exI [of _ e]) simp
qed

end
