(* ===== verification/Lsm_Restart.thy ===== *)
theory Lsm_Restart
  imports Lsm_Recovery
begin

text \<open>
  Restarts of the log-structured engine that has a write-ahead log and a manifest.  The table files and the manifest
  can be read back; the log names every key of every layer; so an engine started on the files has the contents of
  the one that wrote them, whatever was flushed and compacted in between.  What stands in the way are the moments at
  which a file has been removed or emptied and its successor is not written: the last section shows them.
\<close>

section \<open>Table files\<close>

definition value_fits :: "string \<times> Entry \<Rightarrow> bool" where
  "value_fits item \<longleftrightarrow> length (fst item) < 2 ^ 64 \<and> length (entry_value (snd item)) < 2 ^ 64"

definition table_fits :: "memtable \<Rightarrow> bool" where
  "table_fits es \<longleftrightarrow> smap_wf es \<and> length es < 2 ^ 64 \<and> (\<forall>item \<in> set es. value_fits item)"

definition entry_bytes :: "string \<times> Entry \<Rightarrow> string" where
  "entry_bytes item = [type_byte (entry_type (snd item))] @ uint64_bytes (word_of_nat (length (fst item))) @
     uint64_bytes (word_of_nat (length (entry_value (snd item)))) @ fst item @ entry_value (snd item)"

lemma table_bytes_eq: "table_bytes es = uint64_bytes (word_of_nat (length es)) @ concat (map entry_bytes es)"
proof -
  have "entry_bytes = (\<lambda>item. [type_byte (entry_type (snd item))] @
      WriteUint64ToStream (word_of_nat (length (fst item))) @
      WriteUint64ToStream (word_of_nat (length (entry_value (snd item)))) @ fst item @ entry_value (snd item))"
    by (simp add: entry_bytes_def WriteUint64ToStream_eq fun_eq_iff)
  then show ?thesis by (simp add: table_bytes_def WriteUint64ToStream_eq)
qed

definition put_entries :: "memtable \<Rightarrow> memtable \<Rightarrow> memtable" where
  "put_entries es m = foldl (\<lambda>m item. smap_put (fst item) (snd item) m) m es"

lemma read_table_entries_bytes:
  "\<forall>item \<in> set es. value_fits item \<Longrightarrow>
   read_table_entries (length es) (concat (map entry_bytes es)) m = Inr (put_entries es m)"
proof (induction es arbitrary: m)
  case (Cons item es)
  obtain k e where item: "item = (k, e)" by (cases item)
  have e: "\<lparr>entry_type = entry_type e, entry_value = entry_value e\<rparr> = e" by simp
  show ?case
    using Cons by (simp add: item entry_bytes_def value_fits_def put_entries_def e)
qed (simp add: put_entries_def)

lemma put_entries_wf: "smap_wf m \<Longrightarrow> smap_wf (put_entries es m)"
  by (induction es arbitrary: m) (auto simp: put_entries_def smap_wf_put)

lemma put_entries_map: "distinct (map fst es) \<Longrightarrow> map_of (put_entries es m) = map_of m ++ map_of es"
proof (induction es arbitrary: m)
  case (Cons item es)
  then have "map_of (put_entries es (smap_put (fst item) (snd item) m)) =
      (map_of m)(fst item \<mapsto> snd item) ++ map_of es" by simp
  moreover have "map_of es (fst item) = None" using Cons.prems by (simp add: map_of_eq_None_iff)
  ultimately show ?case by (cases item) (auto simp: put_entries_def map_add_def fun_eq_iff split: option.split)
qed (simp add: put_entries_def)

lemma put_entries_self: "smap_wf es \<Longrightarrow> put_entries es [] = es"
  by (rule smap_eqI) (simp_all add: put_entries_wf put_entries_map smap_wf_distinct)

lemma LoadSSTable_bytes:
  assumes "table_fits es" "d path = Some (table_bytes es)"
  shows "LoadSSTable env d seq path = Inr (RebuildSSTableMetadata (str_hash env) (new_table seq path es))"
  using assms read_table_entries_bytes [of es "[]"] put_entries_self [of es]
  by (simp add: LoadSSTable_def table_bytes_eq table_fits_def)

section \<open>The manifest\<close>

definition table_path :: "string \<Rightarrow> u64 \<Rightarrow> string" where
  "table_path man seq = man @ ''.sst.'' @ dec_string (unat seq)"

lemma SSTablePath_eq: "m_manifestPath s \<noteq> [] \<Longrightarrow> SSTablePath s seq = table_path (m_manifestPath s) seq"
  by (simp add: SSTablePath_def table_path_def)

lemma table_path_simps [simp]:
  "table_path man a = table_path man b \<longleftrightarrow> a = b" "table_path man a \<noteq> man" "man \<noteq> table_path man a"
  "table_path man a \<noteq> []" "[] \<noteq> table_path man a"
  by (auto simp: table_path_def word_unat_eq_iff)

lemma u64_less: "unat (w :: u64) < 2 ^ 64"
  by (rule order_less_le_trans [OF unsigned_less]) simp

lemma table_path_length: "length man < 2 ^ 63 \<Longrightarrow> length (table_path man seq) < 2 ^ 64"
proof -
  have "length (dec_string (unat seq)) \<le> 20" using u64_less [of seq] dec_string_length [of "unat seq" 19] by simp
  then show "length man < 2 ^ 63 \<Longrightarrow> length (table_path man seq) < 2 ^ 64" by (simp add: table_path_def)
qed

text \<open>What the files hold of one table, and of all.\<close>

definition table_stored :: "string \<Rightarrow> disk \<Rightarrow> SSTable \<Rightarrow> bool" where
  "table_stored man d t \<longleftrightarrow> filePath t = table_path man (sequence t) \<and>
     d (table_path man (sequence t)) = Some (table_bytes (entries t)) \<and> table_fits (entries t) \<and>
     length (minKey t) < 2 ^ 64 \<and> length (maxKey t) < 2 ^ 64 \<and> (entries t = [] \<longrightarrow> minKey t = [] \<and> maxKey t = [])"

definition stored :: "lsm \<Rightarrow> bool" where
  "stored s \<longleftrightarrow> (\<forall>t \<in> set (m_sstables s). table_stored (m_manifestPath s) (lsm_disk s) t \<and>
       sequence t \<le> m_nextSSTableSequence s) \<and>
     length (m_sstables s) \<le> unat (m_nextSSTableSequence s) \<and>
     (lsm_disk s (m_manifestPath s) = Some (manifest_bytes s) \<or>
      m_sstables s = [] \<and> m_nextSSTableSequence s = 0 \<and> lsm_disk s (m_manifestPath s) = None)"

definition manifest_entry :: "SSTable \<Rightarrow> string" where
  "manifest_entry t = uint64_bytes (sequence t) @ WriteStreamString (filePath t) @
     WriteStreamString (minKey t) @ WriteStreamString (maxKey t)"

lemma manifest_bytes_eq:
  "manifest_bytes s = uint64_bytes (m_nextSSTableSequence s) @
     uint64_bytes (word_of_nat (length (m_sstables s))) @ concat (map manifest_entry (m_sstables s))"
proof -
  have "manifest_entry = (\<lambda>t. WriteUint64ToStream (sequence t) @ WriteStreamString (filePath t) @
      WriteStreamString (minKey t) @ WriteStreamString (maxKey t))"
    by (simp add: manifest_entry_def WriteUint64ToStream_eq fun_eq_iff)
  then show ?thesis by (simp add: manifest_bytes_def WriteUint64ToStream_eq)
qed

definition reload :: "lsm_env \<Rightarrow> SSTable \<Rightarrow> SSTable" where
  "reload env t = RebuildSSTableMetadata (str_hash env) (new_table (sequence t) (filePath t) (entries t))"

lemma reload_simps [simp]:
  "entries (reload env t) = entries t" "sequence (reload env t) = sequence t" "filePath (reload env t) = filePath t"
  by (simp_all add: reload_def new_table_def)

lemma read_manifest_tables_entries:
  assumes "\<forall>t \<in> set ts. table_stored man (lsm_disk s) t" "length man < 2 ^ 63"
  shows "read_manifest_tables env (length ts) (concat (map manifest_entry ts)) s =
    (s\<lparr>m_sstables := m_sstables s @ map (reload env) ts\<rparr>, None)"
  using assms(1)
proof (induction ts arbitrary: s)
  case (Cons t ts)
  have t: "table_stored man (lsm_disk s) t" using Cons.prems by simp
  then have "length (filePath t) < 2 ^ 64" using table_path_length [OF assms(2)] by (simp add: table_stored_def)
  moreover have "LoadSSTable env (lsm_disk s) (sequence t) (filePath t) = Inr (reload env t)"
    using t unfolding table_stored_def reload_def by (intro LoadSSTable_bytes) auto
  ultimately have "read_manifest_tables env (length (t # ts)) (concat (map manifest_entry (t # ts))) s =
      read_manifest_tables env (length ts) (concat (map manifest_entry ts)) (s\<lparr>m_sstables := m_sstables s @ [reload env t]\<rparr>)"
    using t by (simp add: manifest_entry_def table_stored_def)
  then show ?case using Cons.IH [of "s\<lparr>m_sstables := m_sstables s @ [reload env t]\<rparr>"] Cons.prems by simp
qed simp

section \<open>Flushing and compacting keep the files in step\<close>

text \<open>A file system on which every write succeeds, and paths that do not collide.\<close>

definition writable :: "lsm_env \<Rightarrow> bool" where
  "writable env \<longleftrightarrow> (\<forall>p. can_open env p \<and> short_write env p = None)"

definition paths_ok :: "string \<Rightarrow> string \<Rightarrow> bool" where
  "paths_ok wal man \<longleftrightarrow> wal \<noteq> [] \<and> man \<noteq> [] \<and> wal \<noteq> man \<and> length man < 2 ^ 63 \<and> (\<forall>seq. wal \<noteq> table_path man seq)"

lemma writable_put [simp]: "writable env \<Longrightarrow> write_trunc env p b d = (d(p \<mapsto> b), Written)"
  "writable env \<Longrightarrow> write_app env p b d = (d(p \<mapsto> (case d p of None \<Rightarrow> [] | Some old \<Rightarrow> old) @ b), Written)"
  by (simp_all add: writable_def write_trunc_def write_app_def put_file_def)

text \<open>What flushing and compacting leave alone.\<close>

definition same_setup :: "lsm \<Rightarrow> lsm \<Rightarrow> bool" where
  "same_setup s s' \<longleftrightarrow> m_walPath s' = m_walPath s \<and> m_manifestPath s' = m_manifestPath s \<and>
     m_asyncFlushEnabled s' = m_asyncFlushEnabled s \<and> lsm_disk s' (m_walPath s) = lsm_disk s (m_walPath s)"

lemma same_setup_simps [simp]: "same_setup s s"
  and same_setup_trans: "same_setup s t \<Longrightarrow> same_setup t u \<Longrightarrow> same_setup s u"
  by (auto simp: same_setup_def)

definition fresh_table :: "lsm_env \<Rightarrow> lsm \<Rightarrow> memtable \<Rightarrow> SSTable" where
  "fresh_table env s es = RebuildSSTableMetadata (str_hash env)
     (new_table (m_nextSSTableSequence s + 1) (table_path (m_manifestPath s) (m_nextSSTableSequence s + 1)) es)"

lemma AddBloomKey_filePath: "AddBloomKey h k (t\<lparr>filePath := p\<rparr>) = (AddBloomKey h k t)\<lparr>filePath := p\<rparr>"
  by (cases t) (simp add: AddBloomKey_def Let_def)

lemma Rebuild_filePath:
  "(RebuildSSTableMetadata h (new_table seq [] es))\<lparr>filePath := p\<rparr> = RebuildSSTableMetadata h (new_table seq p es)"
proof -
  let ?add = "foldl (\<lambda>t item. AddBloomKey h (fst item) t)"
  have fold: "?add (t\<lparr>filePath := p\<rparr>) xs = (?add t xs)\<lparr>filePath := p\<rparr>" for t and xs :: memtable
    by (induction xs arbitrary: t) (simp_all add: AddBloomKey_filePath)
  let ?u = "\<lambda>q. \<lparr>sequence = seq, minKey = fst (hd es), maxKey = fst (last es), filePath = q, bloomBits = [],
    blocks = [], entries = es\<rparr>"
  have "?add (?u p) es = (?add (?u []) es)\<lparr>filePath := p\<rparr>" using fold [of "?u []" es] by simp
  moreover have "t\<lparr>filePath := p\<rparr>\<lparr>blocks := b\<rparr> = t\<lparr>blocks := b\<rparr>\<lparr>filePath := p\<rparr>" for t b
    by (cases t) simp
  ultimately show ?thesis
    by (simp add: RebuildSSTableMetadata_def Let_def new_table_def del: SSTable.update_convs) (auto simp: SSTable.defs)
qed

lemma fresh_table_stored:
  assumes "table_fits es" "d (table_path (m_manifestPath s) (m_nextSSTableSequence s + 1)) = Some (table_bytes es)"
  shows "table_stored (m_manifestPath s) d (fresh_table env s es)"
proof -
  have "table_ok (str_hash env) (fresh_table env s es)"
    using assms(1) unfolding fresh_table_def by (intro Rebuild_ok) (simp add: new_table_def table_fits_def)
  moreover have "entries (fresh_table env s es) = es" by (simp add: fresh_table_def new_table_def)
  ultimately have "length (minKey (fresh_table env s es)) < 2 ^ 64 \<and> length (maxKey (fresh_table env s es)) < 2 ^ 64 \<and>
      (es = [] \<longrightarrow> minKey (fresh_table env s es) = [] \<and> maxKey (fresh_table env s es) = [])"
  proof (cases "es = []")
    case True
    then show ?thesis by (simp add: fresh_table_def RebuildSSTableMetadata_def new_table_def Let_def)
  next
    case False
    then have "value_fits (hd es)" "value_fits (last es)" using assms(1) by (auto simp: table_fits_def)
    then show ?thesis
      using False \<open>table_ok (str_hash env) (fresh_table env s es)\<close> \<open>entries (fresh_table env s es) = es\<close>
      by (simp add: table_ok_def value_fits_def)
  qed
  then show ?thesis using assms by (simp add: table_stored_def fresh_table_def new_table_def)
qed

lemma succ_word: "unat (w :: u64) + 1 < 2 ^ 64 \<Longrightarrow> unat (w + 1) = unat w + 1"
  by (simp add: unat_word_ariths)

lemma flush_one_stored:
  assumes "writable env" "stored s" "paths_ok (m_walPath s) (m_manifestPath s)" "table_fits es"
    "unat (m_nextSSTableSequence s) + 1 < 2 ^ 64"
  obtains s' where "flush_one env es rest s = (s', None)" "stored s'" "same_setup s s'"
    "unat (m_nextSSTableSequence s') = unat (m_nextSSTableSequence s) + 1"
    "m_sstables s' = m_sstables s @ [fresh_table env s es]"
proof -
  let ?n = "m_nextSSTableSequence s + 1" and ?t = "fresh_table env s es" and ?man = "m_manifestPath s"
  let ?d = "(lsm_disk s)(table_path ?man ?n \<mapsto> table_bytes es)"
  let ?s = "s\<lparr>m_immutableMemTables := rest, m_nextSSTableSequence := ?n, lsm_disk := ?d, m_sstables := m_sstables s @ [?t]\<rparr>"
  define s' where "s' = ?s\<lparr>lsm_disk := ?d(?man \<mapsto> manifest_bytes ?s)\<rparr>"
  have man: "?man \<noteq> []" using assms(3) by (simp add: paths_ok_def)
  have run: "flush_one env es rest s = (s', None)"
    using assms(1) man by (simp add: flush_one_def Let_def PersistSSTableLocked_def RewriteManifestLocked_def
        SSTablePath_eq Rebuild_filePath fresh_table_def [symmetric] new_table_def [symmetric] s'_def)
      (simp add: fresh_table_def new_table_def)
  have n: "unat ?n = unat (m_nextSSTableSequence s) + 1" using assms(5) by (rule succ_word)
  have old: "table_stored ?man (?d(?man \<mapsto> b)) t \<and> sequence t \<le> ?n" if "t \<in> set (m_sstables s)" for t b
  proof -
    have t: "table_stored ?man (lsm_disk s) t" "sequence t \<le> m_nextSSTableSequence s"
      using assms(2) that by (auto simp: stored_def)
    then have "unat (sequence t) < unat ?n" using n by (simp add: word_le_nat_alt)
    then have "sequence t \<noteq> ?n" "sequence t \<le> ?n" by (auto simp: word_le_nat_alt)
    then show ?thesis using t(1) by (simp add: table_stored_def)
  qed
  have new: "table_stored ?man (?d(?man \<mapsto> b)) ?t" for b
    using fresh_table_stored [OF assms(4), of ?d s env]
    by (simp add: table_stored_def fresh_table_def new_table_def)
  have "manifest_bytes s' = manifest_bytes ?s" by (simp add: s'_def manifest_bytes_def)
  moreover have "sequence ?t = ?n" by (simp add: fresh_table_def new_table_def)
  ultimately have "stored s'"
    using old new assms(2) n unfolding stored_def by (auto simp: s'_def)
  moreover have "same_setup s s'" using assms(3) by (simp add: same_setup_def s'_def paths_ok_def)
  ultimately show ?thesis using that run n by (simp add: s'_def)
qed

section \<open>The invariant\<close>

text \<open>Every entry of every layer belongs to a key of the log; so no layer is longer than the log.\<close>

definition inside :: "WALRecord list \<Rightarrow> lsm \<Rightarrow> bool" where
  "inside rs s \<longleftrightarrow> (\<forall>m \<in> set (layers s). \<forall>item \<in> set m. fst item \<in> rec_key ` set rs \<and> value_fits item)"

definition durable :: "lsm_env \<Rightarrow> WALRecord list \<Rightarrow> lsm \<Rightarrow> bool" where
  "durable env rs s \<longleftrightarrow> lsm_ok env s \<and> stored s \<and> inside rs s \<and> paths_ok (m_walPath s) (m_manifestPath s) \<and>
     (\<forall>r \<in> set rs. rec_fits r) \<and>
     (lsm_disk s (m_walPath s) = Some (wal_text rs) \<or> rs = [] \<and> lsm_disk s (m_walPath s) = None)"

text \<open>The number of the last table once every waiting mem table is written.\<close>

definition tables_due :: "lsm \<Rightarrow> nat" where
  "tables_due s = unat (m_nextSSTableSequence s) + length (m_immutableMemTables s)"

lemma tables_due_frame [simp]:
  "tables_due (s\<lparr>m_memTable := m\<rparr>) = tables_due s" "tables_due (s\<lparr>lsm_disk := d\<rparr>) = tables_due s"
  by (simp_all add: tables_due_def)

lemma layer_fits:
  assumes "lsm_ok env s" "inside rs s" "length rs < 2 ^ 64" "m \<in> set (layers s)"
  shows "table_fits m"
proof -
  have wf: "smap_wf m" using assms(1,4) by (simp add: lsm_ok_def)
  have "fst ` set m \<subseteq> rec_key ` set rs" using assms(2,4) by (auto simp: inside_def)
  then have "card (fst ` set m) \<le> length rs"
    by (meson card_image_le card_length card_mono finite_imageI finite_set le_trans)
  then have "length m \<le> length rs"
    using smap_wf_distinct [OF wf] by (metis distinct_card length_map list.set_map)
  then show ?thesis using wf assms(2,3,4) by (auto simp: table_fits_def inside_def)
qed

lemma stored_cong:
  "m_sstables s' = m_sstables s \<Longrightarrow> m_nextSSTableSequence s' = m_nextSSTableSequence s \<Longrightarrow>
   m_manifestPath s' = m_manifestPath s \<Longrightarrow> lsm_disk s' = lsm_disk s \<Longrightarrow> stored s' = stored s"
  by (simp add: stored_def manifest_bytes_def)

text \<open>A file that is neither the manifest nor a table's does not matter.\<close>

lemma stored_other_file:
  assumes "stored s" "p \<noteq> m_manifestPath s" "\<And>seq. p \<noteq> table_path (m_manifestPath s) seq"
  shows "stored (s\<lparr>lsm_disk := (lsm_disk s)(p := b)\<rparr>)"
proof -
  have "manifest_bytes (s\<lparr>lsm_disk := (lsm_disk s)(p := b)\<rparr>) = manifest_bytes s" by (simp add: manifest_bytes_def)
  then show ?thesis using assms assms(3) [symmetric] by (auto simp: stored_def table_stored_def)
qed

lemma flush_loop_durable:
  "writable env \<Longrightarrow> durable env rs s \<Longrightarrow> length rs < 2 ^ 64 \<Longrightarrow> m_immutableMemTables s = ms \<Longrightarrow> tables_due s < 2 ^ 64 \<Longrightarrow>
   \<exists>s'. flush_loop env ms s = (s', None) \<and> durable env rs s' \<and> same_setup s s' \<and> tables_due s' = tables_due s"
proof (induction ms arbitrary: s)
  case (Cons es rest)
  have s: "lsm_ok env s" "stored s" "inside rs s" "paths_ok (m_walPath s) (m_manifestPath s)"
    using Cons.prems(2) by (auto simp: durable_def)
  have "es \<in> set (layers s)" using Cons.prems(4) by (simp add: layers_def)
  then have fits: "table_fits es" using layer_fits [OF s(1,3) Cons.prems(3)] by blast
  have lt: "unat (m_nextSSTableSequence s) + 1 < 2 ^ 64" using Cons.prems(4,5) by (simp add: tables_due_def)
  obtain t where one: "flush_one env es rest s = (t, None)" "stored t" "same_setup s t"
    "unat (m_nextSSTableSequence t) = unat (m_nextSSTableSequence s) + 1"
    using flush_one_stored [OF Cons.prems(1) s(2,4) fits lt, of rest] by blast
  note l = flush_one_layers [OF Cons.prems(4) one(1) s(1)]
  have d: "durable env rs t" using Cons.prems(2) l one(2,3) by (simp add: durable_def inside_def same_setup_def)
  have due: "tables_due t = tables_due s" using l one(4) Cons.prems(4) by (simp add: tables_due_def)
  have lt': "tables_due t < 2 ^ 64" using due Cons.prems(5) by simp
  obtain s' where "flush_loop env rest t = (s', None)" "durable env rs s'" "same_setup t s'" "tables_due s' = tables_due t"
    using Cons.IH [OF Cons.prems(1) d Cons.prems(3) _ lt'] l by blast
  then show ?case using one(1) due same_setup_trans [OF one(3)] by auto
qed simp

lemma rotate_durable:
  assumes "durable env rs s"
  shows "durable env rs (RotateMemTableToImmutableLocked s) \<and> lsm_view (RotateMemTableToImmutableLocked s) = lsm_view s \<and>
    same_setup s (RotateMemTableToImmutableLocked s) \<and> tables_due (RotateMemTableToImmutableLocked s) \<le> tables_due s + 1"
proof -
  let ?r = "RotateMemTableToImmutableLocked s"
  have "lsm_ok env s" using assms by (simp add: durable_def)
  note r = Rotate_ok [OF this]
  have "stored ?r"
    using assms stored_cong [of ?r s] by (simp add: durable_def RotateMemTableToImmutableLocked_def)
  moreover have "inside rs ?r"
    using assms by (auto simp: durable_def inside_def layers_def RotateMemTableToImmutableLocked_def)
  moreover have "same_setup s ?r" by (simp add: same_setup_def RotateMemTableToImmutableLocked_def)
  moreover have "lsm_disk ?r = lsm_disk s" by (simp add: RotateMemTableToImmutableLocked_def)
  ultimately show ?thesis
    using assms r by (simp add: durable_def same_setup_def tables_due_def) (simp add: RotateMemTableToImmutableLocked_def)
qed

lemma flush_durable:
  assumes "writable env" "durable env rs s" "length rs < 2 ^ 64" "tables_due s + 1 < 2 ^ 64"
  shows "\<exists>s'. FlushMemTableLocked env s = (s', None) \<and> durable env rs s' \<and> lsm_view s' = lsm_view s \<and> same_setup s s' \<and>
    tables_due s' \<le> tables_due s + 1"
proof -
  let ?r = "RotateMemTableToImmutableLocked s"
  note r = rotate_durable [OF assms(2)]
  have d: "durable env rs ?r" and lt: "tables_due ?r < 2 ^ 64" using r assms(4) by auto
  obtain s' where s': "flush_loop env (m_immutableMemTables ?r) ?r = (s', None)" "durable env rs s'" "same_setup ?r s'"
    "tables_due s' = tables_due ?r"
    using flush_loop_durable [OF assms(1) d assms(3) refl lt] by blast
  then have run: "FlushMemTableLocked env s = (s', None)"
    by (simp add: FlushMemTableLocked_def FlushImmutableMemTablesLocked_def)
  have "lsm_ok env s" using assms(2) by (simp add: durable_def)
  then have "lsm_view s' = lsm_view s" using FlushMemTable_ok [OF run] by blast
  then show ?thesis using run s' r same_setup_trans by metis
qed

lemma notify_durable [simp]: "durable env rs (NotifyBackgroundWorker s) = durable env rs s"
  "tables_due (NotifyBackgroundWorker s) = tables_due s" "same_setup s' (NotifyBackgroundWorker s) = same_setup s' s"
  using stored_cong [of "NotifyBackgroundWorker s" s]
  by (simp_all add: durable_def inside_def tables_due_def same_setup_def) (simp_all add: NotifyBackgroundWorker_def)

lemma flush_if_needed_durable:
  assumes "writable env" "durable env rs s" "length rs < 2 ^ 64" "tables_due s + 1 < 2 ^ 64"
  shows "\<exists>s'. FlushMemTableIfNeededLocked env s = (s', None) \<and> durable env rs s' \<and> lsm_view s' = lsm_view s \<and> same_setup s s' \<and>
    tables_due s' \<le> tables_due s + 1"
  using flush_durable [OF assms] rotate_durable [OF assms(2)] assms(2)
  by (auto simp: FlushMemTableIfNeededLocked_def)

text \<open>A record of the log that goes into the mem table.\<close>

lemma insert_durable:
  assumes "durable env rs s" "r \<in> set rs"
  shows "durable env rs (s\<lparr>m_memTable := smap_put (rec_key r) \<lparr>entry_type = rec_type r, entry_value = rec_value r\<rparr> (m_memTable s)\<rparr>)"
    (is "durable env rs ?s")
proof -
  have fits: "rec_fits r" using assms by (auto simp: durable_def)
  have "set (smap_put (rec_key r) e m) \<subseteq> insert (rec_key r, e) (set m)" for e and m :: memtable
    by (induction "rec_key r" e m rule: smap_put.induct) auto
  then have "inside rs ?s"
    using assms fits by (fastforce simp: durable_def inside_def layers_def value_fits_def rec_fits_def)
  moreover have "lsm_ok env ?s" using replay_step(1) assms(1) by (auto simp: durable_def)
  moreover have "stored ?s" using stored_cong [of ?s s] assms(1) by (simp add: durable_def)
  ultimately show ?thesis using assms(1) by (simp add: durable_def)
qed

lemma append_durable:
  assumes "writable env" "durable env rs s" "rec_fits r" "r = \<lparr>rec_type = ty, rec_key = k, rec_value = v\<rparr>"
  shows "\<exists>s'. AppendWALLocked env ty k v s = (s', None) \<and> durable env (rs @ [r]) s' \<and> lsm_view s' = lsm_view s \<and>
    m_memTable s' = m_memTable s \<and> tables_due s' = tables_due s \<and>
    m_walPath s' = m_walPath s \<and> m_manifestPath s' = m_manifestPath s"
proof -
  let ?old = "case lsm_disk s (m_walPath s) of None \<Rightarrow> [] | Some old \<Rightarrow> old"
  let ?s = "s\<lparr>lsm_disk := (lsm_disk s)(m_walPath s \<mapsto> ?old @ WriteWALRecord r)\<rparr>"
  have p: "m_walPath s \<noteq> []" "m_walPath s \<noteq> m_manifestPath s" "\<And>seq. m_walPath s \<noteq> table_path (m_manifestPath s) seq"
    using assms(2) by (auto simp: durable_def paths_ok_def)
  have "?old @ WriteWALRecord r = wal_text (rs @ [r])"
    using assms(2) by (auto simp: durable_def wal_text_def)
  moreover have "stored ?s" using stored_other_file [OF _ p(2,3), of "Some (?old @ WriteWALRecord r)"] assms(2)
    by (simp add: durable_def)
  moreover have "inside (rs @ [r]) ?s" using assms(2) by (auto simp: durable_def inside_def)
  ultimately have "durable env (rs @ [r]) ?s" using assms(2,3) by (auto simp: durable_def)
  then show ?thesis using assms(1,4) p(1) by (simp add: AppendWALLocked_def)
qed

text \<open>A record of the log that goes into the mem table and may start a flush.\<close>

lemma record_durable:
  assumes "writable env" "durable env rs s" "r \<in> set rs" "length rs < 2 ^ 64" "tables_due s + 1 < 2 ^ 64"
  shows "\<exists>s'. FlushMemTableIfNeededLocked env
      (s\<lparr>m_memTable := smap_put (rec_key r) \<lparr>entry_type = rec_type r, entry_value = rec_value r\<rparr> (m_memTable s)\<rparr>) = (s', None) \<and>
    durable env rs s' \<and> lsm_view s' = apply_rec (lsm_view s) r \<and> same_setup s s' \<and>
    tables_due s' \<le> tables_due s + 1"
proof -
  let ?s = "s\<lparr>m_memTable := smap_put (rec_key r) \<lparr>entry_type = rec_type r, entry_value = rec_value r\<rparr> (m_memTable s)\<rparr>"
  have "lsm_view ?s = apply_rec (lsm_view s) r" using assms(2) by (intro replay_step(2)) (auto simp: durable_def)
  moreover have "same_setup s ?s" by (simp add: same_setup_def)
  ultimately show ?thesis
    using flush_if_needed_durable [OF assms(1) insert_durable [OF assms(2,3)] assms(4)] assms(5)
    by (auto intro: same_setup_trans)
qed

definition keeps_paths :: "lsm \<Rightarrow> lsm \<Rightarrow> bool" where
  "keeps_paths s s' \<longleftrightarrow> m_walPath s' = m_walPath s \<and> m_manifestPath s' = m_manifestPath s"

lemma update_durable:
  assumes "writable env" "durable env rs s" "rec_fits \<lparr>rec_type = ty, rec_key = k, rec_value = v\<rparr>"
    "length rs + 1 < 2 ^ 64" "tables_due s + 1 < 2 ^ 64"
  shows "\<exists>s'. seqS (AppendWALLocked env ty k v s) (\<lambda>s. FlushMemTableIfNeededLocked env
         (s\<lparr>m_memTable := smap_put k \<lparr>entry_type = ty, entry_value = v\<rparr> (m_memTable s)\<rparr>)) = (s', None) \<and>
    durable env (rs @ [\<lparr>rec_type = ty, rec_key = k, rec_value = v\<rparr>]) s' \<and>
    lsm_view s' = apply_rec (lsm_view s) \<lparr>rec_type = ty, rec_key = k, rec_value = v\<rparr> \<and> keeps_paths s s' \<and>
    tables_due s' \<le> tables_due s + 1"
proof -
  let ?r = "\<lparr>rec_type = ty, rec_key = k, rec_value = v\<rparr>"
  obtain t where t: "AppendWALLocked env ty k v s = (t, None)" "durable env (rs @ [?r]) t" "lsm_view t = lsm_view s"
    "tables_due t = tables_due s" "m_walPath t = m_walPath s" "m_manifestPath t = m_manifestPath s"
    using append_durable [OF assms(1,2,3) refl] by blast
  have len: "length (rs @ [?r]) < 2 ^ 64" using assms(4) by simp
  obtain s' where s': "FlushMemTableIfNeededLocked env
      (t\<lparr>m_memTable := smap_put k \<lparr>entry_type = ty, entry_value = v\<rparr> (m_memTable t)\<rparr>) = (s', None)"
    "durable env (rs @ [?r]) s'" "lsm_view s' = apply_rec (lsm_view t) ?r" "same_setup t s'"
    "tables_due s' \<le> tables_due t + 1"
    using record_durable [OF assms(1) t(2) _ len, of ?r] assms(5) t(4) by auto
  have "keeps_paths s s'" using s'(4) t(5,6) by (simp add: keeps_paths_def same_setup_def)
  then show ?thesis using t(1,3,4) s' by auto
qed

lemma Put_durable:
  assumes "writable env" "durable env rs s" "length k < 2 ^ 64" "length v < 2 ^ 64"
    "length rs + 1 < 2 ^ 64" "tables_due s + 1 < 2 ^ 64"
  shows "\<exists>s'. lsm_Put env s k v = (s', None) \<and> durable env (rs @ [\<lparr>rec_type = Put, rec_key = k, rec_value = v\<rparr>]) s' \<and>
    lsm_view s' = (lsm_view s)(k \<mapsto> v) \<and> keeps_paths s s' \<and>
    tables_due s' \<le> tables_due s + 1"
  using update_durable [OF assms(1,2) _ assms(5,6), of Put k v] assms(3,4) by (simp add: rec_fits_def apply_rec_def lsm_Put_def)

lemma Delete_durable:
  assumes "writable env" "durable env rs s" "length k < 2 ^ 64"
    "length rs + 1 < 2 ^ 64" "tables_due s + 1 < 2 ^ 64"
  shows "\<exists>s'. lsm_Delete env s k = (s', None) \<and> durable env (rs @ [\<lparr>rec_type = Delete, rec_key = k, rec_value = []\<rparr>]) s' \<and>
    lsm_view s' = (lsm_view s)(k := None) \<and> keeps_paths s s' \<and>
    tables_due s' \<le> tables_due s + 1"
  using update_durable [OF assms(1,2) _ assms(4,5), of Delete k "[]"] assms(3) by (simp add: rec_fits_def apply_rec_def lsm_Delete_def)

text \<open>Compaction.\<close>

lemma DeleteSSTableFiles_disk:
  "m_manifestPath s \<noteq> [] \<Longrightarrow> lsm_disk (DeleteSSTableFilesLocked s) p =
     (if p \<noteq> [] \<and> p \<in> filePath ` set (m_sstables s) then None else lsm_disk s p)"
proof -
  have "foldl (\<lambda>d t. if filePath t \<noteq> [] then d(filePath t := None) else d) d ts p =
      (if p \<noteq> [] \<and> p \<in> filePath ` set ts then None else d p)" for d :: disk and ts :: "SSTable list"
    by (induction ts arbitrary: d) auto
  then show "m_manifestPath s \<noteq> [] \<Longrightarrow> ?thesis" by (simp add: DeleteSSTableFilesLocked_def)
qed

lemma find_in_memtables_Some: "find_in_memtables ms k = Some e \<Longrightarrow> \<exists>m \<in> set ms. (k, e) \<in> set m"
  by (induction ms) (auto split: option.splits dest: map_of_SomeD)

lemma live_Some: "live x = Some e \<Longrightarrow> x = Some e"
  by (auto simp: live_def split: option.splits if_splits)

lemma merged_inside:
  assumes "lsm_ok env s" "inside rs s" "item \<in> set (merge_tables (m_sstables s))"
  shows "fst item \<in> rec_key ` set rs \<and> value_fits item"
proof -
  let ?m = "merge_tables (m_sstables s)"
  have wf: "\<forall>t \<in> set (m_sstables s). smap_wf (entries t)" using assms(1) by (auto simp: lsm_ok_def layers_def)
  have dist: "distinct (map fst ?m)" by (rule smap_wf_distinct [OF conjunct1 [OF merge_tables_spec [OF wf]]])
  have "map_of ?m (fst item) = Some (snd item)" by (rule map_of_is_SomeI [OF dist]) (simp add: assms(3))
  then have "live (find_in_memtables (map entries (rev (m_sstables s))) (fst item)) = Some (snd item)"
    by (simp only: conjunct2 [OF merge_tables_spec [OF wf]])
  then have "find_in_memtables (map entries (rev (m_sstables s))) (fst item) = Some (snd item)" by (rule live_Some)
  then obtain m where m: "m \<in> set (map entries (rev (m_sstables s)))" "(fst item, snd item) \<in> set m"
    using find_in_memtables_Some by blast
  have "m \<in> set (layers s)" using m(1) by (simp add: layers_def)
  then show ?thesis using assms(2) m(2) by (simp add: inside_def)
qed

lemma merged_fits:
  assumes "lsm_ok env s" "inside rs s" "length rs < 2 ^ 64"
  shows "table_fits (merge_tables (m_sstables s))"
proof -
  let ?m = "merge_tables (m_sstables s)"
  have "smap_wf ?m" using merge_tables_spec [of "m_sstables s"] assms(1) by (auto simp: lsm_ok_def layers_def)
  then have "table_fits ?m" if "lsm_ok env (s\<lparr>m_memTable := ?m\<rparr>)" "inside rs (s\<lparr>m_memTable := ?m\<rparr>)"
    using layer_fits [OF that assms(3), of ?m] by (simp add: layers_def)
  moreover have "lsm_ok env (s\<lparr>m_memTable := ?m\<rparr>)" using assms(1) \<open>smap_wf ?m\<close> by (auto simp: lsm_ok_def layers_def)
  moreover have "inside rs (s\<lparr>m_memTable := ?m\<rparr>)"
    using assms(2) merged_inside [OF assms(1,2)] by (auto simp: inside_def layers_def)
  ultimately show ?thesis by blast
qed

lemma deleted_wal:
  assumes "stored s" "paths_ok (m_walPath s) (m_manifestPath s)"
  shows "lsm_disk (DeleteSSTableFilesLocked s) (m_walPath s) = lsm_disk s (m_walPath s)"
  using assms DeleteSSTableFiles_disk [of s "m_walPath s"] by (auto simp: paths_ok_def stored_def table_stored_def)

lemma compact_away_stored:
  assumes "writable env" "stored s" "paths_ok (m_walPath s) (m_manifestPath s)"
  obtains s' where "RewriteManifestLocked env ((DeleteSSTableFilesLocked s)\<lparr>m_sstables := []\<rparr>) = (s', None)"
    "stored s'" "same_setup s s'" "m_nextSSTableSequence s' = m_nextSSTableSequence s" "m_sstables s' = []"
    "m_memTable s' = m_memTable s" "m_immutableMemTables s' = m_immutableMemTables s"
proof -
  obtain d where d: "DeleteSSTableFilesLocked s = s\<lparr>lsm_disk := d\<rparr>"
    using DeleteSSTableFiles_only_disk by (rule only_diskE)
  let ?s = "s\<lparr>lsm_disk := d, m_sstables := []\<rparr>"
  define s' where "s' = ?s\<lparr>lsm_disk := d(m_manifestPath s \<mapsto> manifest_bytes ?s)\<rparr>"
  have wal: "d (m_walPath s) = lsm_disk s (m_walPath s)" using deleted_wal [OF assms(2,3)] d by simp
  have "manifest_bytes s' = manifest_bytes ?s" by (simp add: s'_def manifest_bytes_def)
  then have "stored s'" by (simp add: stored_def) (simp add: s'_def)
  moreover have "RewriteManifestLocked env ((DeleteSSTableFilesLocked s)\<lparr>m_sstables := []\<rparr>) = (s', None)"
    using assms(1,3) by (simp add: RewriteManifestLocked_def d s'_def paths_ok_def)
  moreover have "same_setup s s'" using assms(3) wal by (simp add: same_setup_def s'_def paths_ok_def)
  ultimately show ?thesis using that by (simp add: s'_def)
qed

lemma compact_into_stored:
  assumes "writable env" "stored s" "paths_ok (m_walPath s) (m_manifestPath s)" "table_fits es"
    "unat (m_nextSSTableSequence s) + 1 < 2 ^ 64" "length (m_sstables s) > 1" "merge_tables (m_sstables s) = es" "es \<noteq> []"
  obtains s' where "CompactSSTablesLocked env s = (s', None)" "stored s'" "same_setup s s'"
    "unat (m_nextSSTableSequence s') = unat (m_nextSSTableSequence s) + 1" "m_sstables s' = [fresh_table env s es]"
    "m_memTable s' = m_memTable s" "m_immutableMemTables s' = m_immutableMemTables s"
proof -
  let ?n = "m_nextSSTableSequence s + 1" and ?t = "fresh_table env s es" and ?man = "m_manifestPath s"
  let ?s = "s\<lparr>m_nextSSTableSequence := ?n, lsm_disk := (lsm_disk s)(table_path ?man ?n \<mapsto> table_bytes es)\<rparr>"
  obtain d where d: "DeleteSSTableFilesLocked ?s = ?s\<lparr>lsm_disk := d\<rparr>"
    using DeleteSSTableFiles_only_disk by (rule only_diskE)
  let ?u = "?s\<lparr>lsm_disk := d, m_sstables := [?t]\<rparr>"
  define s' where "s' = ?u\<lparr>lsm_disk := d(?man \<mapsto> manifest_bytes ?u)\<rparr>"
  have man: "?man \<noteq> []" using assms(3) by (simp add: paths_ok_def)
  have n: "unat ?n = unat (m_nextSSTableSequence s) + 1" using assms(5) by (rule succ_word)
  have files: "filePath t = table_path ?man (sequence t) \<and> sequence t \<noteq> ?n" if "t \<in> set (m_sstables s)" for t
    using assms(2) that n by (auto simp: stored_def table_stored_def word_le_nat_alt)
  have dp: "d p = (if p \<noteq> [] \<and> p \<in> filePath ` set (m_sstables s) then None else lsm_disk ?s p)" for p
    using DeleteSSTableFiles_disk [of ?s p] man d by simp
  have new: "d (table_path ?man ?n) = Some (table_bytes es)" by (subst dp) (auto dest: files)
  have wal: "d (m_walPath s) = lsm_disk s (m_walPath s)"
    using files assms(3) by (subst dp) (auto simp: paths_ok_def)
  have run: "CompactSSTablesLocked env s = (s', None)"
    using assms(1,6,7,8) man by (simp add: CompactSSTablesLocked_def Let_def PersistSSTableLocked_def RewriteManifestLocked_def
        SSTablePath_eq Rebuild_filePath fresh_table_def [symmetric] new_table_def [symmetric] s'_def d)
      (simp add: fresh_table_def new_table_def d RewriteManifestLocked_def)
  have "table_stored ?man (d(?man \<mapsto> b)) ?t" for b
    using fresh_table_stored [OF assms(4), of d s env] new by (simp add: table_stored_def fresh_table_def new_table_def)
  moreover have "manifest_bytes s' = manifest_bytes ?u" by (simp add: s'_def manifest_bytes_def)
  moreover have "sequence ?t = ?n" by (simp add: fresh_table_def new_table_def)
  ultimately have "stored s'" using n unfolding stored_def by (simp add: s'_def)
  moreover have "same_setup s s'" using assms(3) wal by (simp add: same_setup_def s'_def paths_ok_def)
  ultimately show ?thesis using that run n by (simp add: s'_def)
qed

lemma inside_fewer: "inside rs s \<Longrightarrow> set (layers s') \<subseteq> set (layers s) \<Longrightarrow> inside rs s'"
  by (auto simp: inside_def)

lemma compact_durable:
  assumes "writable env" "durable env rs s" "length rs < 2 ^ 64" "tables_due s + 1 < 2 ^ 64"
  shows "\<exists>s'. CompactSSTablesLocked env s = (s', None) \<and> durable env rs s' \<and> lsm_view s' = lsm_view s \<and> same_setup s s' \<and>
    tables_due s' \<le> tables_due s + 1"
proof -
  let ?es = "merge_tables (m_sstables s)"
  have s: "lsm_ok env s" "stored s" "inside rs s" "paths_ok (m_walPath s) (m_manifestPath s)"
    using assms(2) by (auto simp: durable_def)
  have lt: "unat (m_nextSSTableSequence s) + 1 < 2 ^ 64" using assms(4) by (simp add: tables_due_def)
  have fits: "table_fits ?es" using merged_fits [OF s(1,3) assms(3)] .
  have "\<exists>s'. CompactSSTablesLocked env s = (s', None) \<and> stored s' \<and> same_setup s s' \<and> inside rs s' \<and>
      m_immutableMemTables s' = m_immutableMemTables s \<and>
      tables_due s' \<le> tables_due s + 1"
  proof -
    consider (few) "length (m_sstables s) \<le> 1" | (away) "length (m_sstables s) > 1" "?es = []"
      | (into) "length (m_sstables s) > 1" "?es \<noteq> []" by linarith
    then show ?thesis
    proof cases
      case few
      then show ?thesis using s by (simp add: CompactSSTablesLocked_def)
    next
      case away
      obtain s' where s': "RewriteManifestLocked env ((DeleteSSTableFilesLocked s)\<lparr>m_sstables := []\<rparr>) = (s', None)"
        "stored s'" "same_setup s s'" "m_nextSSTableSequence s' = m_nextSSTableSequence s" "m_sstables s' = []"
        "m_memTable s' = m_memTable s" "m_immutableMemTables s' = m_immutableMemTables s"
        using compact_away_stored [OF assms(1) s(2,4)] by blast
      then show ?thesis using away inside_fewer [OF s(3), of s'] by (auto simp: CompactSSTablesLocked_def layers_def tables_due_def)
    next
      case into
      obtain s' where s': "CompactSSTablesLocked env s = (s', None)" "stored s'" "same_setup s s'"
        "unat (m_nextSSTableSequence s') = unat (m_nextSSTableSequence s) + 1" "m_sstables s' = [fresh_table env s ?es]"
        "m_memTable s' = m_memTable s" "m_immutableMemTables s' = m_immutableMemTables s"
        using compact_into_stored [OF assms(1) s(2,4) fits lt into(1) refl into(2)] by blast
      have "entries (fresh_table env s ?es) = ?es" by (simp add: fresh_table_def new_table_def)
      then have "inside rs s'"
        using s(3) s'(5-7) merged_inside [OF s(1,3)] by (auto simp: inside_def layers_def)
      then show ?thesis using s' by (auto simp: tables_due_def)
    qed
  qed
  then show ?thesis using Compact_ok [OF _ s(1)] assms(2) by (fastforce simp: durable_def same_setup_def)
qed

section \<open>Starting again\<close>

lemma replay_durable:
  "writable env \<Longrightarrow> durable env rs s \<Longrightarrow> set rest \<subseteq> set rs \<Longrightarrow> length rs < 2 ^ 64 \<Longrightarrow>
   tables_due s + length rest < 2 ^ 64 \<Longrightarrow>
   \<exists>s'. replay_wal env (wal_text rest) s = (s', None) \<and> durable env rs s' \<and>
     lsm_view s' = foldl apply_rec (lsm_view s) rest \<and> same_setup s s' \<and>
     tables_due s' \<le> tables_due s + length rest"
proof (induction rest arbitrary: s)
  case Nil
  then show ?case by (simp add: wal_text_def replay_wal.simps [of env "[]"])
next
  case (Cons r rest)
  let ?s = "s\<lparr>m_memTable := smap_put (rec_key r) \<lparr>entry_type = rec_type r, entry_value = rec_value r\<rparr> (m_memTable s)\<rparr>"
  have r: "r \<in> set rs" "rec_fits r" using Cons.prems(2,3) by (auto simp: durable_def)
  have lt: "tables_due s + 1 < 2 ^ 64" using Cons.prems(5) by simp
  obtain t where t: "FlushMemTableIfNeededLocked env ?s = (t, None)" "durable env rs t"
    "lsm_view t = apply_rec (lsm_view s) r" "same_setup s t"
    "tables_due t \<le> tables_due s + 1"
    using record_durable [OF Cons.prems(1,2) r(1) Cons.prems(4) lt] by blast
  have sub: "set rest \<subseteq> set rs" and lt': "tables_due t + length rest < 2 ^ 64"
    using Cons.prems(3,5) t(5) by auto
  obtain s' where s': "replay_wal env (wal_text rest) t = (s', None)" "durable env rs s'"
    "lsm_view s' = foldl apply_rec (lsm_view t) rest" "same_setup t s'"
    "tables_due s' \<le> tables_due t + length rest"
    using Cons.IH [OF Cons.prems(1) t(2) sub Cons.prems(4) lt'] by blast
  have "ReadWALRecord (wal_text (r # rest)) = Inr (r, wal_text rest)"
    using r(2) ReadWALRecord_append [of r "wal_text rest"] by (simp add: wal_text_def)
  then have "replay_wal env (wal_text (r # rest)) s = (s', None)"
    using t(1) s'(1) by (subst replay_wal.simps) (simp add: wal_text_Nil_iff)
  then show ?case using s' t(3,5) same_setup_trans [OF t(4) s'(4)] by auto
qed

text \<open>A log that names every key of a map determines what it makes of it.\<close>

lemma foldl_apply_rec: "foldl apply_rec m rs k = (if k \<in> rec_key ` set rs then foldl apply_rec Map.empty rs k else m k)"
proof (induction rs rule: rev_induct)
  case (snoc r rs)
  have "apply_rec m' r k = (if k = rec_key r then if rec_type r = Put then Some (rec_value r) else None else m' k)" for m'
    by (simp add: apply_rec_def)
  then show ?case using snoc.IH by auto
qed simp

lemma replay_over:
  assumes "inside rs s"
  shows "foldl apply_rec (lsm_view s) rs = foldl apply_rec Map.empty rs"
proof -
  have "lsm_view s k = None" if "k \<notin> rec_key ` set rs" for k
  proof -
    have "find_in_memtables (layers s) k = None"
    proof (cases "find_in_memtables (layers s) k")
      case (Some e)
      then obtain m where "m \<in> set (layers s)" "(k, e) \<in> set m" using find_in_memtables_Some by blast
      then have "k \<in> rec_key ` set rs" using assms by (force simp: inside_def)
      then show ?thesis using that by simp
    qed
    then show ?thesis by (simp add: lsm_view_def)
  qed
  moreover have "foldl apply_rec Map.empty rs k = None" if "k \<notin> rec_key ` set rs" for k
    using that foldl_apply_rec [of Map.empty rs k] by simp
  ultimately show ?thesis by (intro ext) (metis foldl_apply_rec)
qed

text \<open>
  The state that the manifest gives: the tables as they were, an empty mem table.  It belongs to the same log.
\<close>

lemma manifest_durable:
  assumes "durable env rs s" "length rs < 2 ^ 64"
  shows "\<exists>b. RecoverFromManifestLocked env (lsm_blank n (m_walPath s) (m_manifestPath s) (lsm_disk s)) = (b, None) \<and>
    durable env rs b \<and> lsm_disk b = lsm_disk s \<and> keeps_paths s b \<and> tables_due b = unat (m_nextSSTableSequence s)"
proof -
  let ?b = "lsm_blank n (m_walPath s) (m_manifestPath s) (lsm_disk s)" and ?ts = "map (reload env) (m_sstables s)"
  have s: "lsm_ok env s" "stored s" "inside rs s" "paths_ok (m_walPath s) (m_manifestPath s)"
    using assms(1) by (auto simp: durable_def)
  define b where "b = ?b\<lparr>m_nextSSTableSequence := m_nextSSTableSequence s, m_sstables := ?ts\<rparr>"
  have b: "layers b = [] # map entries (rev (m_sstables s))" "m_sstables b = ?ts" "lsm_disk b = lsm_disk s"
    "m_manifestPath b = m_manifestPath s" "m_walPath b = m_walPath s" "m_immutableMemTables b = []"
    "m_nextSSTableSequence b = m_nextSSTableSequence s" "\<not> m_asyncFlushEnabled b"
    by (simp_all add: b_def lsm_blank_def layers_def rev_map comp_def)
  have len: "length (m_sstables s) < 2 ^ 64"
    using s(2) u64_less [of "m_nextSSTableSequence s"] unfolding stored_def by linarith
  have run: "RecoverFromManifestLocked env ?b = (b, None)"
  proof (cases "lsm_disk s (m_manifestPath s) = None")
    case True
    then have "m_sstables s = []" "m_nextSSTableSequence s = 0" using s(2) by (auto simp: stored_def)
    then show ?thesis using True s(4) by (simp add: RecoverFromManifestLocked_def b_def lsm_blank_def paths_ok_def)
  next
    case False
    then have mf: "lsm_disk s (m_manifestPath s) = Some (manifest_bytes s)" using s(2) by (auto simp: stored_def)
    let ?u = "?b\<lparr>m_nextSSTableSequence := m_nextSSTableSequence s\<rparr>"
    have "read_manifest_tables env (length (m_sstables s)) (concat (map manifest_entry (m_sstables s))) ?u =
        (?u\<lparr>m_sstables := m_sstables ?u @ ?ts\<rparr>, None)"
      using s(2,4) by (intro read_manifest_tables_entries [of _ "m_manifestPath s"])
        (auto simp: stored_def lsm_blank_def paths_ok_def)
    then show ?thesis using mf len s(4)
      by (simp add: RecoverFromManifestLocked_def b_def lsm_blank_def paths_ok_def manifest_bytes_eq)
  qed
  have sub: "set (layers b) \<subseteq> insert [] (set (layers s))" unfolding b(1) by (auto simp: layers_def)
  then have ins: "inside rs b"
    unfolding inside_def
  proof (intro ballI)
    fix m item
    assume "m \<in> set (layers b)" "item \<in> set m"
    then have "m \<in> set (layers s)" "item \<in> set m" using sub by auto
    then show "fst item \<in> rec_key ` set rs \<and> value_fits item" using s(3) by (simp add: inside_def)
  qed
  have wf: "\<forall>m \<in> set (layers b). smap_wf m" using sub s(1) by (auto simp: lsm_ok_def)
  have "table_ok (str_hash env) (reload env t)" if "t \<in> set (m_sstables s)" for t
    using that s(1) unfolding reload_def by (intro Rebuild_ok) (auto simp: new_table_def lsm_ok_def layers_def)
  then have ok: "lsm_ok env b" using wf b(2) by (auto simp: lsm_ok_def)
  have keys: "minKey (reload env t) = minKey t \<and> maxKey (reload env t) = maxKey t"
    if "t \<in> set (m_sstables s)" for t
    using that s(1,2) by (cases "entries t = []")
      (auto simp: reload_def new_table_def RebuildSSTableMetadata_def Let_def stored_def table_stored_def lsm_ok_def table_ok_def)
  then have entry: "map manifest_entry ?ts = map manifest_entry (m_sstables s)" by (simp add: manifest_entry_def)
  have "manifest_bytes b = manifest_bytes s" unfolding manifest_bytes_eq b(2,7) entry by simp
  moreover have "table_stored (m_manifestPath s) (lsm_disk s) (reload env t) \<and> sequence (reload env t) \<le> m_nextSSTableSequence s"
    if "t \<in> set (m_sstables s)" for t using that keys [OF that] s(2) by (auto simp: stored_def table_stored_def)
  ultimately have st: "stored b" using s(2) by (auto simp: stored_def b)
  have "durable env rs b" using ok ins st assms(1) by (simp add: durable_def b)
  then show ?thesis using run b by (auto simp: keeps_paths_def tables_due_def)
qed

lemma restart_durable:
  assumes "writable env" "durable env rs s" "lsm_view s = foldl apply_rec Map.empty rs" "length rs < 2 ^ 64"
    "tables_due s + length rs < 2 ^ 64"
  shows "\<exists>s'. LSMTreeEngine_full env n (m_walPath s) (m_manifestPath s) (lsm_disk s) = (s', None) \<and> durable env rs s' \<and>
    lsm_view s' = lsm_view s \<and> keeps_paths s s' \<and>
    tables_due s' \<le> tables_due s + length rs"
proof -
  obtain b where b: "RecoverFromManifestLocked env (lsm_blank n (m_walPath s) (m_manifestPath s) (lsm_disk s)) = (b, None)"
    "durable env rs b" "lsm_disk b = lsm_disk s" "keeps_paths s b" "tables_due b = unat (m_nextSSTableSequence s)"
    using manifest_durable [OF assms(2,4)] by blast
  have due: "tables_due b \<le> tables_due s" using b(5) by (simp add: tables_due_def)
  then have lt: "tables_due b + length rs < 2 ^ 64" using assms(5) by simp
  obtain s' where s': "replay_wal env (wal_text rs) b = (s', None)" "durable env rs s'"
    "lsm_view s' = foldl apply_rec (lsm_view b) rs" "same_setup b s'"
    "tables_due s' \<le> tables_due b + length rs"
    using replay_durable [OF assms(1) b(2) order.refl assms(4) lt] by blast
  have view: "lsm_view s' = lsm_view s"
    using replay_over [of rs b] b(2) s'(3) assms(3) by (simp add: durable_def)
  have path: "m_walPath b = m_walPath s" "m_walPath s \<noteq> []"
    using b(4) assms(2) by (auto simp: keeps_paths_def durable_def paths_ok_def)
  have "RecoverFromWALLocked env b = (s', None)"
  proof (cases "lsm_disk s (m_walPath s)")
    case None
    then have "rs = []" using assms(2) by (simp add: durable_def)
    then show ?thesis using None s'(1) b(3) path by (simp add: RecoverFromWALLocked_def wal_text_def replay_wal.simps [of env "[]"])
  next
    case (Some w)
    then have "w = wal_text rs" using assms(2) by (simp add: durable_def)
    then show ?thesis using Some s'(1) b(3) path by (simp add: RecoverFromWALLocked_def)
  qed
  then have "LSMTreeEngine_full env n (m_walPath s) (m_manifestPath s) (lsm_disk s) = (s', None)"
    using b(1) by (simp add: LSMTreeEngine_full_def)
  then show ?thesis using s' view b(4) due by (auto simp: keeps_paths_def same_setup_def)
qed


end
