(* ===== verification/Lsm_Life.thy ===== *)
theory Lsm_Life
  imports Lsm_Restart
begin

text \<open>
  A whole life of the log-structured engine with its files: updates, flushes, compactions, turns of the background
  worker, snapshots put in place of the contents, and restarts.  Every step keeps the files in step with the contents.
\<close>

section \<open>Putting a snapshot in place\<close>

text \<open>What a snapshot stands for.\<close>

definition snapshot_view :: "string \<Rightarrow> (string \<rightharpoonup> string)" where
  "snapshot_view b = (if b = [] then Map.empty else
     case parse_snapshot b of Inl _ \<Rightarrow> Map.empty | Inr m \<Rightarrow> (\<lambda>k. map_option entry_value (map_of m k)))"

definition restorable :: "string \<Rightarrow> bool" where
  "restorable b \<longleftrightarrow> b = [] \<or> (case parse_snapshot b of Inl _ \<Rightarrow> False | Inr _ \<Rightarrow> True)"

text \<open>A parsed snapshot holds values only, of lengths that a word can hold, and fewer of them than it has bytes.\<close>

definition only_values :: "memtable \<Rightarrow> bool" where
  "only_values m \<longleftrightarrow> smap_wf m \<and> (\<forall>item \<in> set m. entry_type (snd item) = Put \<and> value_fits item)"

lemma smap_put_subset: "set (smap_put k e m) \<subseteq> insert (k, e) (set m)"
  by (induction k e m rule: smap_put.induct) auto

lemma smap_put_length: "length (smap_put k e m) \<le> Suc (length m)"
  by (induction k e m rule: smap_put.induct) auto

lemma only_values_put:
  "only_values m \<Longrightarrow> length k < 2 ^ 64 \<Longrightarrow> length v < 2 ^ 64 \<Longrightarrow>
   only_values (smap_put k \<lparr>entry_type = Put, entry_value = v\<rparr> m)"
  using smap_put_subset [of k "\<lparr>entry_type = Put, entry_value = v\<rparr>" m]
  by (auto simp: only_values_def smap_wf_put value_fits_def)

lemma ReadString_bounds:
  assumes "ReadString b off = Inr (v, off')"
  shows "off < off' \<and> off' \<le> length b \<and> length v < 2 ^ 64"
proof -
  obtain size where "ReadUint64 b off = Inr (size, off + 8)" "off + 8 \<le> length b"
    "v = take (unat size) (drop (off + 8) b)" "off' = off + 8 + unat size" "unat size \<le> length b - (off + 8)"
    using assms by (auto simp: ReadString_def bindE_Inr_iff ReadUint64_def split: if_splits)
  then show ?thesis using u64_less [of size] by auto
qed

lemma read_items_bounds:
  "read_items n b off m = Inr (m', off') \<Longrightarrow> only_values m \<Longrightarrow> off \<le> length b \<Longrightarrow>
   only_values m' \<and> off' \<le> length b \<and> length m' + off \<le> length m + off'"
proof (induction n arbitrary: off m)
  case (Suc n)
  obtain k o1 v o2 where r: "ReadString b off = Inr (k, o1)" "ReadString b o1 = Inr (v, o2)"
    "read_items n b o2 (smap_put k \<lparr>entry_type = Put, entry_value = v\<rparr> m) = Inr (m', off')"
    using Suc.prems(1) by (auto simp: bindE_Inr_iff)
  note k = ReadString_bounds [OF r(1)] and v = ReadString_bounds [OF r(2)]
  show ?case
    using Suc.IH [OF r(3) only_values_put [OF Suc.prems(2)]] k v
      smap_put_length [of k "\<lparr>entry_type = Put, entry_value = v\<rparr>" m] by fastforce
qed simp

lemma parse_snapshot_bounds:
  assumes "parse_snapshot b = Inr m"
  shows "only_values m \<and> length m \<le> length b"
proof -
  obtain count off off' where r: "ReadUint64 b 0 = Inr (count, off)" "read_items (unat count) b off [] = Inr (m, off')"
    using assms by (auto simp: parse_snapshot_def bindE_Inr_iff split: if_splits)
  have "off \<le> length b" using r(1) by (auto simp: ReadUint64_def split: if_splits)
  then show ?thesis using read_items_bounds [OF r(2)] by (auto simp: only_values_def)
qed

text \<open>The log that is written for a mem table alone.\<close>

definition put_record :: "string \<times> string \<Rightarrow> WALRecord" where
  "put_record item = \<lparr>rec_type = Put, rec_key = fst item, rec_value = snd item\<rparr>"

lemma foldl_put_records:
  "distinct (map fst xs) \<Longrightarrow> foldl apply_rec m (map put_record xs) = m ++ map_of xs"
proof (induction xs arbitrary: m)
  case (Cons x xs)
  have one: "apply_rec m (put_record x) = m(fst x \<mapsto> snd x)" by (simp add: apply_rec_def put_record_def)
  have "map_of xs (fst x) = None" using Cons.prems by (simp add: map_of_eq_None_iff)
  then have "m(fst x \<mapsto> snd x) ++ map_of xs = m ++ map_of (x # xs)"
    by (cases x) (auto simp: map_add_def fun_eq_iff split: option.split)
  then show ?case using Cons.IH [of "m(fst x \<mapsto> snd x)"] Cons.prems by (simp add: one del: fun_upd_apply map_of.simps)
qed simp

text \<open>The contents are replaced, then the log and the manifest are written.\<close>

lemma replace_durable:
  assumes "writable env" "durable env rs s" "only_values m"
  obtains t rs' where "seqS (RewriteWALLocked env ((DeleteSSTableFilesLocked s)
      \<lparr>m_memTable := m, m_immutableMemTables := [], m_sstables := []\<rparr>)) (RewriteManifestLocked env) = (t, None)"
    "durable env rs' t" "lsm_view t = (\<lambda>k. map_option entry_value (map_of m k))"
    "foldl apply_rec Map.empty rs' = lsm_view t" "length rs' \<le> length m" "keeps_paths s t" "tables_due t \<le> tables_due s"
proof -
  let ?man = "m_manifestPath s" and ?wal = "m_walPath s"
  have s: "paths_ok ?wal ?man" using assms(2) by (simp add: durable_def)
  obtain d where d: "DeleteSSTableFilesLocked s = s\<lparr>lsm_disk := d\<rparr>"
    using DeleteSSTableFiles_only_disk by (rule only_diskE)
  define u where "u = s\<lparr>lsm_disk := d, m_memTable := m, m_immutableMemTables := [], m_sstables := []\<rparr>"
  define xs where "xs = ExportVisibleDataLocked u"
  define t where "t = u\<lparr>lsm_disk := d(?wal \<mapsto> wal_text (map put_record xs), ?man \<mapsto> manifest_bytes u)\<rparr>"
  have wf: "smap_wf m" using assms(3) by (simp add: only_values_def)
  have lay: "layers u = [m]" "layers t = [m]" by (simp_all add: u_def t_def layers_def)
  then have ok: "lsm_ok env u" "lsm_ok env t" using wf by (simp_all add: lsm_ok_def u_def t_def)
  have put: "entry_type e = Put" if "map_of m k = Some e" for k e
    using map_of_SomeD [OF that] assms(3) by (auto simp: only_values_def)
  have view: "lsm_view u = (\<lambda>k. map_option entry_value (map_of m k))" "lsm_view t = lsm_view u"
    by (auto simp: lsm_view_def lay live_def fun_eq_iff dest: put split: option.split)
  have xs: "smap_wf xs" "map_of xs = lsm_view u" using Export_correct [OF ok(1)] by (simp_all add: xs_def)
  have dist: "distinct (map fst xs)" "distinct (map fst m)" using xs(1) wf by (simp_all add: smap_wf_distinct)
  have dom: "fst ` set xs = fst ` set m"
    using xs(2) view(1) by (simp add: dom_map_of_conv_image_fst [symmetric]) (auto simp: dom_def)
  have "length xs = card (fst ` set xs)" "length m = card (fst ` set m)"
    using dist by (metis distinct_card length_map list.set_map)+
  then have len: "length xs = length m" using dom by simp
  have "value_fits (k, \<lparr>entry_type = Put, entry_value = v\<rparr>)" if "(k, v) \<in> set xs" for k v
  proof -
    have "map_of xs k = Some v" using that dist(1) by simp
    then obtain e where "map_of m k = Some e" "entry_value e = v" using xs(2) view(1) by auto
    then show ?thesis using map_of_SomeD assms(3) by (fastforce simp: only_values_def value_fits_def)
  qed
  then have fits: "\<forall>r \<in> set (map put_record xs). rec_fits r"
    by (auto simp: put_record_def rec_fits_def value_fits_def)
  have keys: "rec_key ` set (map put_record xs) = fst ` set m" using dom by (auto simp: put_record_def image_image)
  have ins: "inside (map put_record xs) t"
    using assms(3) unfolding inside_def lay keys by (auto simp: only_values_def)
  have mb: "manifest_bytes t = manifest_bytes u" by (simp add: t_def manifest_bytes_def)
  have st: "stored t" using mb by (simp add: stored_def) (simp add: t_def u_def)
  have dur: "durable env (map put_record xs) t"
    using ok(2) ins st fits s by (simp add: durable_def) (auto simp: t_def u_def paths_ok_def)
  have "concat (map (\<lambda>item. WriteWALRecord \<lparr>rec_type = Put, rec_key = fst item, rec_value = snd item\<rparr>) xs) =
      wal_text (map put_record xs)" by (simp add: wal_text_def put_record_def comp_def)
  then have wal: "RewriteWALLocked env u = (u\<lparr>lsm_disk := d(?wal \<mapsto> wal_text (map put_record xs))\<rparr>, None)"
    using assms(1) s by (simp add: RewriteWALLocked_def xs_def [symmetric] paths_ok_def) (simp add: u_def)
  have "manifest_bytes (u\<lparr>lsm_disk := b\<rparr>) = manifest_bytes u" for b by (simp add: manifest_bytes_def)
  then have run: "seqS (RewriteWALLocked env u) (RewriteManifestLocked env) = (t, None)"
    using assms(1) s wal by (simp add: RewriteManifestLocked_def paths_ok_def t_def) (simp add: u_def)
  have "(DeleteSSTableFilesLocked s)\<lparr>m_memTable := m, m_immutableMemTables := [], m_sstables := []\<rparr> = u"
    by (simp add: d u_def)
  moreover have "foldl apply_rec Map.empty (map put_record xs) = lsm_view t"
    using foldl_put_records [OF dist(1), of Map.empty] xs(2) view(2) by simp
  moreover have "keeps_paths s t" "tables_due t \<le> tables_due s" by (simp_all add: keeps_paths_def tables_due_def t_def u_def)
  ultimately show ?thesis using that run dur view len by (metis length_map order_refl)
qed

lemma restore_durable:
  assumes "writable env" "durable env rs s" "restorable b" "length b < 2 ^ 64" "tables_due s + 1 < 2 ^ 64"
  obtains s' rs' where "lsm_Restore env s b = (s', None)" "durable env rs' s'" "lsm_view s' = snapshot_view b"
    "foldl apply_rec Map.empty rs' = lsm_view s'" "length rs' \<le> length b" "keeps_paths s s'" "tables_due s' \<le> tables_due s + 1"
proof (cases "b = []")
  case True
  have "only_values []" by (simp add: only_values_def)
  note vals = this
  obtain t rs' where t: "seqS (RewriteWALLocked env ((DeleteSSTableFilesLocked s)
      \<lparr>m_memTable := [], m_immutableMemTables := [], m_sstables := []\<rparr>)) (RewriteManifestLocked env) = (t, None)"
    "durable env rs' t" "lsm_view t = (\<lambda>k. map_option entry_value (map_of ([] :: memtable) k))"
    "foldl apply_rec Map.empty rs' = lsm_view t" "length rs' \<le> length ([] :: memtable)" "keeps_paths s t" "tables_due t \<le> tables_due s"
    by (rule replace_durable [OF assms(1,2) vals])
  have run: "lsm_Restore env s b = (t, None)" using True t(1) by (simp add: lsm_Restore_def)
  have view: "lsm_view t = snapshot_view b" using True t(3) by (simp add: snapshot_view_def)
  have len: "length rs' \<le> length b" using t(5) by simp
  have due: "tables_due t \<le> tables_due s + 1" using t(7) by simp
  show ?thesis by (rule that [OF run t(2) view t(4) len t(6) due])
next
  case False
  then obtain m where m: "parse_snapshot b = Inr m" using assms(3) by (auto simp: restorable_def split: sum.splits)
  note vals = parse_snapshot_bounds [OF m]
  obtain t rs' where t: "seqS (RewriteWALLocked env ((DeleteSSTableFilesLocked s)
      \<lparr>m_memTable := m, m_immutableMemTables := [], m_sstables := []\<rparr>)) (RewriteManifestLocked env) = (t, None)"
    "durable env rs' t" "lsm_view t = (\<lambda>k. map_option entry_value (map_of m k))"
    "foldl apply_rec Map.empty rs' = lsm_view t" "length rs' \<le> length m" "keeps_paths s t" "tables_due t \<le> tables_due s"
    by (rule replace_durable [OF assms(1,2) conjunct1 [OF vals]])
  have len: "length rs' < 2 ^ 64" "tables_due t + 1 < 2 ^ 64" using t(5,7) vals assms(4,5) by auto
  obtain s' where s': "FlushMemTableIfNeededLocked env t = (s', None)" "durable env rs' s'" "lsm_view s' = lsm_view t"
    "same_setup t s'" "tables_due s' \<le> tables_due t + 1"
    using flush_if_needed_durable [OF assms(1) t(2) len] by blast
  have "lsm_Restore env s b = (s', None)"
    using t(1) s'(1) False m by (auto simp: lsm_Restore_def Let_def seqS_None_iff)
  moreover have "lsm_view s' = snapshot_view b" using s'(3) t(3) False m by (simp add: snapshot_view_def)
  moreover have "keeps_paths s s'" using t(6) s'(4) by (simp add: keeps_paths_def same_setup_def)
  moreover have "foldl apply_rec Map.empty rs' = lsm_view s'" using t(4) s'(3) by simp
  moreover have "length rs' \<le> length b" using t(5) vals by simp
  moreover have "tables_due s' \<le> tables_due s + 1" using t(7) s'(5) by simp
  ultimately show ?thesis using s'(2) that by blast
qed

text \<open>A snapshot that an engine has written stands for the contents of that engine.\<close>

lemma snapshot_of_engine:
  assumes "lsm_ok env s" "fits (lsm_view s)"
  shows "restorable (lsm_Snapshot s)" "snapshot_view (lsm_Snapshot s) = lsm_view s"
proof -
  obtain m where m: "parse_snapshot (lsm_Snapshot s) = Inr m"
    "\<forall>k. map_of m k = map_option (\<lambda>v. \<lparr>entry_type = Put, entry_value = v\<rparr>) (lsm_view s k)"
    using parse_snapshot_Snapshot [OF assms] by blast
  have "lsm_Snapshot s \<noteq> []"
    by (metis Snapshot_bytes append_is_Nil_conv length_uint64_bytes list.size(3) zero_neq_numeral)
  then show "restorable (lsm_Snapshot s)" "snapshot_view (lsm_Snapshot s) = lsm_view s"
    using m by (auto simp: restorable_def snapshot_view_def fun_eq_iff option.map_comp comp_def option.map_ident)
qed

section \<open>The background worker\<close>

text \<open>The flags of the worker and of the asynchronous flush do not matter.\<close>

lemma layers_frame [simp]:
  "layers (s\<lparr>m_asyncFlushEnabled := b\<rparr>) = layers s" "layers (s\<lparr>m_backgroundStop := b\<rparr>) = layers s"
  "layers (s\<lparr>m_backgroundRunning := b\<rparr>) = layers s" "layers (s\<lparr>m_backgroundWorkPending := b\<rparr>) = layers s"
  by (simp_all add: layers_def)

lemma durable_cong:
  "layers s' = layers s \<Longrightarrow> m_sstables s' = m_sstables s \<Longrightarrow> m_nextSSTableSequence s' = m_nextSSTableSequence s \<Longrightarrow>
   m_manifestPath s' = m_manifestPath s \<Longrightarrow> m_walPath s' = m_walPath s \<Longrightarrow> lsm_disk s' = lsm_disk s \<Longrightarrow>
   durable env rs s' = durable env rs s"
  using stored_cong [of s' s] by (simp add: durable_def inside_def lsm_ok_def)

lemma durable_frame [simp]:
  "durable env rs (s\<lparr>m_asyncFlushEnabled := b\<rparr>) = durable env rs s"
  "durable env rs (s\<lparr>m_backgroundStop := b\<rparr>) = durable env rs s"
  "durable env rs (s\<lparr>m_backgroundRunning := b\<rparr>) = durable env rs s"
  "durable env rs (s\<lparr>m_backgroundWorkPending := b\<rparr>) = durable env rs s"
  by (rule durable_cong; simp)+

lemma tables_due_flags [simp]:
  "tables_due (s\<lparr>m_asyncFlushEnabled := b\<rparr>) = tables_due s"
  "tables_due (s\<lparr>m_backgroundStop := b\<rparr>) = tables_due s"
  "tables_due (s\<lparr>m_backgroundRunning := b\<rparr>) = tables_due s"
  "tables_due (s\<lparr>m_backgroundWorkPending := b\<rparr>) = tables_due s"
  by (simp_all add: tables_due_def)

lemma lsm_view_flags [simp]:
  "lsm_view (s\<lparr>m_asyncFlushEnabled := b\<rparr>) = lsm_view s"
  "lsm_view (s\<lparr>m_backgroundStop := b\<rparr>) = lsm_view s"
  "lsm_view (s\<lparr>m_backgroundRunning := b\<rparr>) = lsm_view s"
  "lsm_view (s\<lparr>m_backgroundWorkPending := b\<rparr>) = lsm_view s"
  by (rule lsm_view_layers; simp)+

lemma worker_durable:
  assumes "writable env" "durable env rs s" "length rs < 2 ^ 64" "tables_due s + 2 < 2 ^ 64"
  shows "\<exists>s'. flush_and_compact env s = (s', None) \<and> durable env rs s' \<and> lsm_view s' = lsm_view s \<and> keeps_paths s s' \<and>
    tables_due s' \<le> tables_due s + 2"
proof -
  have lt: "tables_due s + 1 < 2 ^ 64" using assms(4) by simp
  obtain t where t: "FlushMemTableLocked env s = (t, None)" "durable env rs t" "lsm_view t = lsm_view s" "same_setup s t"
    "tables_due t \<le> tables_due s + 1"
    using flush_durable [OF assms(1-3) lt] by blast
  have lt': "tables_due t + 1 < 2 ^ 64" using t(5) assms(4) by simp
  obtain s' where s': "CompactSSTablesLocked env t = (s', None)" "durable env rs s'" "lsm_view s' = lsm_view t" "same_setup t s'"
    "tables_due s' \<le> tables_due t + 1"
    using compact_durable [OF assms(1) t(2) assms(3) lt'] by blast
  show ?thesis
    using t s' same_setup_trans [OF t(4) s'(4)]
    by (cases "length (m_sstables t) > 1") (auto simp: flush_and_compact_def keeps_paths_def same_setup_def)
qed

section \<open>Lives\<close>

text \<open>
  What can happen to an engine: updates, flushes and compactions asked for, turns of the background worker, its
  start and its end, the switch between flushes at once and flushes later, snapshots put in place, and restarts
  with any threshold on the files as they are, whatever the mem tables held.
\<close>

datatype db_op = DbUpdate update | DbFlush | DbCompact | DbAsync bool | DbStart | DbWorker | DbStop | DbRestore string | DbRestart nat

fun db_step :: "lsm_env \<Rightarrow> db_op \<Rightarrow> lsm \<Rightarrow> lsm proc" where
  "db_step env (DbUpdate (UPut k v)) s = lsm_Put env s k v"
| "db_step env (DbUpdate (UDelete k)) s = lsm_Delete env s k"
| "db_step env DbFlush s = Flush env s"
| "db_step env DbCompact s = Compact env s"
| "db_step env (DbAsync enabled) s = (EnableAsyncFlush enabled s, None)"
| "db_step env DbStart s = (StartBackgroundWorker s, None)"
| "db_step env DbWorker s = fst (BackgroundWorkerTurn env s)"
| "db_step env DbStop s = StopBackgroundWorker env s"
| "db_step env (DbRestore b) s = lsm_Restore env s b"
| "db_step env (DbRestart n) s = LSMTreeEngine_full env n (m_walPath s) (m_manifestPath s) (lsm_disk s)"

fun run_db :: "lsm_env \<Rightarrow> db_op list \<Rightarrow> lsm \<Rightarrow> lsm proc" where
  "run_db env [] s = (s, None)"
| "run_db env (x # xs) s = seqS (db_step env x s) (run_db env xs)"

fun db_view :: "(string \<rightharpoonup> string) \<Rightarrow> db_op \<Rightarrow> (string \<rightharpoonup> string)" where
  "db_view m (DbUpdate u) = update_view m u"
| "db_view m (DbRestore b) = snapshot_view b"
| "db_view m _ = m"

fun db_fits :: "db_op \<Rightarrow> bool" where
  "db_fits (DbUpdate u) = update_fits u"
| "db_fits (DbRestore b) = restorable b"
| "db_fits _ = True"

text \<open>How much longer a step can make the log.\<close>

fun db_cost :: "db_op \<Rightarrow> nat" where
  "db_cost (DbRestore b) = Suc (length b)"
| "db_cost _ = 1"

definition in_step :: "lsm_env \<Rightarrow> nat \<Rightarrow> nat \<Rightarrow> lsm \<Rightarrow> bool" where
  "in_step env i j s \<longleftrightarrow> (\<exists>rs. durable env rs s \<and> lsm_view s = foldl apply_rec Map.empty rs \<and> length rs \<le> i) \<and>
     tables_due s \<le> j"

lemma in_stepI:
  "durable env rs s \<Longrightarrow> lsm_view s = foldl apply_rec Map.empty rs \<Longrightarrow> length rs \<le> i \<Longrightarrow> tables_due s \<le> j \<Longrightarrow> in_step env i j s"
  by (auto simp: in_step_def)

lemma in_step_ok: "in_step env i j s \<Longrightarrow> lsm_ok env s"
  by (auto simp: in_step_def durable_def)

lemma db_step_ok:
  assumes "writable env" "db_fits x" "in_step env i j s" "i + j + db_cost x + 2 < 2 ^ 64"
  shows "\<exists>s'. db_step env x s = (s', None) \<and> in_step env (i + db_cost x) (j + i + 2) s' \<and>
    lsm_view s' = db_view (lsm_view s) x \<and> keeps_paths s s'"
proof -
  obtain rs where rs: "durable env rs s" "lsm_view s = foldl apply_rec Map.empty rs" "length rs \<le> i"
    and j: "tables_due s \<le> j" using assms(3) by (auto simp: in_step_def)
  have b: "length rs < 2 ^ 64" "length rs + 1 < 2 ^ 64" "tables_due s + 1 < 2 ^ 64" "tables_due s + 2 < 2 ^ 64"
    "tables_due s + length rs < 2 ^ 64" using assms(4) rs(3) j by auto
  have finish: "\<exists>s'. db_step env x s = (s', None) \<and> in_step env (i + db_cost x) (j + i + 2) s' \<and>
      lsm_view s' = db_view (lsm_view s) x \<and> keeps_paths s s'"
    if "\<exists>s'. db_step env x s = (s', None) \<and> durable env rs' s' \<and> lsm_view s' = db_view (lsm_view s) x \<and> keeps_paths s s' \<and>
        tables_due s' \<le> tables_due s + c"
      "db_view (lsm_view s) x = foldl apply_rec Map.empty rs'" "length rs' \<le> i + db_cost x" "c \<le> i + 2" for rs' c
  proof -
    note ex = that
    obtain s' where s': "db_step env x s = (s', None)" "durable env rs' s'" "lsm_view s' = db_view (lsm_view s) x"
      "keeps_paths s s'" "tables_due s' \<le> tables_due s + c" using ex(1) by blast
    have "tables_due s' \<le> j + i + 2" using s'(5) ex(4) j by linarith
    then show ?thesis using s' ex(2,3) in_stepI [OF s'(2)] by auto
  qed
  show ?thesis
  proof (cases x)
    case (DbUpdate u)
    show ?thesis
    proof (cases u)
      case (UPut k v)
      then show ?thesis
        using Put_durable [OF assms(1) rs(1) _ _ b(2,3), of k v] DbUpdate assms(2) rs(2,3)
        by (intro finish [of "rs @ [\<lparr>rec_type = Put, rec_key = k, rec_value = v\<rparr>]" 1]) (simp_all add: apply_rec_def)
    next
      case (UDelete k)
      then show ?thesis
        using Delete_durable [OF assms(1) rs(1) _ b(2,3), of k] DbUpdate assms(2) rs(2,3)
        by (intro finish [of "rs @ [\<lparr>rec_type = Delete, rec_key = k, rec_value = []\<rparr>]" 1]) (simp_all add: apply_rec_def)
    qed
  next
    case DbFlush
    then show ?thesis
      using flush_durable [OF assms(1) rs(1) b(1,3)] rs(2,3)
      by (intro finish [of rs 1]) (auto simp: Flush_def same_setup_def keeps_paths_def)
  next
    case DbCompact
    then show ?thesis
      using compact_durable [OF assms(1) rs(1) b(1,3)] rs(2,3)
      by (intro finish [of rs 1]) (auto simp: Compact_def same_setup_def keeps_paths_def)
  next
    case (DbAsync enabled)
    then show ?thesis using rs by (intro finish [of rs 0]) (auto simp: EnableAsyncFlush_def keeps_paths_def)
  next
    case DbStart
    then show ?thesis using rs by (intro finish [of rs 0]) (auto simp: StartBackgroundWorker_def keeps_paths_def)
  next
    case DbWorker
    then show ?thesis
      using worker_durable [OF assms(1) rs(1) b(1,4)] worker_durable [of env rs "s\<lparr>m_backgroundWorkPending := False\<rparr>"]
        assms(1) rs b(1,4)
      by (intro finish [of rs 2]) (auto simp: BackgroundWorkerTurn_def keeps_paths_def)
  next
    case DbStop
    then show ?thesis
      using worker_durable [of env rs "s\<lparr>m_backgroundStop := True\<rparr>"] assms(1) rs b(1,4)
      by (intro finish [of rs 2]) (auto simp: StopBackgroundWorker_def BackgroundWorkerTurn_def keeps_paths_def)
  next
    case (DbRestore bytes)
    have fit: "restorable bytes" "length bytes < 2 ^ 64" using DbRestore assms(2,4) by auto
    obtain s' rs' where s': "lsm_Restore env s bytes = (s', None)" "durable env rs' s'" "lsm_view s' = snapshot_view bytes"
      "foldl apply_rec Map.empty rs' = lsm_view s'" "length rs' \<le> length bytes" "keeps_paths s s'" "tables_due s' \<le> tables_due s + 1"
      by (rule restore_durable [OF assms(1) rs(1) fit b(3)])
    then show ?thesis using DbRestore by (intro finish [of rs' 1]) auto
  next
    case (DbRestart n)
    then show ?thesis
      using restart_durable [OF assms(1) rs(1,2) b(1,5), of n] rs(2,3)
      by (intro finish [of rs "length rs"]) auto
  qed
qed

text \<open>The bound: no more tables than the steps can write, restarts reading the whole log again.\<close>

definition db_costs :: "db_op list \<Rightarrow> nat" where
  "db_costs xs = sum_list (map db_cost xs)"

lemma db_costs_simps [simp]: "db_costs [] = 0" "db_costs (x # xs) = db_cost x + db_costs xs"
  by (simp_all add: db_costs_def)

lemma db_cost_pos: "1 \<le> db_cost x"
  by (cases x) auto

lemma run_db_bound:
  assumes "1 \<le> c"
  shows "(j + i + 2) + ((i + c) + w + 2) * (w + 1) + (i + c) + 2 \<le> j + (i + (c + w) + 2) * ((c + w) + 1) + i + (2 :: nat)"
proof -
  obtain e where c: "c = Suc e" using assms by (cases c) auto
  show ?thesis unfolding c by (simp add: algebra_simps)
qed

lemma run_db_ok:
  assumes "writable env" "in_step env i j s" "\<forall>x \<in> set xs. db_fits x"
    "j + (i + db_costs xs + 2) * (db_costs xs + 1) + i + 2 < 2 ^ 64"
  shows "\<exists>s'. run_db env xs s = (s', None) \<and> lsm_view s' = foldl db_view (lsm_view s) xs \<and> keeps_paths s s' \<and>
    (\<exists>i' j'. in_step env i' j' s' \<and> i' + j' + 2 < 2 ^ 64)"
  using assms(2-)
proof (induction xs arbitrary: s i j)
  case (Cons x xs)
  have le: "i + j + db_cost x + 2 \<le> j + (i + db_costs (x # xs) + 2) * (db_costs (x # xs) + 1) + i + 2" by simp
  then have "i + j + db_cost x + 2 < 2 ^ 64" using Cons.prems(3) by (rule le_less_trans)
  then obtain t where t: "db_step env x s = (t, None)" "in_step env (i + db_cost x) (j + i + 2) t"
    "lsm_view t = db_view (lsm_view s) x" "keeps_paths s t"
    using db_step_ok [OF assms(1) _ Cons.prems(1), of x] Cons.prems(2) by fastforce
  have "(j + i + 2) + ((i + db_cost x) + db_costs xs + 2) * (db_costs xs + 1) + (i + db_cost x) + 2 < 2 ^ 64"
    using run_db_bound [OF db_cost_pos] Cons.prems(3) unfolding db_costs_simps by (rule le_less_trans)
  from Cons.IH [OF t(2) _ this] Cons.prems(2) obtain s' where "run_db env xs t = (s', None)"
    "lsm_view s' = foldl db_view (lsm_view t) xs" "keeps_paths t s'"
    "\<exists>i' j'. in_step env i' j' s' \<and> i' + j' + 2 < 2 ^ 64" by auto
  then show ?case using t by (auto simp: keeps_paths_def)
next
  case Nil
  then have "i + j + 2 < 2 ^ 64" by simp
  then show ?case using Nil.prems(1) by (auto simp: keeps_paths_def)
qed

lemma blank_in_step:
  assumes "paths_ok wal man" "d wal = None" "d man = None"
  shows "in_step env 0 0 (lsm_blank n wal man d)" "lsm_view (lsm_blank n wal man d) = Map.empty"
proof -
  let ?b = "lsm_blank n wal man d"
  have l: "layers ?b = [[]]" "m_sstables ?b = []" by (simp_all add: layers_def lsm_blank_def)
  show v: "lsm_view ?b = Map.empty" by (simp add: lsm_view_def l fun_eq_iff)
  have "durable env [] ?b"
    using assms by (simp add: durable_def lsm_ok_def l stored_def inside_def) (simp add: lsm_blank_def)
  then show "in_step env 0 0 ?b" using v by (auto simp: in_step_def lsm_blank_def tables_due_def)
qed

end
