(* ===== verification/Restart_Props.thy ===== *)
theory Restart_Props
  imports Lsm_Life Storage_Props
begin

text \<open>
  The properties of restarts of the log-structured engine with its files: whatever is flushed, compacted and
  restarted, nothing acknowledged is lost while every write of a file completes; and two moments at which a write
  that does not complete leaves files on which the engine cannot be started again.
\<close>

text \<open>
  C10: a life of the engine with a log and a manifest, in which every write of a file completes: insertions,
  deletions, flushes at once or by the background worker, compactions, snapshots put in place and restarts with any
  threshold, in any order, all succeed, and the contents at the end are what the insertions, the deletions and the
  snapshots alone make of the empty map; a restart finds what was still waiting for the worker.
\<close>

theorem engine_life:
  assumes "writable env" "paths_ok wal man" "d wal = None" "d man = None"
    "\<forall>x \<in> set xs. db_fits x" "(db_costs xs + 2) * (db_costs xs + 2) < 2 ^ 64"
  shows "\<exists>s. run_db env xs (lsm_blank n wal man d) = (s, None) \<and> lsm_view s = foldl db_view Map.empty xs \<and>
    (\<forall>key. lsm_Get env s key = Inr (lsm_view s key))"
proof -
  have "0 + (0 + db_costs xs + 2) * (db_costs xs + 1) + 0 + 2 \<le> (db_costs xs + 2) * (db_costs xs + 2)" by simp
  then have "0 + (0 + db_costs xs + 2) * (db_costs xs + 1) + 0 + 2 < 2 ^ 64" using assms(6) by (rule le_less_trans)
  from run_db_ok [OF assms(1) blank_in_step(1) [OF assms(2-4)] assms(5) this, of n]
  show ?thesis using blank_in_step(2) [OF assms(2-4), of n] lsm_Get_correct [OF in_step_ok] by fastforce
qed

text \<open>A snapshot with one key, and a life that puts it in place and writes and restarts around it.\<close>

definition one_key :: string where
  "one_key = lsm_Snapshot (fst (lsm_Put plain_lsm_env (LSMTreeEngine_mem 9 Map.empty) ''c'' ''3''))"

definition busy_life :: "db_op list" where
  "busy_life = [DbUpdate (UPut ''a'' ''1''), DbFlush, DbRestore one_key, DbAsync True, DbStart, DbUpdate (UPut ''b'' ''2''),
     DbWorker, DbUpdate (UPut ''a'' ''4''), DbCompact, DbRestart 7, DbUpdate (UDelete ''b''), DbRestart 1, DbStop]"

lemma one_key_facts: "restorable one_key" "length one_key = 26" "snapshot_view one_key ''a'' = None"
  "snapshot_view one_key ''b'' = None" "snapshot_view one_key ''c'' = Some ''3''"
  by code_simp+

theorem engine_life_witness:
  "\<exists>s. run_db plain_lsm_env busy_life (lsm_blank 1 ''w'' ''m'' Map.empty) = (s, None) \<and>
     lsm_Get plain_lsm_env s ''a'' = Inr (Some ''4'') \<and> lsm_Get plain_lsm_env s ''b'' = Inr None \<and>
     lsm_Get plain_lsm_env s ''c'' = Inr (Some ''3'')"
proof -
  have "writable plain_lsm_env" by (simp add: writable_def plain_lsm_env_def)
  moreover have "paths_ok ''w'' ''m''" by (simp add: paths_ok_def table_path_def)
  moreover have "\<forall>x \<in> set busy_life. db_fits x" "(db_costs busy_life + 2) * (db_costs busy_life + 2) < 2 ^ 64"
    by (simp_all add: busy_life_def one_key_facts)
  moreover have "foldl db_view Map.empty busy_life ''a'' = Some ''4''" "foldl db_view Map.empty busy_life ''b'' = None"
    "foldl db_view Map.empty busy_life ''c'' = Some ''3''" by (simp_all add: busy_life_def one_key_facts)
  ultimately show ?thesis
    using engine_life [of plain_lsm_env "''w''" "''m''" Map.empty busy_life 1] by fastforce
qed

section \<open>A compaction whose manifest is not written\<close>

text \<open>A manifest whose first table is gone.\<close>

lemma first_table_gone:
  assumes "stored s" "m_sstables s = t # ts" "paths_ok wal (m_manifestPath s)"
    "d (m_manifestPath s) = lsm_disk s (m_manifestPath s)" "d (filePath t) = None"
  shows "snd (LSMTreeEngine_full env n wal (m_manifestPath s) d) = Some (RuntimeError ''failed to open LSM SSTable'')"
proof -
  let ?b = "lsm_blank n wal (m_manifestPath s) d" and ?u = "(lsm_blank n wal (m_manifestPath s) d)\<lparr>m_nextSSTableSequence := m_nextSSTableSequence s\<rparr>"
  have t: "table_stored (m_manifestPath s) (lsm_disk s) t" and mf: "d (m_manifestPath s) = Some (manifest_bytes s)"
    and len: "length (m_sstables s) < 2 ^ 64"
    using assms(1,2,4) u64_less [of "m_nextSSTableSequence s"] unfolding stored_def by auto
  have man: "m_manifestPath s \<noteq> []" "length (m_manifestPath s) < 2 ^ 63" using assms(3) by (auto simp: paths_ok_def)
  have "length (filePath t) < 2 ^ 64" using t table_path_length [OF man(2)] by (simp add: table_stored_def)
  then have "read_manifest_tables env (length (m_sstables s)) (concat (map manifest_entry (m_sstables s))) ?u =
      (?u, Some (RuntimeError ''failed to open LSM SSTable''))"
    unfolding assms(2) using t assms(5) by (simp add: manifest_entry_def table_stored_def LoadSSTable_def lsm_blank_def)
  then have "RecoverFromManifestLocked env ?b = (?u, Some (RuntimeError ''failed to open LSM SSTable''))"
    using mf len man(1) by (simp add: RecoverFromManifestLocked_def lsm_blank_def manifest_bytes_eq)
  then show ?thesis by (simp add: LSMTreeEngine_full_def)
qed

text \<open>
  C37: compaction removes the old tables before the manifest that names their successor is written.  If the manifest
  cannot be opened at that moment, no engine can be started on the files any more, although the log among them
  still holds every record.
\<close>

theorem compaction_strands_engine:
  assumes "writable env" "durable env rs s" "length rs < 2 ^ 64" "unat (m_nextSSTableSequence s) + 1 < 2 ^ 64"
    "1 < length (m_sstables s)"
  defines "stuck \<equiv> env\<lparr>can_open := (\<lambda>p. p \<noteq> m_manifestPath s)\<rparr>"
  shows "\<exists>s'. CompactSSTablesLocked stuck s = (s', Some (RuntimeError ''failed to rewrite LSM manifest'')) \<and>
    lsm_disk s' (m_walPath s) = lsm_disk s (m_walPath s) \<and>
    (\<forall>env' n. snd (LSMTreeEngine_full env' n (m_walPath s) (m_manifestPath s) (lsm_disk s')) =
       Some (RuntimeError ''failed to open LSM SSTable''))"
proof -
  let ?n = "m_nextSSTableSequence s + 1" and ?es = "merge_tables (m_sstables s)" and ?man = "m_manifestPath s"
  have s: "stored s" "paths_ok (m_walPath s) ?man" using assms(2) by (auto simp: durable_def)
  then have man: "?man \<noteq> []" by (simp add: paths_ok_def)
  obtain t ts where tables: "m_sstables s = t # ts" using assms(5) by (cases "m_sstables s") auto
  have t: "filePath t = table_path ?man (sequence t)" "sequence t \<noteq> ?n"
    using s(1) tables succ_word [OF assms(4)] by (auto simp: stored_def table_stored_def word_le_nat_alt)
  define u where "u = (if ?es = [] then s else
      s\<lparr>m_nextSSTableSequence := ?n, lsm_disk := (lsm_disk s)(table_path ?man ?n \<mapsto> table_bytes ?es)\<rparr>)"
  have u: "m_manifestPath u = ?man" "m_sstables u = m_sstables s" by (simp_all add: u_def)
  obtain d where d: "DeleteSSTableFilesLocked u = u\<lparr>lsm_disk := d\<rparr>"
    using DeleteSSTableFiles_only_disk by (rule only_diskE)
  have dp: "d p = (if p \<noteq> [] \<and> p \<in> filePath ` set (m_sstables s) then None else lsm_disk u p)" for p
    using DeleteSSTableFiles_disk [of u p] man d u by simp
  have kept: "d p = lsm_disk s p" if "p = ?man \<or> p = m_walPath s" for p
    using that s man by (subst dp) (auto simp: u_def stored_def table_stored_def paths_ok_def)
  have gone: "d (filePath t) = None" using t by (subst dp) (simp add: tables)
  define s' where "s' = u\<lparr>lsm_disk := d, m_sstables :=
      (if ?es = [] then [] else [fresh_table env s ?es])\<rparr>"
  have "CompactSSTablesLocked stuck s = (s', Some (RuntimeError ''failed to rewrite LSM manifest''))"
  proof (cases "?es = []")
    case True
    then have "u = s" by (simp add: u_def)
    then show ?thesis using True assms(5) d man
      by (simp add: CompactSSTablesLocked_def Let_def RewriteManifestLocked_def write_trunc_def put_file_def stuck_def s'_def)
  next
    case False
    then have "u = s\<lparr>m_nextSSTableSequence := ?n, lsm_disk := (lsm_disk s)(table_path ?man ?n \<mapsto> table_bytes ?es)\<rparr>"
      by (simp add: u_def)
    then show ?thesis using False assms(1,5) d man
      by (simp add: CompactSSTablesLocked_def Let_def PersistSSTableLocked_def RewriteManifestLocked_def write_trunc_def
          put_file_def writable_def stuck_def SSTablePath_eq Rebuild_filePath fresh_table_def [symmetric]
          new_table_def [symmetric] s'_def)
        (simp add: fresh_table_def new_table_def RewriteManifestLocked_def write_trunc_def put_file_def)
  qed
  moreover have "lsm_disk s' = d" by (simp add: s'_def)
  ultimately show ?thesis
    using first_table_gone [OF s(1) tables s(2) kept gone] kept by auto
qed

text \<open>An engine with two tables.\<close>

definition two_puts :: lsm where
  "two_puts = fst (run_db plain_lsm_env [DbUpdate (UPut ''a'' ''1''), DbUpdate (UPut ''b'' ''2'')] (lsm_blank 1 ''w'' ''m'' Map.empty))"

lemma two_puts_durable:
  obtains rs where "durable plain_lsm_env rs two_puts" "length rs < 2 ^ 64" "unat (m_nextSSTableSequence two_puts) + 1 < 2 ^ 64"
    "m_walPath two_puts = ''w''" "m_manifestPath two_puts = ''m''"
proof -
  let ?xs = "[DbUpdate (UPut ''a'' ''1''), DbUpdate (UPut ''b'' ''2'')]" and ?b = "lsm_blank 1 ''w'' ''m'' Map.empty"
  have w: "writable plain_lsm_env" by (simp add: writable_def plain_lsm_env_def)
  have "paths_ok ''w'' ''m''" by (simp add: paths_ok_def table_path_def)
  then have b: "in_step plain_lsm_env 0 0 ?b" by (intro blank_in_step) simp_all
  obtain s i j where s: "run_db plain_lsm_env ?xs ?b = (s, None)" "keeps_paths ?b s" "in_step plain_lsm_env i j s" "i + j + 2 < 2 ^ 64"
    using run_db_ok [OF w b, of ?xs] by (auto simp del: run_db.simps)
  then have "two_puts = s" by (simp only: two_puts_def fst_conv)
  then show ?thesis using that s(2-4) by (auto simp: in_step_def keeps_paths_def lsm_blank_def tables_due_def)
qed

theorem compaction_strands_engine_witness:
  "\<exists>s'. CompactSSTablesLocked (plain_lsm_env\<lparr>can_open := (\<lambda>p. p \<noteq> ''m'')\<rparr>) two_puts =
       (s', Some (RuntimeError ''failed to rewrite LSM manifest'')) \<and>
     snd (LSMTreeEngine_full plain_lsm_env 1 ''w'' ''m'' (lsm_disk s')) = Some (RuntimeError ''failed to open LSM SSTable'')"
proof -
  have w: "writable plain_lsm_env" by (simp add: writable_def plain_lsm_env_def)
  obtain rs where rs: "durable plain_lsm_env rs two_puts" "length rs < 2 ^ 64" "unat (m_nextSSTableSequence two_puts) + 1 < 2 ^ 64"
    and p: "m_walPath two_puts = ''w''" "m_manifestPath two_puts = ''m''" by (rule two_puts_durable)
  have "1 < length (m_sstables two_puts)" by code_simp
  from compaction_strands_engine [OF w rs this] show ?thesis by (auto simp: p)
qed

section \<open>A record that is not written whole\<close>

lemma ReadUint64_take:
  "ReadUint64FromStream (take j (uint64_bytes v @ rest)) =
    (if j < 8 then Inl (RuntimeError ''LSM WAL has a truncated integer'') else Inr (v, take (j - 8) rest))"
  by (simp add: ReadUint64FromStream_append min_def) (simp add: ReadUint64FromStream_def)

lemma torn_record:
  assumes "rec_fits r" "0 < j" "j < length (WriteWALRecord r)"
  shows "\<exists>msg. ReadWALRecord (take j (WriteWALRecord r)) = Inl (RuntimeError msg)"
proof -
  obtain i where i: "j = Suc i" using assms(2) by (cases j) auto
  have "length (rec_key r) = unat (word_of_nat (length (rec_key r)) :: u64)"
    "length (rec_value r) = unat (word_of_nat (length (rec_value r)) :: u64)" using assms(1) by (simp_all add: rec_fits_def)
  then show ?thesis
    using assms(3) i by (auto simp: ReadWALRecord_def WriteWALRecord_def WriteUint64ToStream_eq ReadUint64_take simp del: take_append)
qed

lemma replay_torn:
  assumes "\<forall>r \<in> set rs. rec_fits r" "m_manifestPath s = []" "tail \<noteq> []" "ReadWALRecord tail = Inl e"
  shows "snd (replay_wal env (wal_text rs @ tail) s) = Some e"
  using assms(1,2)
proof (induction rs arbitrary: s)
  case Nil
  then show ?case using assms(3,4) by (subst replay_wal.simps) (simp add: wal_text_def)
next
  case (Cons r rs)
  let ?s = "s\<lparr>m_memTable := smap_put (rec_key r) \<lparr>entry_type = rec_type r, entry_value = rec_value r\<rparr> (m_memTable s)\<rparr>"
  have "m_manifestPath ?s = []" using Cons.prems(2) by simp
  then obtain s1 where s1: "FlushMemTableIfNeededLocked env ?s = (s1, None)" "m_manifestPath s1 = []"
    using FlushIfNeeded_mem [of ?s env] by auto
  have "ReadWALRecord (wal_text (r # rs) @ tail) = Inr (r, wal_text rs @ tail)"
    using Cons.prems(1) ReadWALRecord_append [of r "wal_text rs @ tail"] by (simp add: wal_text_def)
  then have "replay_wal env (wal_text (r # rs) @ tail) s = replay_wal env (wal_text rs @ tail) s1"
    using s1(1) assms(3) by (subst replay_wal.simps) simp
  then show ?case using Cons.IH [of s1] Cons.prems(1) s1(2) by simp
qed

text \<open>
  C35: an insertion whose log record reaches the file only in part is reported as failed, and from then on no engine
  can be started on the log: the constructor throws on the torn record instead of stopping before it.
\<close>

theorem torn_record_strands_engine:
  assumes "wal_holds s" "rec_fits \<lparr>rec_type = Put, rec_key = k, rec_value = v\<rparr>" "can_open env (m_walPath s)"
    "short_write env (m_walPath s) = Some j" "0 < j" "j < length (WriteWALRecord \<lparr>rec_type = Put, rec_key = k, rec_value = v\<rparr>)"
  shows "\<exists>s'. lsm_Put env s k v = (s', Some (RuntimeError ''failed to write LSM WAL record'')) \<and>
    (\<exists>msg. \<forall>env' n. snd (LSMTreeEngine_wal env' n (m_walPath s) (lsm_disk s')) = Some (RuntimeError msg))"
proof -
  let ?r = "\<lparr>rec_type = Put, rec_key = k, rec_value = v\<rparr>" and ?p = "m_walPath s"
  obtain rs where rs: "\<forall>r \<in> set rs. rec_fits r"
    "lsm_disk s ?p = Some (wal_text rs) \<or> rs = [] \<and> lsm_disk s ?p = None" and p: "?p \<noteq> []"
    using assms(1) by (auto simp: wal_holds_def)
  define s' where "s' = s\<lparr>lsm_disk := (lsm_disk s)(?p \<mapsto> wal_text rs @ take j (WriteWALRecord ?r))\<rparr>"
  have old: "(case lsm_disk s ?p of None \<Rightarrow> [] | Some old \<Rightarrow> old) = wal_text rs" using rs(2) by (auto simp: wal_text_def)
  have put: "lsm_Put env s k v = (s', Some (RuntimeError ''failed to write LSM WAL record''))"
    using assms(3,4) p by (simp add: lsm_Put_def AppendWALLocked_def write_app_def put_file_def old s'_def)
  obtain msg where msg: "ReadWALRecord (take j (WriteWALRecord ?r)) = Inl (RuntimeError msg)"
    using torn_record [OF assms(2,5,6)] by blast
  have "snd (LSMTreeEngine_wal env' n ?p (lsm_disk s')) = Some (RuntimeError msg)" for env' n
    using replay_torn [OF rs(1) _ _ msg, of "lsm_blank n ?p [] (lsm_disk s')" env'] assms(5) p
    by (simp add: LSMTreeEngine_wal_def RecoverFromWALLocked_def s'_def lsm_blank_def)
  then show ?thesis using put by blast
qed

theorem torn_record_strands_engine_witness:
  "\<exists>s'. lsm_Put (plain_lsm_env\<lparr>short_write := (\<lambda>_. Some 3)\<rparr>) (lsm_blank 1 ''w'' [] Map.empty) ''a'' ''1'' =
       (s', Some (RuntimeError ''failed to write LSM WAL record'')) \<and>
     (\<exists>msg. snd (LSMTreeEngine_wal plain_lsm_env 1 ''w'' (lsm_disk s')) = Some (RuntimeError msg))"
proof -
  let ?env = "plain_lsm_env\<lparr>short_write := (\<lambda>_. Some 3)\<rparr>" and ?s = "lsm_blank 1 ''w'' [] Map.empty"
  let ?r = "\<lparr>rec_type = Put, rec_key = ''a'', rec_value = ''1''\<rparr>"
  have "wal_holds ?s" by (rule new_wal_holds) simp_all
  moreover have "rec_fits ?r" by (simp add: rec_fits_def)
  moreover have "can_open ?env (m_walPath ?s)" "short_write ?env (m_walPath ?s) = Some 3" by (simp_all add: plain_lsm_env_def)
  moreover have "3 < length (WriteWALRecord ?r)" by (simp add: WriteWALRecord_def WriteUint64ToStream_eq)
  ultimately show ?thesis
    using torn_record_strands_engine [of ?s "''a''" "''1''" ?env 3] by (auto simp: lsm_blank_def)
qed

end
