(* ===== verification/Raft_Election.thy ===== *)
theory Raft_Election
  imports Raft_Votes
begin

text \<open>
  Election safety: in every reachable state of a cluster that starts on empty disks, no two nodes lead the
  same term, and no node reaches the assertion against winning one election twice.  The argument counts
  votes; what it needs of "more than half" is the interface \<open>quorum_system\<close>.
\<close>

section \<open>Quorums\<close>

locale quorum_system =
  fixes quorum :: "'n set \<Rightarrow> bool"
  assumes meet: "quorum A \<Longrightarrow> quorum B \<Longrightarrow> A \<inter> B \<noteq> {}"
begin

text \<open>When nobody votes twice, only one can have a quorum of votes.\<close>

lemma unique_winner:
  assumes "\<And>s x y. voted s x \<Longrightarrow> voted s y \<Longrightarrow> x = y"
    and "quorum A" "\<And>s. s \<in> A \<Longrightarrow> voted s c" "quorum B" "\<And>s. s \<in> B \<Longrightarrow> voted s d"
  shows "c = d"
  using assms meet by blast

end

definition majority :: "nat \<Rightarrow> nat" where
  "majority N = N div 2 + 1"

definition majority_of :: "nat \<Rightarrow> nat set \<Rightarrow> bool" where
  "majority_of N A \<longleftrightarrow> A \<subseteq> {..<N} \<and> majority N \<le> card A"

interpretation majorities: quorum_system "majority_of N" for N
proof
  fix A B assume "majority_of N A" "majority_of N B"
  then have ab: "A \<subseteq> {..<N}" "B \<subseteq> {..<N}" "N < card A + card B" by (auto simp: majority_of_def majority_def)
  then have f: "finite A" "finite B" "card (A \<union> B) \<le> N"
    using card_mono [of "{..<N}" "A \<union> B"] by (auto intro: finite_subset)
  show "A \<inter> B \<noteq> {}"
  proof
    assume "A \<inter> B = {}"
    then have "card (A \<union> B) = card A + card B" using f by (simp add: card_Un_disjoint)
    then show False using ab f by simp
  qed
qed

section \<open>Nodes and their files\<close>

definition disk_ok :: "raft_env \<Rightarrow> nat \<Rightarrow> nat \<Rightarrow> Persister \<Rightarrow> bool" where
  "disk_ok env N i p \<longleftrightarrow>
     m_raftStateFileName p = ''raftstatePersist'' @ int_string (int i) @ ''.txt'' \<and>
     m_snapshotFileName p = ''snapshotPersist'' @ int_string (int i) @ ''.txt'' \<and>
     (ReadRaftState p = [] \<or>
      (\<exists>r0. raft_wf r0 \<and> m_me r0 = int i \<and> m_peers r0 = N \<and> ReadRaftState p = persistData env r0))"

definition node_ok :: "raft_env \<Rightarrow> nat \<Rightarrow> nat \<Rightarrow> raft \<Rightarrow> bool" where
  "node_ok env N i r \<longleftrightarrow> raft_wf r \<and> m_me r = int i \<and> m_peers r = N \<and> disk_ok env N i (m_persister r)"

definition env_ok :: "raft_env \<Rightarrow> bool" where
  "env_ok env \<longleftrightarrow> codecs_ok env \<and> (\<forall>f. file_open env f)"

lemma env_okD: "env_ok env \<Longrightarrow> codecs_ok env"
  by (simp add: env_ok_def)

lemma disk_ok_persister: "env_ok env \<Longrightarrow> disk_ok env N i p \<Longrightarrow> persister_ok (file_open env) p"
  by (auto simp: env_ok_def disk_ok_def persister_ok_def)

lemma node_okD:
  assumes "env_ok env" "node_ok env N i r"
  shows "raft_wf r" "persister_ok (file_open env) (m_persister r)" "m_me r = int i" "m_peers r = N"
  using assms disk_ok_persister by (auto simp: node_ok_def)

lemma evolves_node_ok: "node_ok env N i r \<Longrightarrow> evolves env r r' \<Longrightarrow> node_ok env N i r'"
  unfolding node_ok_def evolves_def stored_now_def disk_ok_def same_files_def by auto

text \<open>A restart forgets what was not on disk, and nothing else.\<close>

lemma reboot_ok:
  assumes "env_ok env" "i < N" "disk_ok env N i p" "reboot env now N i (ps_disk p) q = Inr r'"
  shows "node_ok env N i r'" "m_status r' = Follower"
    "ReadRaftState (m_persister r') = ReadRaftState p"
    "\<And>r. m_persister r = p \<Longrightarrow> mem_vote r' = disk_vote env r"
proof -
  let ?p = "Persister_new (file_open env) (int i) (ps_disk p)"
  have names: "m_raftStateFileName ?p = ''raftstatePersist'' @ int_string (int i) @ ''.txt''"
    "m_snapshotFileName ?p = ''snapshotPersist'' @ int_string (int i) @ ''.txt''"
    by (simp_all add: Persister_new_def Let_def split: prod.split)
  have "ReadRaftState p = ReadWholeFile (ps_disk p) (''raftstatePersist'' @ int_string (int i) @ ''.txt'')"
    using assms(3) unfolding disk_ok_def ReadRaftState_def by (elim conjE) (simp only:)
  then have read: "ReadRaftState ?p = ReadRaftState p"
    using Persister_new_reads(1) by (simp only:)
  have init: "init env now N (int i) ?p q = Inr r'" using assms(4) by (simp add: reboot_def)
  consider (fresh) "ReadRaftState p = []"
    | (stored) r0 where "raft_wf r0" "m_me r0 = int i" "m_peers r0 = N" "ReadRaftState p = persistData env r0"
    using assms(3) by (auto simp: disk_ok_def)
  then have "node_ok env N i r' \<and> m_status r' = Follower \<and> m_persister r' = ?p \<and>
      (\<forall>r. m_persister r = p \<longrightarrow> mem_vote r' = disk_vote env r)"
  proof cases
    case fresh
    then have "ReadRaftState ?p = []" using read by simp
    from fresh_wf [OF this _ _ init] init_fresh [OF this, of env now N "int i" q] init fresh assms(2) names
    show ?thesis by (auto simp: node_ok_def disk_ok_def read mem_vote_def disk_vote_def)
  next
    case stored
    then have "r' = restarted now ?p q r0"
      using init_persisted [OF env_okD [OF assms(1)] stored(1), of ?p now q] init read by simp
    moreover have "mem_vote r' = disk_vote env r" if "m_persister r = p" for r
      using disk_vote_persisted [OF env_okD [OF assms(1)], of r r0] that stored(4) calculation
      by (simp add: mem_vote_def restarted_def)
    ultimately show ?thesis
      using restarted_wf [OF stored(1), of now ?p q] stored names read
      by (auto simp: node_ok_def disk_ok_def restarted_def)
  qed
  then show "node_ok env N i r'" "m_status r' = Follower" "ReadRaftState (m_persister r') = ReadRaftState p"
    "\<And>r. m_persister r = p \<Longrightarrow> mem_vote r' = disk_vote env r"
    using read by auto
qed

lemma disk_vote_cong: "ReadRaftState (m_persister r') = ReadRaftState (m_persister r) \<Longrightarrow> disk_vote env r' = disk_vote env r"
  by (simp add: disk_vote_def)

section \<open>The invariant of elections\<close>

definition voted_for :: "raft_env \<Rightarrow> raft \<Rightarrow> int \<Rightarrow> nat \<Rightarrow> bool" where
  "voted_for env r t d \<longleftrightarrow> remembers (mem_vote r) t (int d) \<and> remembers (disk_vote env r) t (int d)"

definition inv_nodes :: "raft_env \<Rightarrow> nat \<Rightarrow> cluster \<Rightarrow> bool" where
  "inv_nodes env N c \<longleftrightarrow> (\<forall>i < N. node_ok env N i (nodes c i))"

definition inv_votes :: "raft_env \<Rightarrow> nat \<Rightarrow> cluster \<Rightarrow> bool" where
  "inv_votes env N c \<longleftrightarrow>
     (\<forall>s t d. (s, t, d) \<in> granted c \<longrightarrow> s < N \<and> d < N \<and> voted_for env (nodes c s) t d) \<and>
     (\<forall>s t d e. (s, t, d) \<in> granted c \<longrightarrow> (s, t, e) \<in> granted c \<longrightarrow> d = e)"

definition inv_calls :: "nat \<Rightarrow> cluster \<Rightarrow> bool" where
  "inv_calls N c \<longleftrightarrow>
     (\<forall>i s a. (i, s, a) \<in> requests c \<longrightarrow> i < N \<and> s < N \<and> s \<noteq> i \<and> rv_candidateid a = int i \<and>
        (i, rv_term a, i) \<in> granted c) \<and>
     open_calls c \<subseteq> requests c \<and>
     (\<forall>i s a b. (i, s, a) \<in> open_calls c \<longrightarrow> (i, s, b) \<in> open_calls c \<longrightarrow> rv_term a = rv_term b \<longrightarrow> a = b) \<and>
     (\<forall>i s a rep. ((i, s, a), rep) \<in> replies c \<longrightarrow> rvr_votegranted rep \<longrightarrow>
        rvr_term rep = rv_term a \<and> (s, rv_term a, i) \<in> granted c)"

definition counted_of :: "cluster \<Rightarrow> nat \<Rightarrow> int \<Rightarrow> nat set" where
  "counted_of c i t = {s. (i, t, s) \<in> counted c}"

definition inv_count :: "nat \<Rightarrow> cluster \<Rightarrow> bool" where
  "inv_count N c \<longleftrightarrow>
     (\<forall>i t s. (i, t, s) \<in> counted c \<longrightarrow> s < N \<and> s \<noteq> i \<and> (s, t, i) \<in> granted c \<and> (i, t, i) \<in> granted c) \<and>
     (\<forall>i s a. (i, s, a) \<in> open_calls c \<longrightarrow> (i, rv_term a, s) \<notin> counted c) \<and>
     (\<forall>i t. (i, t, i) \<in> granted c \<longrightarrow>
        counters c i t + (if (i, t) \<in> elected c then int (majority N) else 0) \<le> 1 + int (card (counted_of c i t))) \<and>
     (\<forall>i t. (i, t, i) \<in> granted c \<longrightarrow> 0 \<le> counters c i t) \<and>
     (\<forall>i t. (i, t) \<in> elected c \<longrightarrow> (i, t, i) \<in> granted c \<and> counted_of c i t \<noteq> {})"

definition inv_lead :: "nat \<Rightarrow> cluster \<Rightarrow> bool" where
  "inv_lead N c \<longleftrightarrow> (\<forall>i < N. m_status (nodes c i) = Leader \<longrightarrow> (i, m_currentTerm (nodes c i)) \<in> elected c)"

definition cinv :: "raft_env \<Rightarrow> nat \<Rightarrow> cluster \<Rightarrow> bool" where
  "cinv env N c \<longleftrightarrow> inv_nodes env N c \<and> inv_votes env N c \<and> inv_calls N c \<and> inv_count N c \<and> inv_lead N c"

lemma counted_of_bound:
  assumes "inv_count N c" "i < N"
  shows "finite (counted_of c i t)" "card (counted_of c i t) \<le> N - 1"
proof -
  have sub: "counted_of c i t \<subseteq> {..<N} - {i}" using assms by (auto simp: inv_count_def counted_of_def)
  then show "finite (counted_of c i t)" by (auto intro: finite_subset)
  have "card (counted_of c i t) \<le> card ({..<N} - {i})" using sub by (intro card_mono) auto
  then show "card (counted_of c i t) \<le> N - 1" using assms(2) by simp
qed

lemma inv_callsD:
  assumes "inv_calls N c"
  shows "\<And>i s a. (i, s, a) \<in> requests c \<Longrightarrow> i < N \<and> s < N \<and> s \<noteq> i \<and> rv_candidateid a = int i \<and>
        (i, rv_term a, i) \<in> granted c"
    "open_calls c \<subseteq> requests c"
    "\<And>i s a b. (i, s, a) \<in> open_calls c \<Longrightarrow> (i, s, b) \<in> open_calls c \<Longrightarrow> rv_term a = rv_term b \<Longrightarrow> a = b"
    "\<And>i s a rep. ((i, s, a), rep) \<in> replies c \<Longrightarrow> rvr_votegranted rep \<Longrightarrow>
        rvr_term rep = rv_term a \<and> (s, rv_term a, i) \<in> granted c"
  using assms unfolding inv_calls_def by blast+

lemma inv_callsI:
  assumes "\<And>i s a. (i, s, a) \<in> requests c \<Longrightarrow> i < N \<and> s < N \<and> s \<noteq> i \<and> rv_candidateid a = int i \<and>
        (i, rv_term a, i) \<in> granted c"
    "open_calls c \<subseteq> requests c"
    "\<And>i s a b. (i, s, a) \<in> open_calls c \<Longrightarrow> (i, s, b) \<in> open_calls c \<Longrightarrow> rv_term a = rv_term b \<Longrightarrow> a = b"
    "\<And>i s a rep. ((i, s, a), rep) \<in> replies c \<Longrightarrow> rvr_votegranted rep \<Longrightarrow>
        rvr_term rep = rv_term a \<and> (s, rv_term a, i) \<in> granted c"
  shows "inv_calls N c"
  unfolding inv_calls_def
proof (intro conjI)
  show "\<forall>i s a. (i, s, a) \<in> requests c \<longrightarrow> i < N \<and> s < N \<and> s \<noteq> i \<and> rv_candidateid a = int i \<and>
        (i, rv_term a, i) \<in> granted c"
    using assms(1) by blast
  show "open_calls c \<subseteq> requests c" by (rule assms(2))
  show "\<forall>i s a b. (i, s, a) \<in> open_calls c \<longrightarrow> (i, s, b) \<in> open_calls c \<longrightarrow> rv_term a = rv_term b \<longrightarrow> a = b"
    using assms(3) by blast
  show "\<forall>i s a rep. ((i, s, a), rep) \<in> replies c \<longrightarrow> rvr_votegranted rep \<longrightarrow>
        rvr_term rep = rv_term a \<and> (s, rv_term a, i) \<in> granted c"
    using assms(4) by blast
qed

lemma inv_countD:
  assumes "inv_count N c"
  shows "\<And>i t s. (i, t, s) \<in> counted c \<Longrightarrow> s < N \<and> s \<noteq> i \<and> (s, t, i) \<in> granted c \<and> (i, t, i) \<in> granted c"
    "\<And>i s a. (i, s, a) \<in> open_calls c \<Longrightarrow> (i, rv_term a, s) \<notin> counted c"
    "\<And>i t. (i, t, i) \<in> granted c \<Longrightarrow>
        counters c i t + (if (i, t) \<in> elected c then int (majority N) else 0) \<le> 1 + int (card (counted_of c i t))"
    "\<And>i t. (i, t, i) \<in> granted c \<Longrightarrow> 0 \<le> counters c i t"
    "\<And>i t. (i, t) \<in> elected c \<Longrightarrow> (i, t, i) \<in> granted c \<and> counted_of c i t \<noteq> {}"
  using assms unfolding inv_count_def by auto

lemma inv_countI:
  assumes "\<And>i t s. (i, t, s) \<in> counted c \<Longrightarrow> s < N \<and> s \<noteq> i \<and> (s, t, i) \<in> granted c \<and> (i, t, i) \<in> granted c"
    "\<And>i s a. (i, s, a) \<in> open_calls c \<Longrightarrow> (i, rv_term a, s) \<notin> counted c"
    "\<And>i t. (i, t, i) \<in> granted c \<Longrightarrow>
        counters c i t + (if (i, t) \<in> elected c then int (majority N) else 0) \<le> 1 + int (card (counted_of c i t))"
    "\<And>i t. (i, t, i) \<in> granted c \<Longrightarrow> 0 \<le> counters c i t"
    "\<And>i t. (i, t) \<in> elected c \<Longrightarrow> (i, t, i) \<in> granted c \<and> counted_of c i t \<noteq> {}"
  shows "inv_count N c"
  unfolding inv_count_def
proof (intro conjI)
  show "\<forall>i t s. (i, t, s) \<in> counted c \<longrightarrow> s < N \<and> s \<noteq> i \<and> (s, t, i) \<in> granted c \<and> (i, t, i) \<in> granted c"
    using assms(1) by blast
  show "\<forall>i s a. (i, s, a) \<in> open_calls c \<longrightarrow> (i, rv_term a, s) \<notin> counted c"
    using assms(2) by blast
  show "\<forall>i t. (i, t, i) \<in> granted c \<longrightarrow>
      counters c i t + (if (i, t) \<in> elected c then int (majority N) else 0) \<le> 1 + int (card (counted_of c i t))"
    using assms(3) by blast
  show "\<forall>i t. (i, t, i) \<in> granted c \<longrightarrow> 0 \<le> counters c i t"
    using assms(4) by blast
  show "\<forall>i t. (i, t) \<in> elected c \<longrightarrow> (i, t, i) \<in> granted c \<and> counted_of c i t \<noteq> {}"
    using assms(5) by blast
qed

text \<open>Replacing a node by what it evolves to (or by its restart).\<close>

lemma voted_for_evolves:
  "env_ok env \<Longrightarrow> evolves env r r' \<Longrightarrow> voted_for env r t d \<Longrightarrow> voted_for env r' t d"
  using evolves_remembers [of env r r' "int d" t] by (simp add: voted_for_def env_ok_def)

lemma inv_nodes_upd:
  "inv_nodes env N c \<Longrightarrow> node_ok env N i r' \<Longrightarrow> nodes c' = (nodes c)(i := r') \<Longrightarrow> inv_nodes env N c'"
  by (simp add: inv_nodes_def)

lemma inv_votes_upd:
  assumes "inv_votes env N c" "nodes c' = (nodes c)(i := r')" "granted c' = granted c"
    "\<And>t d. voted_for env (nodes c i) t d \<Longrightarrow> voted_for env r' t d"
  shows "inv_votes env N c'"
  using assms unfolding inv_votes_def by simp

lemma inv_votes_grant:
  assumes "inv_votes env N c" "nodes c' = (nodes c)(s := r')" "granted c' = insert (s, t, d) (granted c)"
    "\<And>t d. voted_for env (nodes c s) t d \<Longrightarrow> voted_for env r' t d"
    "s < N" "d < N" "voted_for env r' t d" "\<And>e. (s, t, e) \<in> granted c \<Longrightarrow> e = d"
  shows "inv_votes env N c'"
proof -
  have g: "\<And>x y z. (x, y, z) \<in> granted c \<Longrightarrow> x < N \<and> z < N \<and> voted_for env (nodes c x) y z"
    and f: "\<And>x y z w. (x, y, z) \<in> granted c \<Longrightarrow> (x, y, w) \<in> granted c \<Longrightarrow> z = w"
    using assms(1) unfolding inv_votes_def by blast+
  show ?thesis
    unfolding inv_votes_def assms(2,3)
  proof (intro conjI allI impI)
    fix x y z assume "(x, y, z) \<in> insert (s, t, d) (granted c)"
    then show "x < N" "z < N" "voted_for env (((nodes c)(s := r')) x) y z"
      using g [of x y z] assms(4-7) by (auto split: if_splits)
  next
    fix x y z w assume "(x, y, z) \<in> insert (s, t, d) (granted c)" "(x, y, w) \<in> insert (s, t, d) (granted c)"
    then show "z = w" using f [of x y z w] assms(8) by auto
  qed
qed

lemma inv_calls_grant:
  assumes "inv_calls N c" "requests c' = requests c" "open_calls c' \<subseteq> open_calls c"
    "granted c \<subseteq> granted c'"
    "\<And>i s a rep. ((i, s, a), rep) \<in> replies c' \<Longrightarrow> ((i, s, a), rep) \<notin> replies c \<Longrightarrow> rvr_votegranted rep \<Longrightarrow>
       rvr_term rep = rv_term a \<and> (s, rv_term a, i) \<in> granted c'"
  shows "inv_calls N c'"
proof -
  note inv = inv_callsD [OF assms(1)]
  show ?thesis
  proof (rule inv_callsI)
    fix i s a assume "(i, s, a) \<in> requests c'"
    then show "i < N \<and> s < N \<and> s \<noteq> i \<and> rv_candidateid a = int i \<and> (i, rv_term a, i) \<in> granted c'"
      using inv(1) [of i s a] assms(2,4) by auto
  next
    show "open_calls c' \<subseteq> requests c'" using inv(2) assms(2,3) by auto
  next
    fix i s a b assume "(i, s, a) \<in> open_calls c'" "(i, s, b) \<in> open_calls c'" "rv_term a = rv_term b"
    then show "a = b" using inv(3) [of i s a b] assms(3) by auto
  next
    fix i s a rep assume r: "((i, s, a), rep) \<in> replies c'" "rvr_votegranted rep"
    show "rvr_term rep = rv_term a \<and> (s, rv_term a, i) \<in> granted c'"
    proof (cases "((i, s, a), rep) \<in> replies c")
      case True
      then show ?thesis using inv(4) [OF True r(2)] assms(4) by auto
    next
      case False
      then show ?thesis using assms(5) [OF r(1) _ r(2)] by blast
    qed
  qed
qed

lemma inv_count_grant:
  assumes "inv_count N c" "open_calls c' \<subseteq> open_calls c" "counters c' = counters c" "counted c' = counted c"
    "elected c' = elected c" "granted c \<subseteq> granted c'" "\<And>i t. (i, t, i) \<in> granted c' \<Longrightarrow> (i, t, i) \<in> granted c"
  shows "inv_count N c'"
proof -
  note inv = inv_countD [OF assms(1)]
  have co: "counted_of c' = counted_of c" using assms(4) by (intro ext) (simp add: counted_of_def)
  show ?thesis
  proof (rule inv_countI)
    fix i t s assume "(i, t, s) \<in> counted c'"
    then show "s < N \<and> s \<noteq> i \<and> (s, t, i) \<in> granted c' \<and> (i, t, i) \<in> granted c'"
      using inv(1) [of i t s] assms(4,6) by auto
  next
    fix i s a assume "(i, s, a) \<in> open_calls c'"
    then show "(i, rv_term a, s) \<notin> counted c'" using inv(2) [of i s a] assms(2,4) by auto
  next
    fix i t assume "(i, t, i) \<in> granted c'"
    from assms(7) [OF this] have g: "(i, t, i) \<in> granted c" .
    show "counters c' i t + (if (i, t) \<in> elected c' then int (majority N) else 0)
        \<le> 1 + int (card (counted_of c' i t))" "0 \<le> counters c' i t"
      unfolding co assms(3,5) using inv(3,4) [OF g] .
  next
    fix i t assume "(i, t) \<in> elected c'"
    then show "(i, t, i) \<in> granted c' \<and> counted_of c' i t \<noteq> {}"
      using inv(5) [of i t] assms(5,6) co by auto
  qed
qed

lemma inv_lead_upd:
  assumes "inv_lead N c" "nodes c' = (nodes c)(i := r')" "elected c \<subseteq> elected c'"
    "m_status r' = Leader \<Longrightarrow> (i, m_currentTerm r') \<in> elected c'"
  shows "inv_lead N c'"
  using assms by (auto simp: inv_lead_def)

end
