(* ===== verification/Raft_Safety.thy ===== *)
theory Raft_Safety
  imports Raft_Election
begin

text \<open>
  The invariant of elections holds in every reachable state: one lemma per kind of step, then
  election safety.
\<close>

lemma cinvI:
  "inv_nodes env N c \<Longrightarrow> inv_votes env N c \<Longrightarrow> inv_calls N c \<Longrightarrow> inv_count N c \<Longrightarrow> inv_lead N c \<Longrightarrow> cinv env N c"
  by (simp add: cinv_def)

lemma cinvD:
  assumes "cinv env N c"
  shows "inv_nodes env N c" "inv_votes env N c" "inv_calls N c" "inv_count N c" "inv_lead N c"
    "\<And>i. i < N \<Longrightarrow> node_ok env N i (nodes c i)"
  using assms by (simp_all add: cinv_def inv_nodes_def)

lemma inv_votesD:
  assumes "inv_votes env N c" "(s, t, d) \<in> granted c"
  shows "s < N" "d < N" "voted_for env (nodes c s) t d" "(s, t, e) \<in> granted c \<Longrightarrow> d = e"
  using assms unfolding inv_votes_def by blast+

text \<open>A candidate has not voted in a later term than its own.\<close>

lemma granted_term: "inv_votes env N c \<Longrightarrow> (s, t, d) \<in> granted c \<Longrightarrow> t \<le> m_currentTerm (nodes c s)"
  using inv_votesD(3) [of env N c s t d] by (simp add: voted_for_def remembers_def mem_vote_def)

lemma cinv_local:
  assumes "env_ok env" "cinv env N c" "i < N" "local_step env (nodes c i) r'"
  shows "cinv env N (c\<lparr>nodes := (nodes c)(i := r')\<rparr>)"
proof -
  let ?c = "c\<lparr>nodes := (nodes c)(i := r')\<rparr>"
  note inv = cinvD [OF assms(2)]
  note ok = node_okD [OF assms(1) inv(6) [OF assms(3)]]
  have ev: "evolves env (nodes c i) r'" using local_step_evolves [OF assms(4) ok(1,2)] .
  have up: "nodes ?c = (nodes c)(i := r')" by simp
  show ?thesis
  proof (rule cinvI)
    show "inv_nodes env N ?c" using inv_nodes_upd [OF inv(1) evolves_node_ok [OF inv(6) [OF assms(3)] ev] up] .
    show "inv_votes env N ?c"
      using inv_votes_upd [OF inv(2) up] voted_for_evolves [OF assms(1) ev] by simp
    show "inv_calls N ?c" using inv_calls_grant [OF inv(3), of ?c] by simp
    show "inv_count N ?c" using inv_count_grant [OF inv(4), of ?c] by simp
    show "inv_lead N ?c"
    proof (rule inv_lead_upd [OF inv(5) up])
      assume "m_status r' = Leader"
      from local_step_leader [OF assms(4) ok(1) this] show "(i, m_currentTerm r') \<in> elected ?c"
        using inv(5) assms(3) by (simp add: inv_lead_def)
    qed simp
  qed
qed

lemma cinv_restart:
  assumes "env_ok env" "cinv env N c" "i < N"
    "reboot env now N i (ps_disk (m_persister (nodes c i))) q = Inr r'"
  shows "cinv env N (c\<lparr>nodes := (nodes c)(i := r'), open_calls := {cl \<in> open_calls c. fst cl \<noteq> i}\<rparr>)"
proof -
  let ?c = "c\<lparr>nodes := (nodes c)(i := r'), open_calls := {cl \<in> open_calls c. fst cl \<noteq> i}\<rparr>"
  note inv = cinvD [OF assms(2)]
  have d: "disk_ok env N i (m_persister (nodes c i))" using inv(6) [OF assms(3)] by (simp add: node_ok_def)
  note r = reboot_ok [OF assms(1,3) d assms(4)]
  have up: "nodes ?c = (nodes c)(i := r')" by simp
  show ?thesis
  proof (rule cinvI)
    show "inv_nodes env N ?c" using inv_nodes_upd [OF inv(1) r(1) up] .
    have "voted_for env r' t e" if "voted_for env (nodes c i) t e" for t e
      using that r(4) [OF refl] disk_vote_cong [OF r(3), of env] by (simp add: voted_for_def)
    then show "inv_votes env N ?c" using inv_votes_upd [OF inv(2) up] by simp
    show "inv_calls N ?c" using inv_calls_grant [OF inv(3), of ?c] by auto
    show "inv_count N ?c" using inv_count_grant [OF inv(4), of ?c] by auto
    show "inv_lead N ?c" using inv_lead_upd [OF inv(5) up] r(2) by simp
  qed
qed

lemma cinv_lost:
  assumes "cinv env N c"
  shows "cinv env N (c\<lparr>open_calls := open_calls c - S\<rparr>)"
proof -
  let ?c = "c\<lparr>open_calls := open_calls c - S\<rparr>"
  note inv = cinvD [OF assms]
  show ?thesis
  proof (rule cinvI)
    show "inv_nodes env N ?c" using inv(1) by (simp add: inv_nodes_def)
    show "inv_votes env N ?c" using inv(2) by (simp add: inv_votes_def)
    show "inv_calls N ?c" using inv_calls_grant [OF inv(3), of ?c] by auto
    show "inv_count N ?c" using inv_count_grant [OF inv(4), of ?c] by auto
    show "inv_lead N ?c" using inv(5) by (simp add: inv_lead_def)
  qed
qed

lemma cinv_vote:
  assumes "env_ok env" "cinv env N c" "(i, s, args) \<in> requests c"
    "RequestVote env now args (nodes c s) = Inr (r', reply)"
  shows "cinv env N (c\<lparr>nodes := (nodes c)(s := r'), replies := insert ((i, s, args), reply) (replies c),
      granted := (if rvr_votegranted reply then insert (s, rv_term args, i) (granted c) else granted c)\<rparr>)"
proof -
  let ?c = "c\<lparr>nodes := (nodes c)(s := r'), replies := insert ((i, s, args), reply) (replies c),
      granted := (if rvr_votegranted reply then insert (s, rv_term args, i) (granted c) else granted c)\<rparr>"
  note inv = cinvD [OF assms(2)]
  have rq: "i < N" "s < N" "s \<noteq> i" "rv_candidateid args = int i" "(i, rv_term args, i) \<in> granted c"
    using inv_callsD(1) [OF inv(3) assms(3)] by auto
  note ok = node_okD [OF assms(1) inv(6) [OF rq(2)]]
  note ev = RequestVote_evolves [OF ok(1,2) assms(4)]
  have up: "nodes ?c = (nodes c)(s := r')" by simp
  have keeps: "\<And>t d. voted_for env (nodes c s) t d \<Longrightarrow> voted_for env r' t d"
    using voted_for_evolves [OF assms(1) ev(1)] .
  show ?thesis
  proof (rule cinvI)
    show "inv_nodes env N ?c" using inv_nodes_upd [OF inv(1) evolves_node_ok [OF inv(6) [OF rq(2)] ev(1)] up] .
    show "inv_votes env N ?c"
    proof (cases "rvr_votegranted reply")
      case False
      then show ?thesis using inv_votes_upd [OF inv(2) up _ keeps] by simp
    next
      case True
      note g = ev(2) [OF True]
      have new: "voted_for env r' (rv_term args) i"
        using g rq(4) env_okD [OF assms(1)] by (simp add: voted_for_def remembers_def)
      have "e = i" if "(s, rv_term args, e) \<in> granted c" for e
      proof -
        have le: "rv_term args \<le> m_currentTerm (nodes c s)" using granted_term [OF inv(2) that] .
        then have t: "m_currentTerm (nodes c s) = rv_term args" using g by simp
        then have "m_votedFor (nodes c s) = int e"
          using inv_votesD(3) [OF inv(2) that] by (simp add: voted_for_def remembers_def mem_vote_def)
        then show "e = i" using g t rq(4) by auto
      qed
      then show ?thesis using inv_votes_grant [OF inv(2) up _ keeps rq(2,1) new] True by simp
    qed
    show "inv_calls N ?c"
    proof (rule inv_calls_grant [OF inv(3)])
      fix j x a rep assume "((j, x, a), rep) \<in> replies ?c" "((j, x, a), rep) \<notin> replies c" "rvr_votegranted rep"
      then show "rvr_term rep = rv_term a \<and> (x, rv_term a, j) \<in> granted ?c" using ev(2) by auto
    qed auto
    show "inv_count N ?c"
      by (rule inv_count_grant [OF inv(4)]) (use rq(3) in \<open>auto split: if_splits\<close>)
    show "inv_lead N ?c"
      using inv_lead_upd [OF inv(5) up] ev(3) inv(5) rq(2) by (simp add: inv_lead_def)
  qed
qed

lemma calls_ofD: "(j, s, a) \<in> calls_of i reqs \<Longrightarrow> j = i \<and> (\<exists>x. (x, a) \<in> set reqs \<and> nat x = s)"
  by (force simp: calls_of_def)

lemma cinv_elect:
  assumes "env_ok env" "cinv env N c" "i < N" "doElection env now (nodes c i) = (r', Some (v, reqs))"
  shows "cinv env N (c\<lparr>nodes := (nodes c)(i := r'), requests := requests c \<union> calls_of i reqs,
      open_calls := open_calls c \<union> calls_of i reqs,
      counters := (counters c)(i := (counters c i)(m_currentTerm r' := v)),
      granted := insert (i, m_currentTerm r', i) (granted c)\<rparr>)"
proof -
  let ?t = "m_currentTerm r'"
  let ?c = "c\<lparr>nodes := (nodes c)(i := r'), requests := requests c \<union> calls_of i reqs,
      open_calls := open_calls c \<union> calls_of i reqs,
      counters := (counters c)(i := (counters c i)(?t := v)), granted := insert (i, ?t, i) (granted c)\<rparr>"
  note inv = cinvD [OF assms(2)]
  note ok = node_okD [OF assms(1) inv(6) [OF assms(3)]]
  note el = doElection_evolves [OF ok(1,2) assms(4)]
  have up: "nodes ?c = (nodes c)(i := r')" by simp
  have fresh: "(i, ?t, e) \<notin> granted c" for e
    using granted_term [OF inv(2), of i ?t e] el(2) by auto
  have call: "rv_term a = ?t \<and> rv_candidateid a = int i \<and> j = i \<and> s < N \<and> s \<noteq> i"
    if "(j, s, a) \<in> calls_of i reqs" for j s a
    using that el(6) ok(3,4) by (force simp: calls_of_def)
  have old: "rv_term a \<noteq> ?t" if "(i, s, a) \<in> open_calls c" for s a
    using inv_callsD(1) [OF inv(3), of i s a] inv_callsD(2) [OF inv(3)] that fresh by auto
  have same: "a = b" if c: "(i, s, a) \<in> calls_of i reqs" "(i, s, b) \<in> calls_of i reqs" for s a b
  proof -
    obtain x y where "(x, a) \<in> set reqs" "(y, b) \<in> set reqs" "nat x = s" "nat y = s"
      using calls_ofD [OF c(1)] calls_ofD [OF c(2)] by blast
    moreover from this have "x = y" using el(6) by (metis nat_eq_iff2 order.trans nat_0_le)
    ultimately show ?thesis using el(8) by blast
  qed
  have none: "counted_of c i ?t = {}" using inv_countD(1) [OF inv(4), of i ?t] fresh by (auto simp: counted_of_def)
  have noel: "(i, ?t) \<notin> elected c" using inv_countD(5) [OF inv(4), of i ?t] fresh by auto
  show ?thesis
  proof (rule cinvI)
    show "inv_nodes env N ?c" using inv_nodes_upd [OF inv(1) evolves_node_ok [OF inv(6) [OF assms(3)] el(1)] up] .
    have "voted_for env r' ?t i"
      using el(2,3) el(7) [OF env_okD [OF assms(1)]] ok(3) by (simp add: voted_for_def remembers_def mem_vote_def)
    then show "inv_votes env N ?c"
      using inv_votes_grant [OF inv(2) up, where t = ?t and d = i] voted_for_evolves [OF assms(1) el(1)] assms(3) fresh
      by simp
    show "inv_calls N ?c"
    proof (rule inv_callsI)
      fix j s a assume "(j, s, a) \<in> requests ?c"
      then show "j < N \<and> s < N \<and> s \<noteq> j \<and> rv_candidateid a = int j \<and> (j, rv_term a, j) \<in> granted ?c"
        using inv_callsD(1) [OF inv(3), of j s a] call [of j s a] assms(3) by auto
    next
      show "open_calls ?c \<subseteq> requests ?c" using inv_callsD(2) [OF inv(3)] by auto
    next
      fix j s a b assume "(j, s, a) \<in> open_calls ?c" "(j, s, b) \<in> open_calls ?c" "rv_term a = rv_term b"
      then show "a = b"
        using inv_callsD(3) [OF inv(3), of j s a b] call [of j s a] call [of j s b] old [of s a] old [of s b]
          same [of s a b] by auto
    next
      fix j s a rep assume "((j, s, a), rep) \<in> replies ?c" "rvr_votegranted rep"
      then show "rvr_term rep = rv_term a \<and> (s, rv_term a, j) \<in> granted ?c"
        using inv_callsD(4) [OF inv(3), of j s a rep] by auto
    qed
    show "inv_count N ?c"
    proof (rule inv_countI)
      fix j t s assume "(j, t, s) \<in> counted ?c"
      then show "s < N \<and> s \<noteq> j \<and> (s, t, j) \<in> granted ?c \<and> (j, t, j) \<in> granted ?c"
        using inv_countD(1) [OF inv(4), of j t s] by auto
    next
      fix j s a assume "(j, s, a) \<in> open_calls ?c"
      then show "(j, rv_term a, s) \<notin> counted ?c"
        using inv_countD(2) [OF inv(4), of j s a] call [of j s a] none by (auto simp: counted_of_def)
    next
      fix j t assume g: "(j, t, j) \<in> granted ?c"
      have co: "counted_of ?c j t = counted_of c j t" by (simp add: counted_of_def)
      show "counters ?c j t + (if (j, t) \<in> elected ?c then int (majority N) else 0) \<le> 1 + int (card (counted_of ?c j t))"
        using inv_countD(3) [OF inv(4), of j t] g noel el(5) unfolding co
        by (cases "j = i \<and> t = ?t") auto
      show "0 \<le> counters ?c j t"
        using inv_countD(4) [OF inv(4), of j t] g el(5) by (cases "j = i \<and> t = ?t") auto
    next
      fix j t assume "(j, t) \<in> elected ?c"
      then show "(j, t, j) \<in> granted ?c \<and> counted_of ?c j t \<noteq> {}"
        using inv_countD(5) [OF inv(4), of j t] by (auto simp: counted_of_def)
    qed
    show "inv_lead N ?c" using inv_lead_upd [OF inv(5) up] el(4) by simp
  qed
qed

text \<open>Counting a granted vote.\<close>

lemma counted_of_insert:
  assumes "counted c' = insert (i, t, s) (counted c)"
  shows "counted_of c' j u = (if j = i \<and> u = t then insert s (counted_of c i t) else counted_of c j u)"
  using assms by (auto simp: counted_of_def)

lemma twice_majority: "N < 2 * majority N"
  by (simp add: majority_def)

lemma cinv_count:
  assumes "env_ok env" "cinv env N c" "(i, s, args) \<in> open_calls c" "((i, s, args), reply) \<in> replies c"
    "rvr_votegranted reply" "rvr_term reply = m_currentTerm (nodes c i)"
  defines "n \<equiv> counters c i (rv_term args)"
  shows "sendRequestVote env (Some reply) n (nodes c i) = Inr
      (if wins (nodes c i) (n + 1) then (become_leader env (nodes c i), 0, True) else (nodes c i, n + 1, False))"
    and "inv_count N (c\<lparr>nodes := ns, open_calls := open_calls c - {(i, s, args)},
      counters := (counters c)(i := (counters c i)(rv_term args := if wins (nodes c i) (n + 1) then 0 else n + 1)),
      counted := insert (i, rv_term args, s) (counted c),
      elected := (if wins (nodes c i) (n + 1) then insert (i, rv_term args) (elected c) else elected c)\<rparr>)"
    (is "inv_count N ?c")
proof -
  let ?t = "rv_term args" and ?r = "nodes c i"
  note inv = cinvD [OF assms(2)]
  note cnt = inv_countD [OF inv(4)]
  have rq: "(i, s, args) \<in> requests c" using inv_callsD(2) [OF inv(3)] assms(3) by blast
  have i: "i < N" "s < N" "s \<noteq> i" "(i, ?t, i) \<in> granted c"
    using inv_callsD(1) [OF inv(3) rq] by auto
  have sg: "rvr_term reply = ?t" "(s, ?t, i) \<in> granted c"
    using inv_callsD(4) [OF inv(3) assms(4,5)] by auto
  note ok = node_okD [OF assms(1) inv(6) [OF i(1)]]
  have new: "s \<notin> counted_of c i ?t" using cnt(2) [OF assms(3)] by (simp add: counted_of_def)
  note bound = counted_of_bound [OF inv(4) i(1), of ?t]
  have card: "card (insert s (counted_of c i ?t)) = Suc (card (counted_of c i ?t))" "Suc (card (counted_of c i ?t)) \<le> N - 1"
  proof -
    show "card (insert s (counted_of c i ?t)) = Suc (card (counted_of c i ?t))" using new bound(1) by simp
    have "insert s (counted_of c i ?t) \<subseteq> {..<N} - {i}" using i cnt(1) [of i ?t] by (auto simp: counted_of_def)
    then have "card (insert s (counted_of c i ?t)) \<le> card ({..<N} - {i})" by (intro card_mono) auto
    then show "Suc (card (counted_of c i ?t)) \<le> N - 1" using new bound(1) i(1) by simp
  qed
  have w: "wins ?r k \<longleftrightarrow> int (majority N) \<le> k" for k by (simp add: wins_def ok(4) majority_def)
  note sum = cnt(3) [OF i(4), folded n_def]
  have nonneg: "0 \<le> n" using cnt(4) [OF i(4)] by (simp add: n_def)
  have first: "(i, ?t) \<notin> elected c" if "wins ?r (n + 1)"
  proof
    assume "(i, ?t) \<in> elected c"
    then have "n + int (majority N) \<le> 1 + int (card (counted_of c i ?t))" using sum by simp
    moreover have "int (majority N) \<le> n + 1" using that w by simp
    moreover have "int N < 2 * int (majority N)" using twice_majority [of N] by simp
    ultimately show False using card(2) i(1) by linarith
  qed
  have notleader: "m_status ?r \<noteq> Leader" if "wins ?r (n + 1)"
    using first [OF that] inv(5) i(1) sg(1) assms(6) by (auto simp: inv_lead_def)
  show "sendRequestVote env (Some reply) n ?r = Inr
      (if wins ?r (n + 1) then (become_leader env ?r, 0, True) else (?r, n + 1, False))"
    using notleader assms(5,6) by (simp add: sendRequestVote_eq [OF ok(1)])
  have co: "counted_of ?c j u = (if j = i \<and> u = ?t then insert s (counted_of c i ?t) else counted_of c j u)" for j u
    by (rule counted_of_insert) simp
  show "inv_count N ?c"
  proof (rule inv_countI)
    fix j t x assume "(j, t, x) \<in> counted ?c"
    then show "x < N \<and> x \<noteq> j \<and> (x, t, j) \<in> granted ?c \<and> (j, t, j) \<in> granted ?c"
      using cnt(1) [of j t x] i sg by auto
  next
    fix j x a assume a: "(j, x, a) \<in> open_calls ?c"
    then have "a = args" if "j = i" "x = s" "rv_term a = ?t"
      using inv_callsD(3) [OF inv(3), of i s a args] assms(3) that by auto
    then show "(j, rv_term a, x) \<notin> counted ?c" using a cnt(2) [of j x a] by auto
  next
    fix j t assume g: "(j, t, j) \<in> granted ?c"
    then have gc: "(j, t, j) \<in> granted c" by simp
    show "counters ?c j t + (if (j, t) \<in> elected ?c then int (majority N) else 0) \<le> 1 + int (card (counted_of ?c j t))"
    proof (cases "j = i \<and> t = ?t")
      case True
      then show ?thesis unfolding co using sum first card(1) w by (auto split: if_splits)
    next
      case False
      then show ?thesis unfolding co using cnt(3) [OF gc] by auto
    qed
    show "0 \<le> counters ?c j t" using cnt(4) [OF gc] nonneg by auto
  next
    fix j t assume "(j, t) \<in> elected ?c"
    then show "(j, t, j) \<in> granted ?c \<and> counted_of ?c j t \<noteq> {}"
      unfolding co using cnt(5) [of j t] i(4) by (auto split: if_splits)
  qed
qed

lemma cinv_reply:
  assumes "env_ok env" "cinv env N c" "(i, s, args) \<in> open_calls c" "((i, s, args), reply) \<in> replies c"
    "sendRequestVote env (Some reply) (counters c i (rv_term args)) (nodes c i) = Inr (r', n, hb)"
  shows "cinv env N (c\<lparr>nodes := (nodes c)(i := r'), open_calls := open_calls c - {(i, s, args)},
      counters := (counters c)(i := (counters c i)(rv_term args := n)),
      counted := (if rvr_votegranted reply \<and> rvr_term reply = m_currentTerm (nodes c i)
                  then insert (i, rv_term args, s) (counted c) else counted c),
      elected := (if hb then insert (i, rv_term args) (elected c) else elected c)\<rparr>)"
proof -
  let ?c = "c\<lparr>nodes := (nodes c)(i := r'), open_calls := open_calls c - {(i, s, args)},
      counters := (counters c)(i := (counters c i)(rv_term args := n)),
      counted := (if rvr_votegranted reply \<and> rvr_term reply = m_currentTerm (nodes c i)
                  then insert (i, rv_term args, s) (counted c) else counted c),
      elected := (if hb then insert (i, rv_term args) (elected c) else elected c)\<rparr>"
  note inv = cinvD [OF assms(2)]
  have rq: "(i, s, args) \<in> requests c" using inv_callsD(2) [OF inv(3)] assms(3) by blast
  have i: "i < N" using inv_callsD(1) [OF inv(3) rq] by auto
  note ok = node_okD [OF assms(1) inv(6) [OF i]]
  have ev: "evolves env (nodes c i) r'" using sendRequestVote_evolves [OF ok(1,2) assms(5)] .
  have up: "nodes ?c = (nodes c)(i := r')" by simp
  show ?thesis
  proof (rule cinvI)
    show "inv_nodes env N ?c" using inv_nodes_upd [OF inv(1) evolves_node_ok [OF inv(6) [OF i] ev] up] .
    show "inv_votes env N ?c"
      using inv_votes_upd [OF inv(2) up] voted_for_evolves [OF assms(1) ev] by simp
    show "inv_calls N ?c" by (rule inv_calls_grant [OF inv(3)]) auto
    have "inv_count N ?c \<and> inv_lead N ?c"
    proof (cases "rvr_votegranted reply \<and> rvr_term reply = m_currentTerm (nodes c i)")
      case True
      then have g: "rvr_votegranted reply" "rvr_term reply = m_currentTerm (nodes c i)" by auto
      note count = cinv_count [OF assms(1-4) g]
      have t: "m_currentTerm (nodes c i) = rv_term args" using inv_callsD(4) [OF inv(3) assms(4) g(1)] g(2) by simp
      let ?w = "wins (nodes c i) (counters c i (rv_term args) + 1)"
      have eq: "hb = ?w" "n = (if ?w then 0 else counters c i (rv_term args) + 1)"
        "r' = (if ?w then become_leader env (nodes c i) else nodes c i)"
        using assms(5) count(1) by (auto split: if_splits)
      have "inv_count N ?c" using count(2) [of "(nodes c)(i := r')"] True eq(1,2) by simp
      moreover have "inv_lead N ?c"
      proof (rule inv_lead_upd [OF inv(5) up])
        assume "m_status r' = Leader"
        then show "(i, m_currentTerm r') \<in> elected ?c"
          using eq inv(5) i t by (auto simp: inv_lead_def become_leader_def)
      qed auto
      ultimately show ?thesis ..
    next
      case False
      then have r: "r' = nodes c i \<or> m_status r' = Follower" "n = counters c i (rv_term args)" "\<not> hb"
        using assms(5) unfolding sendRequestVote_eq [OF ok(1)] by (auto simp: step_down_def split: if_splits)
      have "inv_count N ?c"
        by (rule inv_count_grant [OF inv(4)]) (use r False in \<open>auto simp: fun_upd_idem\<close>)
      moreover have "inv_lead N ?c"
        by (rule inv_lead_upd [OF inv(5) up]) (use r inv(5) i in \<open>auto simp: inv_lead_def\<close>)
      ultimately show ?thesis ..
    qed
    then show "inv_count N ?c" "inv_lead N ?c" by auto
  qed
qed

section \<open>Reachable states\<close>

lemma cinv_step:
  assumes "env_ok env" "cinv env N c" "cstep env N c c'"
  shows "cinv env N c'"
  using assms(3)
proof (rule cstepE)
  fix i r' assume "c' = c\<lparr>nodes := (nodes c)(i := r')\<rparr>" "i < N" "local_step env (nodes c i) r'"
  then show ?thesis using cinv_local [OF assms(1,2)] by simp
next
  fix i now r' v reqs
  assume "c' = c\<lparr>nodes := (nodes c)(i := r'), requests := requests c \<union> calls_of i reqs,
      open_calls := open_calls c \<union> calls_of i reqs,
      counters := (counters c)(i := (counters c i)(m_currentTerm r' := v)),
      granted := insert (i, m_currentTerm r', i) (granted c)\<rparr>"
    "i < N" "doElection env now (nodes c i) = (r', Some (v, reqs))"
  then show ?thesis using cinv_elect [OF assms(1,2)] by simp
next
  fix i s args now r' reply
  assume "c' = c\<lparr>nodes := (nodes c)(s := r'), replies := insert ((i, s, args), reply) (replies c),
      granted := (if rvr_votegranted reply then insert (s, rv_term args, i) (granted c) else granted c)\<rparr>"
    "(i, s, args) \<in> requests c" "RequestVote env now args (nodes c s) = Inr (r', reply)"
  then show ?thesis using cinv_vote [OF assms(1,2)] by blast
next
  fix i s args reply r' n hb
  assume "c' = c\<lparr>nodes := (nodes c)(i := r'), open_calls := open_calls c - {(i, s, args)},
      counters := (counters c)(i := (counters c i)(rv_term args := n)),
      counted := (if rvr_votegranted reply \<and> rvr_term reply = m_currentTerm (nodes c i)
                  then insert (i, rv_term args, s) (counted c) else counted c),
      elected := (if hb then insert (i, rv_term args) (elected c) else elected c)\<rparr>"
    "(i, s, args) \<in> open_calls c" "((i, s, args), reply) \<in> replies c"
    "sendRequestVote env (Some reply) (counters c i (rv_term args)) (nodes c i) = Inr (r', n, hb)"
  then show ?thesis using cinv_reply [OF assms(1,2)] by blast
next
  fix i s args assume "c' = c\<lparr>open_calls := open_calls c - {(i, s, args)}\<rparr>"
  then show ?thesis using cinv_lost [OF assms(2)] by simp
next
  fix i now q r'
  assume "c' = c\<lparr>nodes := (nodes c)(i := r'), open_calls := {cl \<in> open_calls c. fst cl \<noteq> i}\<rparr>" "i < N"
    "reboot env now N i (ps_disk (m_persister (nodes c i))) q = Inr r'"
  then show ?thesis using cinv_restart [OF assms(1,2)] by blast
qed

lemma cinv_init:
  assumes "env_ok env" "cluster_init env now N c"
  shows "cinv env N c"
proof -
  have sets: "requests c = {}" "replies c = {}" "open_calls c = {}" "granted c = {}" "counted c = {}" "elected c = {}"
    and boot: "\<And>i. i < N \<Longrightarrow> reboot env now N i (\<lambda>_. None) [] = Inr (nodes c i)"
    using assms(2) by (auto simp: cluster_init_def)
  have node: "node_ok env N i (nodes c i) \<and> m_status (nodes c i) = Follower" if "i < N" for i
  proof -
    let ?p = "\<lparr>m_raftStateFileName = ''raftstatePersist'' @ int_string (int i) @ ''.txt'',
      m_snapshotFileName = ''snapshotPersist'' @ int_string (int i) @ ''.txt'', m_raftStateOutStream = True,
      m_snapshotOutStream = True, m_raftStateSize = 0, ps_disk = \<lambda>_. None\<rparr>"
    have "disk_ok env N i ?p" by (simp add: disk_ok_def ReadRaftState_def ReadWholeFile_def)
    moreover have "reboot env now N i (ps_disk ?p) [] = Inr (nodes c i)" using boot [OF that] by simp
    ultimately show ?thesis using reboot_ok(1,2) [OF assms(1) that] by blast
  qed
  show ?thesis
    using node by (intro cinvI) (simp_all add: inv_nodes_def inv_votes_def inv_calls_def inv_count_def inv_lead_def sets)
qed

lemma reachable_cinv:
  assumes "creach env N c" "env_ok env"
  shows "cinv env N c"
  using assms by induction (auto intro: cinv_init cinv_step)

text \<open>The voters that made a node leader.\<close>

lemma leader_has_majority:
  assumes "cinv env N c" "i < N" "m_status (nodes c i) = Leader"
  shows "majority_of N {s. (s, m_currentTerm (nodes c i), i) \<in> granted c}"
proof -
  let ?t = "m_currentTerm (nodes c i)"
  note inv = cinvD [OF assms(1)]
  have el: "(i, ?t) \<in> elected c" using inv(5) assms(2,3) by (simp add: inv_lead_def)
  note cnt = inv_countD [OF inv(4)]
  have self: "(i, ?t, i) \<in> granted c" using cnt(5) [OF el] by simp
  have "int (majority N) \<le> 1 + int (card (counted_of c i ?t))" using cnt(3,4) [OF self] el by simp
  moreover have "i \<notin> counted_of c i ?t" using cnt(1) [of i ?t i] by (auto simp: counted_of_def)
  moreover have "finite (counted_of c i ?t)" by (rule counted_of_bound(1) [OF inv(4) assms(2)])
  ultimately have "majority N \<le> card (insert i (counted_of c i ?t))" by simp
  moreover have sub: "{s. (s, ?t, i) \<in> granted c} \<subseteq> {..<N}" using inv_votesD(1) [OF inv(2)] by auto
  moreover have "insert i (counted_of c i ?t) \<subseteq> {s. (s, ?t, i) \<in> granted c}"
    using self cnt(1) by (auto simp: counted_of_def)
  ultimately show ?thesis
    unfolding majority_of_def by (meson card_mono finite_lessThan finite_subset order_trans)
qed

lemma one_leader:
  assumes "cinv env N c" "i < N" "j < N" "m_status (nodes c i) = Leader" "m_status (nodes c j) = Leader"
    "m_currentTerm (nodes c i) = m_currentTerm (nodes c j)"
  shows "i = j"
proof (rule majorities.unique_winner)
  show "x = y" if "(s, m_currentTerm (nodes c i), x) \<in> granted c" "(s, m_currentTerm (nodes c i), y) \<in> granted c"
    for s x y
    using inv_votesD(4) [OF cinvD(2) [OF assms(1)] that] .
  show "majority_of N {s. (s, m_currentTerm (nodes c i), i) \<in> granted c}"
    using leader_has_majority [OF assms(1,2,4)] .
  show "majority_of N {s. (s, m_currentTerm (nodes c i), j) \<in> granted c}"
    using leader_has_majority [OF assms(1,3,5)] assms(6) by simp
qed auto

end
