(* ===== verification/Raft_Props.thy ===== *)
theory Raft_Props
  imports Raft_Safety Archive_Instance
begin

text \<open>
  The properties of the Raft node and of the cluster, with concrete runs.  The runs use the
  environment \<open>demo_env\<close> and clusters of three nodes.
\<close>

section \<open>Concrete runs\<close>

lemma demo_env_ok: "env_ok demo_env"
  by (simp add: env_ok_def demo_codecs_ok)

definition boot_node :: "raft_env \<Rightarrow> nat \<Rightarrow> nat \<Rightarrow> raft" where
  "boot_node env N i =
     \<lparr>m_peers = N, m_persister = Persister_new (file_open env) (int i) (\<lambda>_. None), m_me = int i, m_currentTerm = 0,
      m_votedFor = -1, m_logs = [], m_commitIndex = 0, m_lastApplied = 0, m_nextIndex = replicate N 0,
      m_matchIndex = replicate N 0, m_status = Follower, applyChan = [],
      m_lastResetElectionTime = 0, m_lastResetHearBeatTime = 0,
      m_lastSnapshotIncludeIndex = 0, m_lastSnapshotIncludeTerm = 0\<rparr>"

definition boot_cluster :: "raft_env \<Rightarrow> nat \<Rightarrow> cluster" where
  "boot_cluster env N = \<lparr>nodes = boot_node env N, requests = {}, replies = {}, open_calls = {},
     counters = (\<lambda>_ _. 0), granted = {}, counted = {}, elected = {}\<rparr>"

lemma boot_node_init: "reboot env 0 N i (\<lambda>_. None) [] = Inr (boot_node env N i)"
proof -
  have "ReadRaftState (Persister_new (file_open env) (int i) (\<lambda>_. None)) = []"
    by (simp add: Persister_new_reads ReadWholeFile_def)
  then show ?thesis by (simp add: reboot_def init_fresh boot_node_def)
qed

lemma boot_cluster_reach: "creach env N (boot_cluster env N)"
  by (rule reach_init [of _ 0]) (simp add: cluster_init_def boot_cluster_def boot_node_init)

text \<open>Node 0 of three stands for election, node 1 votes for it, the reply makes it leader.\<close>

definition vote_args :: RequestVoteArgs where
  "vote_args = \<lparr>rv_term = 1, rv_candidateid = 0, rv_lastlogindex = 0, rv_lastlogterm = 0\<rparr>"

lemma three_peers: "[0..int 3 - 1] = [0, 1, 2]" "[0..2::int] = [0, 1, 2]"
  by (simp_all add: upto_rec1)

lemma boot_election:
  "doElection env 0 (boot_node env 3 0) =
     (fst (doElection env 0 (boot_node env 3 0)), Some (1, [(1, vote_args), (2, vote_args)]))"
  "m_currentTerm (fst (doElection env 0 (boot_node env 3 0))) = 1"
  "m_status (fst (doElection env 0 (boot_node env 3 0))) = Candidate"
  unfolding doElection_def boot_node_def Let_def raft.simps persist_fields three_peers
  by (simp_all add: getLastLogIndexAndTerm_def vote_args_def three_peers(2))

lemma boot_vote:
  "RequestVote env 0 vote_args (boot_node env 3 1) =
     Inr (persist env ((step_down 1 (boot_node env 3 1))\<lparr>m_votedFor := 0, m_lastResetElectionTime := 0\<rparr>),
          \<lparr>rvr_term = 1, rvr_votegranted = True, rvr_votestate = Normal\<rparr>)"
  by (simp add: RequestVote_eq Let_def vote_args_def UpToDate_def getLastLogIndexAndTerm_def)
    (simp add: boot_node_def step_down_def)

lemma reply_step:
  assumes "(i, s, args) \<in> open_calls c" "((i, s, args), reply) \<in> replies c"
    "sendRequestVote env (Some reply) (counters c i (rv_term args)) (nodes c i) = Inr (r', n, hb)"
  shows "\<exists>c'. cstep env N c c' \<and> nodes c' i = r'"
  by (rule exI, rule conjI, rule c_reply [OF assms]) simp

lemma boot_leader:
  assumes "env_ok env"
  shows "\<exists>c. creach env 3 c \<and> m_status (nodes c 0) = Leader \<and> m_currentTerm (nodes c 0) = 1"
proof -
  let ?r0 = "fst (doElection env 0 (boot_node env 3 0))"
  let ?c0 = "boot_cluster env 3"
  let ?reqs = "[(1::int, vote_args), (2, vote_args)]"
  let ?c1 = "?c0\<lparr>nodes := (nodes ?c0)(0 := ?r0), requests := requests ?c0 \<union> calls_of 0 ?reqs,
      open_calls := open_calls ?c0 \<union> calls_of 0 ?reqs,
      counters := (counters ?c0)(0 := (counters ?c0 0)(m_currentTerm ?r0 := 1)),
      granted := insert (0, m_currentTerm ?r0, 0) (granted ?c0)\<rparr>"
  have n0: "nodes ?c0 i = boot_node env 3 i" for i by (simp add: boot_cluster_def)
  have s1: "cstep env 3 ?c0 ?c1" using c_elect [of 0 3 env 0 ?c0 ?r0 1 ?reqs] boot_election(1) n0 by simp
  have r1: "creach env 3 ?c1" using reach_step [OF boot_cluster_reach s1] .
  let ?r1 = "persist env ((step_down 1 (boot_node env 3 1))\<lparr>m_votedFor := 0, m_lastResetElectionTime := 0\<rparr>)"
  let ?rep = "\<lparr>rvr_term = 1, rvr_votegranted = True, rvr_votestate = Normal\<rparr>"
  let ?c2 = "?c1\<lparr>nodes := (nodes ?c1)(1 := ?r1), replies := insert ((0, 1, vote_args), ?rep) (replies ?c1),
      granted := (if rvr_votegranted ?rep then insert (1, rv_term vote_args, 0) (granted ?c1) else granted ?c1)\<rparr>"
  have call: "(0, 1, vote_args) \<in> calls_of 0 ?reqs" by (simp add: calls_of_def)
  have "RequestVote env 0 vote_args (nodes ?c1 1) = Inr (?r1, ?rep)" using boot_vote n0 by simp
  then have s2: "cstep env 3 ?c1 ?c2" using call by (intro c_vote) auto
  have r2: "creach env 3 ?c2" using reach_step [OF r1 s2] .
  note inv = cinvD [OF reachable_cinv [OF r2 assms]]
  have op: "(0, 1, vote_args) \<in> open_calls ?c2" "((0, 1, vote_args), ?rep) \<in> replies ?c2" using call by simp_all
  have term0: "rvr_term ?rep = m_currentTerm (nodes ?c2 0)" using boot_election(2) by simp
  have cnt: "counters ?c2 0 (rv_term vote_args) = 1" using boot_election(2) by (simp add: vote_args_def)
  have peers: "m_peers (nodes ?c2 0) = 3" by (simp add: doElection_def boot_node_def Let_def)
  have w: "wins (nodes ?c2 0) 2" unfolding wins_def peers by simp
  have "sendRequestVote env (Some ?rep) (counters ?c2 0 (rv_term vote_args)) (nodes ?c2 0) =
      Inr (become_leader env (nodes ?c2 0), 0, True)"
    using cinv_count(1) [OF assms reachable_cinv [OF r2 assms] op _ term0] w cnt by simp
  from reply_step [OF op this] obtain c3 where c3: "cstep env 3 ?c2 c3"
    "nodes c3 0 = become_leader env (nodes ?c2 0)" by blast
  have "m_currentTerm (nodes ?c2 0) = 1" using term0 by simp
  then have "m_status (nodes c3 0) = Leader" "m_currentTerm (nodes c3 0) = 1"
    by (simp_all add: c3(2) become_leader_def)
  then show ?thesis using reach_step [OF r2 c3(1)] by blast
qed

section \<open>Elections\<close>

definition leaders :: "nat \<Rightarrow> cluster \<Rightarrow> int \<Rightarrow> nat set" where
  "leaders N c t = {i. i < N \<and> m_status (nodes c i) = Leader \<and> m_currentTerm (nodes c i) = t}"

lemma finite_leaders: "finite (leaders N c t)"
  by (rule finite_subset [of _ "{..<N}"]) (auto simp: leaders_def)

text \<open>
  C1: election safety.  Whatever the network and the crashes do, a term has at most one leader.
\<close>

theorem election_safety:
  assumes "env_ok env" "creach env N c"
  shows "card (leaders N c t) \<le> 1"
proof (rule ccontr)
  assume "\<not> card (leaders N c t) \<le> 1"
  then have "Suc 1 \<le> card (leaders N c t)" by simp
  then obtain i j where ij: "i \<in> leaders N c t" "j \<in> leaders N c t" "i \<noteq> j"
    by (metis One_nat_def card_le_Suc0_iff_eq finite_leaders not_less_eq_eq)
  then have "i = j"
    by (intro one_leader [OF reachable_cinv [OF assms(2,1)]]) (auto simp: leaders_def)
  then show False using ij(3) by simp
qed

theorem election_safety_witness:
  "\<exists>c. creach demo_env 3 c \<and> card (leaders 3 c 1) = 1"
proof -
  from boot_leader [OF demo_env_ok] obtain c where c: "creach demo_env 3 c"
    "m_status (nodes c 0) = Leader" "m_currentTerm (nodes c 0) = 1" by blast
  then have "0 \<in> leaders 3 c 1" by (simp add: leaders_def)
  then have "0 < card (leaders 3 c 1)" using finite_leaders card_gt_0_iff by blast
  then have "card (leaders 3 c 1) = 1" using election_safety [OF demo_env_ok c(1), of 1] by linarith
  then show ?thesis using c(1) by blast
qed

text \<open>
  C5: a node never wins one election twice: in a reachable state, no reply that can still come in makes
  \<open>sendRequestVote\<close> fail its assertion.
\<close>

theorem no_second_win:
  assumes "env_ok env" "creach env N c" "(i, s, args) \<in> open_calls c" "((i, s, args), reply) \<in> replies c"
  shows "\<exists>r' n hb. sendRequestVote env (Some reply) (counters c i (rv_term args)) (nodes c i) = Inr (r', n, hb)"
proof (cases "rvr_votegranted reply \<and> rvr_term reply = m_currentTerm (nodes c i)")
  case True
  then show ?thesis
    using cinv_count(1) [OF assms(1) reachable_cinv [OF assms(2,1)] assms(3,4)]
    by (cases "wins (nodes c i) (counters c i (rv_term args) + 1)") auto
next
  case False
  note inv = cinvD [OF reachable_cinv [OF assms(2,1)]]
  have "i < N" using inv_callsD(1,2) [OF inv(3)] assms(3) by blast
  then have "raft_wf (nodes c i)" using node_okD(1) [OF assms(1)] inv(6) by blast
  then show ?thesis using False by (auto simp: sendRequestVote_eq)
qed

lemma boot_call:
  "\<exists>c. creach env 3 c \<and> (0, 1, vote_args) \<in> open_calls c \<and>
     ((0, 1, vote_args), \<lparr>rvr_term = 1, rvr_votegranted = True, rvr_votestate = Normal\<rparr>) \<in> replies c"
proof -
  let ?r0 = "fst (doElection env 0 (boot_node env 3 0))" and ?c0 = "boot_cluster env 3"
  let ?reqs = "[(1::int, vote_args), (2, vote_args)]"
  have n0: "nodes ?c0 i = boot_node env 3 i" for i by (simp add: boot_cluster_def)
  have "\<exists>c1. cstep env 3 ?c0 c1 \<and> nodes c1 1 = boot_node env 3 1 \<and> calls_of 0 ?reqs \<subseteq> open_calls c1 \<and>
      calls_of 0 ?reqs \<subseteq> requests c1"
    by (rule exI, rule conjI, rule c_elect [of 0 3 env 0 ?c0 ?r0 1 ?reqs]) (use boot_election(1) n0 in auto)
  then obtain c1 where c1: "cstep env 3 ?c0 c1" "nodes c1 1 = boot_node env 3 1"
    "calls_of 0 ?reqs \<subseteq> open_calls c1" "calls_of 0 ?reqs \<subseteq> requests c1" by blast
  have call: "(0, 1, vote_args) \<in> calls_of 0 ?reqs" by (simp add: calls_of_def)
  then have rq: "(0, 1, vote_args) \<in> requests c1" using c1(4) by blast
  note v = c_vote [OF rq, of env 0, unfolded c1(2), OF boot_vote, of 3]
  show ?thesis using reach_step [OF reach_step [OF boot_cluster_reach c1(1)] v] call c1(3)
    by (intro exI conjI) (assumption | force)+
qed

theorem no_second_win_witness:
  "\<exists>c r' hb. creach demo_env 3 c \<and>
     sendRequestVote demo_env (Some \<lparr>rvr_term = 1, rvr_votegranted = True, rvr_votestate = Normal\<rparr>)
       (counters c 0 1) (nodes c 0) = Inr (r', hb)"
proof -
  from boot_call [of demo_env] obtain c where c: "creach demo_env 3 c" "(0, 1, vote_args) \<in> open_calls c"
    "((0, 1, vote_args), \<lparr>rvr_term = 1, rvr_votegranted = True, rvr_votestate = Normal\<rparr>) \<in> replies c" by blast
  then show ?thesis using no_second_win [OF demo_env_ok c] by (auto simp: vote_args_def)
qed

text \<open>
  C12: in every reachable state every node is well formed: its entries carry consecutive indices, it has
  committed and applied no further than its log reaches, and its arrays have one element per peer.
\<close>

theorem reachable_nodes_wf:
  assumes "env_ok env" "creach env N c" "i < N"
  shows "raft_wf (nodes c i) \<and> m_me (nodes c i) = int i \<and> m_peers (nodes c i) = N"
  using node_okD [OF assms(1) cinvD(6) [OF reachable_cinv [OF assms(2,1)] assms(3)]] by simp_all

theorem reachable_nodes_wf_witness:
  "\<exists>c. creach demo_env 3 c \<and> m_status (nodes c 0) = Leader \<and> raft_wf (nodes c 0) \<and> m_peers (nodes c 2) = 3"
proof -
  from boot_leader [OF demo_env_ok] obtain c where c: "creach demo_env 3 c" "m_status (nodes c 0) = Leader" by blast
  then show ?thesis
    using reachable_nodes_wf [OF demo_env_ok c(1), of 0] reachable_nodes_wf [OF demo_env_ok c(1), of 2] by auto
qed

text \<open>
  A single node is never elected: votes are counted only when a reply comes in, and there is no
  peer to reply.
\<close>

theorem single_node_no_leader:
  assumes "env_ok env" "creach env 1 c"
  shows "m_status (nodes c 0) \<noteq> Leader"
proof
  assume l: "m_status (nodes c 0) = Leader"
  note inv = cinvD [OF reachable_cinv [OF assms(2,1)]]
  have "(0, m_currentTerm (nodes c 0)) \<in> elected c" using inv(5) l by (simp add: inv_lead_def)
  then obtain s where "(0, m_currentTerm (nodes c 0), s) \<in> counted c"
    using inv_countD(5) [OF inv(4)] by (auto simp: counted_of_def)
  then show False using inv_countD(1) [OF inv(4)] by force
qed

theorem single_node_no_leader_witness:
  "creach demo_env 1 (boot_cluster demo_env 1) \<and> m_status (nodes (boot_cluster demo_env 1) 0) \<noteq> Leader"
  using single_node_no_leader [OF demo_env_ok boot_cluster_reach] boot_cluster_reach by simp

section \<open>Log replication\<close>

definition entry :: "string \<Rightarrow> int \<Rightarrow> int \<Rightarrow> LogEntry" where
  "entry cmd t i = \<lparr>command = cmd, logterm = t, logindex = i\<rparr>"

definition demo_node :: "int \<Rightarrow> int \<Rightarrow> Status \<Rightarrow> LogEntry list \<Rightarrow> int \<Rightarrow> raft" where
  "demo_node me t st logs ci =
     \<lparr>m_peers = 3, m_persister = Persister_new (\<lambda>_. True) me (\<lambda>_. None), m_me = me, m_currentTerm = t,
      m_votedFor = -1, m_logs = logs, m_commitIndex = ci, m_lastApplied = 0, m_nextIndex = [2, 2, 2],
      m_matchIndex = [1, 1, 1], m_status = st, applyChan = [], m_lastResetElectionTime = 0,
      m_lastResetHearBeatTime = 0, m_lastSnapshotIncludeIndex = 0, m_lastSnapshotIncludeTerm = 0\<rparr>"

definition demo_log :: "LogEntry list" where
  "demo_log = [entry ''a'' 1 1, entry ''b'' 1 2, entry ''c'' 1 3]"

lemma demo_node_wf:
  "indexed_from 1 logs \<Longrightarrow> 0 \<le> ci \<Longrightarrow> ci \<le> int (length logs) \<Longrightarrow> 0 \<le> me \<Longrightarrow> me < 3 \<Longrightarrow> raft_wf (demo_node me t st logs ci)"
  by (simp add: raft_wf_unfold demo_node_def)

lemma demo_log_indexed: "indexed_from 1 demo_log"
  by (simp add: demo_log_def entry_def indexed_from_Cons)

text \<open>
  C7: a request whose previous entry matches is taken in completely: afterwards the log has the entries of
  the request behind the previous entry, everything up to it is unchanged, the commit index follows the
  leader's within the log, and term, vote and log are on disk before the reply.
\<close>

theorem append_entries_accepts:
  assumes "raft_wf r" "ae_ok args" "persister_ok (file_open env) (m_persister r)"
    "m_currentTerm r \<le> ae_term args"
    "m_lastSnapshotIncludeIndex r \<le> ae_prevlogindex args" "ae_prevlogindex args \<le> getLastLogIndex r"
    "ae_prevlogterm args = term_at r (ae_prevlogindex args)"
    "compatible (entries_after r (ae_prevlogindex args)) (ae_entries args)"
  shows "\<exists>r'. AppendEntries1 env now args r = Inr (r', ae_accept (ae_term args)) \<and>
    raft_wf r' \<and> m_currentTerm r' = ae_term args \<and> m_status r' = Follower \<and>
    entries_between r' (ae_prevlogindex args) (ae_end args) = ae_entries args \<and>
    entries_between r' (m_lastSnapshotIncludeIndex r) (ae_prevlogindex args) =
      entries_between r (m_lastSnapshotIncludeIndex r) (ae_prevlogindex args) \<and>
    m_commitIndex r' = max (m_commitIndex r) (min (ae_leadercommit args) (getLastLogIndex r')) \<and>
    ReadRaftState (m_persister r') = persistData env r'"
proof -
  let ?s = "m_lastSnapshotIncludeIndex r" and ?f = "ae_follow now args r"
  let ?k = "nat (ae_prevlogindex args - ?s)"
  let ?g = "take_in args ?f"
  have wf: "raft_wf ?g" using assms by (intro take_in_wf) simp_all
  have k: "?k \<le> length (m_logs r)" using assms(5,6) raft_wfD(11) [OF assms(1)] by simp
  have eq: "AppendEntries1 env now args r = Inr (persist env ?g, ae_accept (ae_term args))"
    using AppendEntries1_match [OF assms(1,2,4-7), of env now] assms(8) by (simp add: entries_after_def)
  have logs: "m_logs ?g = overwrite ?k (ae_entries args) (m_logs r)" by (simp add: take_in_def Let_def)
  have ents: "drop ?k (m_logs ?g) = ae_entries args @ drop (?k + length (ae_entries args)) (m_logs r)"
    "take ?k (m_logs ?g) = take ?k (m_logs r)"
    using k by (simp_all add: logs overwrite_def)
  have snap: "m_lastSnapshotIncludeIndex ?g = ?s" by (simp add: take_in_def Let_def)
  have last: "getLastLogIndex ?g = ?s + int (length (m_logs ?g))" using raft_wfD(11) [OF wf] snap by simp
  have "m_commitIndex r \<le> getLastLogIndex ?g"
    using raft_wfD(4) [OF wf] raft_wfD(4) [OF assms(1)] last snap length_overwrite [OF k] logs by simp
  then have com: "m_commitIndex ?g = max (m_commitIndex r) (min (ae_leadercommit args) (getLastLogIndex ?g))"
    using last by (simp add: take_in_def Let_def)
  have pers: "m_persister ?g = m_persister r" by (simp add: take_in_def Let_def)
  have data: "persistData env (persist env ?g) = persistData env ?g" by (simp add: persistData_def)
  show ?thesis
  proof (intro exI conjI)
    show "AppendEntries1 env now args r = Inr (persist env ?g, ae_accept (ae_term args))" by (rule eq)
    show "entries_between (persist env ?g) (ae_prevlogindex args) (ae_end args) = ae_entries args"
      using ents(1) snap by (simp add: entries_between_def entries_after_def ae_end_def)
    show "entries_between (persist env ?g) ?s (ae_prevlogindex args) = entries_between r ?s (ae_prevlogindex args)"
      using ents(2) snap by (simp add: entries_between_def entries_after_def)
    show "ReadRaftState (m_persister (persist env ?g)) = persistData env (persist env ?g)"
      unfolding data persist_fields pers by (rule SaveRaftState_reads(1) [OF assms(3)])
  qed (use wf com assms(4) in \<open>simp_all add: take_in_def Let_def\<close>)
qed

theorem append_entries_accepts_witness:
  "\<exists>r'. AppendEntries1 demo_env 9 \<lparr>ae_term = 2, ae_leaderid = 0, ae_prevlogindex = 1, ae_prevlogterm = 1,
       ae_entries = [entry ''x'' 2 2], ae_leadercommit = 2\<rparr> (demo_node 1 1 Candidate demo_log 1) = Inr (r', ae_accept 2) \<and>
     entries_between r' 1 2 = [entry ''x'' 2 2] \<and> m_commitIndex r' = 2"
proof -
  let ?args = "\<lparr>ae_term = 2, ae_leaderid = 0, ae_prevlogindex = 1, ae_prevlogterm = 1,
       ae_entries = [entry ''x'' 2 2], ae_leadercommit = 2\<rparr>" and ?r = "demo_node 1 1 Candidate demo_log 1"
  have wf: "raft_wf ?r" using demo_log_indexed by (intro demo_node_wf) (simp_all add: demo_log_def)
  have ok: "ae_ok ?args" by (simp add: ae_ok_def indexed_from_Cons entry_def)
  have p: "persister_ok (file_open demo_env) (m_persister ?r)"
    by (simp add: persister_ok_def demo_node_def Persister_new_names)
  have last: "getLastLogIndex ?r = 3"
    by (simp add: getLastLogIndex_def getLastLogIndexAndTerm_def demo_node_def demo_log_def entry_def)
  have prem: "m_currentTerm ?r \<le> ae_term ?args" "m_lastSnapshotIncludeIndex ?r \<le> ae_prevlogindex ?args"
    "ae_prevlogindex ?args \<le> getLastLogIndex ?r" "ae_prevlogterm ?args = term_at ?r (ae_prevlogindex ?args)"
    "compatible (entries_after ?r (ae_prevlogindex ?args)) (ae_entries ?args)"
    unfolding last by (simp_all add: demo_node_def demo_log_def entry_def term_at_def entries_after_def)
  have com: "m_commitIndex ?r = 1" by (simp add: demo_node_def)
  obtain r' where r': "AppendEntries1 demo_env 9 ?args ?r = Inr (r', ae_accept 2)" "raft_wf r'"
    "entries_between r' 1 2 = [entry ''x'' 2 2]" "m_commitIndex r' = max 1 (min 2 (getLastLogIndex r'))"
    using append_entries_accepts [OF wf ok p prem, of 9] by (auto simp: ae_end_def com)
  have "length (m_logs r') \<ge> 2 \<or> m_lastSnapshotIncludeIndex r' > 0"
    using r'(3) raft_wfD(2) [OF r'(2)] by (cases "m_lastSnapshotIncludeIndex r' = 0")
      (auto simp: entries_between_def entries_after_def take_Suc_conv_app_nth dest!: arg_cong [where f = length])
  moreover have "1 \<le> length (m_logs r')" using r'(3) by (cases "m_logs r'") (auto simp: entries_between_def entries_after_def)
  ultimately have "2 \<le> getLastLogIndex r'" using raft_wfD(2,11) [OF r'(2)] by linarith
  then show ?thesis using r' by auto
qed

end
