(* ===== verification/Raft_Node_Props.thy ===== *)
theory Raft_Node_Props
  imports Raft_Props
begin

text \<open>
  Further properties of one node: what its handlers answer, what they keep on disk, what a leader
  sends and commits, what is applied, and what survives a restart.
\<close>

text \<open>
  \<open>AppendEntries1\<close> on a well-formed node answers every well-formed request, unless the request
  disagrees with the log about the command of an entry with the same index and term.  The answer carries
  the node's term; term and commit index never go back; the node stays well formed.
\<close>

theorem append_entries_answers:
  assumes "raft_wf r" "ae_ok args"
  shows "(\<exists>r' reply. AppendEntries1 env now args r = Inr (r', reply) \<and> raft_wf r' \<and>
      aer_term reply = m_currentTerm r' \<and> m_currentTerm r' = max (m_currentTerm r) (ae_term args) \<and>
      m_commitIndex r \<le> m_commitIndex r') \<or>
    AppendEntries1 env now args r = Inl diff_command \<and>
      \<not> compatible (entries_after r (ae_prevlogindex args)) (ae_entries args)"
  using assms
proof (cases rule: AppendEntries1_elim [where env = env and now = now])
  case accept
  have "m_commitIndex r \<le> m_commitIndex (take_in args (ae_follow now args r))"
    using take_in_wf [of "ae_follow now args r" args] assms accept raft_wfD(4) [OF assms(1)]
      length_overwrite [OF append_loop_follow(2) [OF assms(1,2) accept(2,3)], of "ae_entries args"]
    by (auto simp: take_in_def Let_def)
  then show ?thesis
    using accept assms take_in_wf [of "ae_follow now args r" args]
    by (auto simp: ae_accept_def take_in_def Let_def)
qed (use assms in \<open>auto simp: ae_reject_def entries_after_def\<close>)

theorem append_entries_answers_witness:
  "\<exists>r' reply. AppendEntries1 demo_env 9 \<lparr>ae_term = 2, ae_leaderid = 0, ae_prevlogindex = 5, ae_prevlogterm = 2,
       ae_entries = [], ae_leadercommit = 2\<rparr> (demo_node 1 1 Candidate demo_log 1) = Inr (r', reply) \<and> raft_wf r'"
  using append_entries_answers [of "demo_node 1 1 Candidate demo_log 1" "\<lparr>ae_term = 2, ae_leaderid = 0,
    ae_prevlogindex = 5, ae_prevlogterm = 2, ae_entries = [], ae_leadercommit = 2\<rparr>" demo_env 9]
    demo_node_wf [OF demo_log_indexed, of 1 1 1 Candidate]
  by (auto simp: ae_ok_def demo_log_def)

text \<open>
  When the previous entry conflicts, the index sent back lies in the log, at or before the conflict, and
  all entries from it to the conflict have the conflicting term: nothing that could match is skipped.
\<close>

theorem append_entries_hint:
  assumes "raft_wf r" "m_currentTerm r \<le> ae_term args"
    "m_lastSnapshotIncludeIndex r \<le> ae_prevlogindex args" "ae_prevlogindex args \<le> getLastLogIndex r"
    "ae_prevlogterm args \<noteq> term_at r (ae_prevlogindex args)"
  shows "\<exists>j r'. AppendEntries1 env now args r = Inr (r', ae_reject (ae_term args) j) \<and> m_logs r' = m_logs r \<and>
    m_lastSnapshotIncludeIndex r \<le> j \<and> j \<le> ae_prevlogindex args \<and>
    (\<forall>i. j \<le> i \<longrightarrow> i \<le> ae_prevlogindex args \<longrightarrow> term_at r i = term_at r (ae_prevlogindex args))"
proof -
  from AppendEntries1_mismatch [OF assms, of env now] obtain j where j:
    "AppendEntries1 env now args r = Inr (persist env (ae_follow now args r), ae_reject (ae_term args) j)"
    "m_lastSnapshotIncludeIndex r \<le> j" "j \<le> ae_prevlogindex args"
    "\<forall>i. j \<le> i \<longrightarrow> i \<le> ae_prevlogindex args \<longrightarrow> term_at r i = term_at r (ae_prevlogindex args)"
    by (elim exE conjE) (rule that)
  have "m_logs (persist env (ae_follow now args r)) = m_logs r" by simp
  with j show ?thesis by (intro exI conjI) assumption+
qed

theorem append_entries_hint_witness:
  "\<exists>j r'. AppendEntries1 demo_env 9 \<lparr>ae_term = 3, ae_leaderid = 0, ae_prevlogindex = 3, ae_prevlogterm = 2,
       ae_entries = [], ae_leadercommit = 0\<rparr> (demo_node 1 1 Candidate demo_log 1) = Inr (r', ae_reject 3 j) \<and> j \<le> 3"
proof -
  let ?args = "\<lparr>ae_term = 3, ae_leaderid = 0, ae_prevlogindex = 3, ae_prevlogterm = 2,
       ae_entries = [], ae_leadercommit = 0\<rparr>" and ?r = "demo_node 1 1 Candidate demo_log 1"
  have wf: "raft_wf ?r" using demo_log_indexed by (intro demo_node_wf) (simp_all add: demo_log_def)
  have prem: "m_currentTerm ?r \<le> ae_term ?args" "m_lastSnapshotIncludeIndex ?r \<le> ae_prevlogindex ?args"
    "ae_prevlogindex ?args \<le> getLastLogIndex ?r" "ae_prevlogterm ?args \<noteq> term_at ?r (ae_prevlogindex ?args)"
    by (simp_all add: demo_node_def demo_log_def entry_def term_at_def getLastLogIndex_def getLastLogIndexAndTerm_def)
  from append_entries_hint [OF wf prem, of demo_env 9] obtain j r' where
    "AppendEntries1 demo_env 9 ?args ?r = Inr (r', ae_reject (ae_term ?args) j)" "j \<le> ae_prevlogindex ?args"
    by (elim exE conjE) (rule that)
  then show ?thesis by auto
qed

text \<open>
  \<open>RequestVote\<close> always answers.  It grants a vote exactly when the candidate's term is not old, its log is
  at least as up to date, and the node has not voted for another in that term; and what it answers
  is on disk before it answers.
\<close>

theorem request_vote_rule:
  assumes "persister_ok (file_open env) (m_persister r)"
  shows "\<exists>r' reply. RequestVote env now args r = Inr (r', reply) \<and>
    (rvr_votegranted reply \<longleftrightarrow> m_currentTerm r \<le> rv_term args \<and>
       UpToDate r (rv_lastlogindex args) (rv_lastlogterm args) \<and>
       (m_currentTerm r < rv_term args \<or> m_votedFor r = -1 \<or> m_votedFor r = rv_candidateid args)) \<and>
    rvr_term reply = m_currentTerm r' \<and> m_currentTerm r' = max (m_currentTerm r) (rv_term args) \<and>
    (rvr_votegranted reply \<longrightarrow> m_votedFor r' = rv_candidateid args) \<and> m_logs r' = m_logs r \<and>
    ReadRaftState (m_persister r') = persistData env r'"
proof -
  have p: "ReadRaftState (m_persister (persist env f)) = persistData env (persist env f)"
    if "m_persister f = m_persister r" for f
    using SaveRaftState_reads(1) [OF assms] that by (simp add: persistData_def)
  consider (stale) "rv_term args < m_currentTerm r" | (higher) "m_currentTerm r < rv_term args"
    | (same) "m_currentTerm r = rv_term args" by linarith
  then show ?thesis
  proof cases
    case stale
    then show ?thesis using p [of r] by (auto simp: RequestVote_eq)
  next
    case higher
    then show ?thesis
      by (cases "UpToDate r (rv_lastlogindex args) (rv_lastlogterm args)")
        (auto simp: RequestVote_eq Let_def step_down_def p simp del: persist_fields(16))
  next
    case same
    then show ?thesis
      by (cases "UpToDate r (rv_lastlogindex args) (rv_lastlogterm args) \<and>
          (m_votedFor r = -1 \<or> m_votedFor r = rv_candidateid args)")
        (auto simp: RequestVote_eq Let_def step_down_def p simp del: persist_fields(16))
  qed
qed

lemma demo_persister_ok: "persister_ok (file_open demo_env) (m_persister (demo_node me t st logs ci))"
  by (simp add: persister_ok_def demo_node_def Persister_new_names)

theorem request_vote_rule_witness:
  "\<exists>r' reply. RequestVote demo_env 9 \<lparr>rv_term = 2, rv_candidateid = 2, rv_lastlogindex = 3, rv_lastlogterm = 1\<rparr>
     (demo_node 1 1 Follower demo_log 1) = Inr (r', reply) \<and> rvr_votegranted reply \<and>
     ReadRaftState (m_persister r') = persistData demo_env r'"
  using request_vote_rule [OF demo_persister_ok, of 9 "\<lparr>rv_term = 2, rv_candidateid = 2, rv_lastlogindex = 3,
    rv_lastlogterm = 1\<rparr>" 1 1 Follower demo_log 1]
  by (auto simp: UpToDate_def getLastLogIndexAndTerm_def demo_node_def demo_log_def entry_def)

text \<open>
  A heartbeat of a leader whose \<open>nextIndex\<close> values lie in its log runs without a failed assertion, and
  what it sends each other peer is a snapshot when the peer needs entries already cut off, and otherwise a
  well-formed request with all entries from \<open>nextIndex\<close> on, which ends at the leader's last index.
\<close>

theorem heartbeat_sends:
  assumes "raft_wf r" "leader_ok r" "m_status r = Leader"
  shows "\<exists>msgs. doHeartBeat now r = Inr (r\<lparr>m_lastResetHearBeatTime := now\<rparr>, Some (1, msgs)) \<and>
    (\<forall>i args. SendAppendEntries i args \<in> set msgs \<longrightarrow> i \<noteq> m_me r \<and> ae_ok args \<and>
       ae_prevlogindex args = m_nextIndex r ! nat i - 1 \<and> ae_end args = getLastLogIndex r \<and>
       ae_prevlogterm args = term_at r (ae_prevlogindex args)) \<and>
    (\<forall>i. SendSnapShot i \<in> set msgs \<longrightarrow> m_nextIndex r ! nat i \<le> m_lastSnapshotIncludeIndex r) \<and>
    length msgs = m_peers r - 1"
proof -
  let ?ps = "filter (\<lambda>i. i \<noteq> m_me r) [0..int (m_peers r) - 1]" and ?s = "m_lastSnapshotIncludeIndex r"
  note wf = raft_wfD [OF assms(1)]
  have sent: "i \<noteq> m_me r \<and> ae_ok args \<and> ae_prevlogindex args = m_nextIndex r ! nat i - 1 \<and>
      ae_end args = getLastLogIndex r \<and> ae_prevlogterm args = term_at r (ae_prevlogindex args)"
    if "SendAppendEntries i args \<in> set (map (beat r) ?ps)" for i args
  proof -
    from that have i: "i \<in> set ?ps" "?s < m_nextIndex r ! nat i" "args = ae_request r (m_nextIndex r ! nat i - 1)"
      by (auto simp: beat_def split: if_splits)
    then have "nat i < m_peers r" "i \<noteq> m_me r" by auto
    then have last: "m_nextIndex r ! nat i - 1 \<le> getLastLogIndex r" using assms(2) by (auto simp: leader_ok_def)
    have first: "?s \<le> m_nextIndex r ! nat i - 1" using i(2) by simp
    show ?thesis
      using ae_request_ok [OF assms(1) first last] \<open>i \<noteq> m_me r\<close> unfolding i(3)
      by (simp add: ae_end_def ae_request_def)
  qed
  have "length ?ps = m_peers r - 1"
  proof -
    have d: "distinct ?ps" by simp
    have "set ?ps = {0..int (m_peers r) - 1} - {m_me r}" by auto
    then have "card (set ?ps) = m_peers r - 1" using wf(9,10) by simp
    then show ?thesis using distinct_card [OF d] by simp
  qed
  then have len: "length (map (beat r) ?ps) = m_peers r - 1" by simp
  have snaps: "\<forall>i. SendSnapShot i \<in> set (map (beat r) ?ps) \<longrightarrow> m_nextIndex r ! nat i \<le> ?s"
    by (auto simp: beat_def split: if_splits)
  have reqs: "\<forall>i args. SendAppendEntries i args \<in> set (map (beat r) ?ps) \<longrightarrow> i \<noteq> m_me r \<and> ae_ok args \<and>
      ae_prevlogindex args = m_nextIndex r ! nat i - 1 \<and>
      ae_end args = getLastLogIndex r \<and> ae_prevlogterm args = term_at r (ae_prevlogindex args)"
    using sent by blast
  show ?thesis
    using conjI [OF doHeartBeat_ok [OF assms, of now] conjI [OF reqs conjI [OF snaps len]]] by (rule exI)
qed

theorem heartbeat_sends_witness:
  "\<exists>msgs. doHeartBeat 7 (demo_node 0 2 Leader demo_log 1) =
     Inr ((demo_node 0 2 Leader demo_log 1)\<lparr>m_lastResetHearBeatTime := 7\<rparr>, Some (1, msgs)) \<and> length msgs = 2"
proof -
  let ?r = "demo_node 0 2 Leader demo_log 1"
  have wf: "raft_wf ?r" using demo_log_indexed by (intro demo_node_wf) (simp_all add: demo_log_def)
  have "leader_ok ?r"
    by (simp add: leader_ok_def getLastLogIndex_def getLastLogIndexAndTerm_def)
      (simp add: demo_node_def demo_log_def entry_def nth_Cons split: nat.split)
  from heartbeat_sends [OF wf this, of 7] show ?thesis by (auto simp: demo_node_def)
qed

text \<open>
  C8: what a leader commits.  The reply that completes a majority moves the commit index to the end of its
  request exactly when the last entry of the request is of the leader's term; the commit index never goes
  back nor beyond the log, and \<open>matchIndex\<close> of the server grows to the end of the request.
\<close>

theorem leader_commit_rule:
  assumes "raft_wf r" "leader_ok r" "m_status r = Leader" "0 \<le> server" "server < int (m_peers r)"
    "ae_end args \<le> getLastLogIndex r"
    "aer_appstate reply = AppNormal" "aer_success reply" "aer_term reply = m_currentTerm r"
  shows "\<exists>r' n'. sendAppendEntries server args (Some reply) n r = Inr (r', n') \<and> raft_wf r' \<and> leader_ok r' \<and>
    m_matchIndex r' ! nat server = max (m_matchIndex r ! nat server) (ae_end args) \<and>
    m_nextIndex r' ! nat server = m_matchIndex r' ! nat server + 1 \<and>
    n' = (if wins r (n + 1) then 0 else n + 1) \<and>
    m_commitIndex r' =
      (if wins r (n + 1) \<and> ae_entries args \<noteq> [] \<and> logterm (last (ae_entries args)) = m_currentTerm r
       then max (m_commitIndex r) (ae_end args) else m_commitIndex r)"
proof -
  let ?a = "acknowledge server args r"
  note ok = acknowledge_ok [OF assms(1,2,4-6)]
  have i: "nat server < length (m_matchIndex r)" "nat server < length (m_nextIndex r)"
    using assms(4,5) raft_wfD(7,8) [OF assms(1)] by auto
  have a: "m_matchIndex ?a ! nat server = max (m_matchIndex r ! nat server) (ae_end args)"
    "m_nextIndex ?a ! nat server = m_matchIndex ?a ! nat server + 1" "m_commitIndex ?a = m_commitIndex r"
    "m_currentTerm ?a = m_currentTerm r"
    using i by (simp_all add: acknowledge_def Let_def)
  have c: "m_matchIndex (commit_to args ?a) = m_matchIndex ?a" "m_nextIndex (commit_to args ?a) = m_nextIndex ?a"
    by (simp_all add: commit_to_def)
  have "sendAppendEntries server args (Some reply) n r =
      Inr (if wins r (n + 1) then (commit_to args ?a, 0) else (?a, n + 1))"
    using assms by (subst sendAppendEntries_eq) (simp_all add: raft_constants)
  then show ?thesis using ok a c by (cases "wins r (n + 1)") (auto simp: commit_to_def)
qed

theorem leader_commit_rule_witness:
  "\<exists>r' n'. sendAppendEntries 1 \<lparr>ae_term = 1, ae_leaderid = 0, ae_prevlogindex = 1, ae_prevlogterm = 1,
       ae_entries = [entry ''b'' 1 2, entry ''c'' 1 3], ae_leadercommit = 1\<rparr> (Some (ae_accept 1)) 1
     (demo_node 0 1 Leader demo_log 1) = Inr (r', n') \<and> m_commitIndex r' = 3"
proof -
  let ?r = "demo_node 0 1 Leader demo_log 1" and ?args = "\<lparr>ae_term = 1, ae_leaderid = 0, ae_prevlogindex = 1,
    ae_prevlogterm = 1, ae_entries = [entry ''b'' 1 2, entry ''c'' 1 3], ae_leadercommit = 1\<rparr>"
  have wf: "raft_wf ?r" using demo_log_indexed by (intro demo_node_wf) (simp_all add: demo_log_def)
  have last: "getLastLogIndex ?r = 3"
    by (simp add: getLastLogIndex_def getLastLogIndexAndTerm_def demo_node_def demo_log_def entry_def)
  have lo: "leader_ok ?r" unfolding leader_ok_def last by (simp add: demo_node_def nth_Cons split: nat.split)
  have prem: "m_status ?r = Leader" "(0::int) \<le> 1" "1 < int (m_peers ?r)" "ae_end ?args \<le> getLastLogIndex ?r"
    "aer_appstate (ae_accept 1) = AppNormal" "aer_success (ae_accept 1)" "aer_term (ae_accept 1) = m_currentTerm ?r"
    unfolding last by (simp_all add: demo_node_def ae_end_def ae_accept_def)
  have w: "wins ?r 2" "m_currentTerm ?r = 1" "m_commitIndex ?r = 1" by (simp_all add: wins_def demo_node_def)
  from leader_commit_rule [OF wf lo prem, of 1] w show ?thesis by (auto simp: entry_def ae_end_def)
qed

text \<open>
  C13: \<open>applierTicker\<close> hands the KV server the committed entries it has not handed over yet, each once,
  in the order of their indices, without a failed assertion.
\<close>

theorem applies_in_order:
  assumes "raft_wf r"
  shows "\<exists>r' msgs. applierTicker r = Inr r' \<and> applyChan r' = applyChan r @ msgs \<and>
    map CommandIndex msgs = [m_lastApplied r + 1..m_commitIndex r] \<and>
    (\<forall>m \<in> set msgs. CommandValid m \<and> \<not> SnapshotValid m \<and>
       (\<exists>e \<in> set (m_logs r). logindex e = CommandIndex m \<and> command e = Command m)) \<and>
    m_lastApplied r' = max (m_lastApplied r) (m_commitIndex r) \<and> raft_wf r'"
proof -
  let ?es = "entries_between r (m_lastApplied r) (m_commitIndex r)"
  note wf = raft_wfD [OF assms]
  have len: "length ?es = nat (m_commitIndex r - m_lastApplied r)"
    using wf(4,5) by (auto simp: entries_between_def entries_after_def)
  have idx: "logindex (?es ! k) = m_lastApplied r + 1 + int k" if "k < length ?es" for k
    using that wf(1,5) by (auto simp: entries_between_def entries_after_def log_ok_def indexed_from_def)
  have "map CommandIndex (map command_msg ?es) = [m_lastApplied r + 1..m_commitIndex r]"
    using len by (intro nth_equalityI) (auto simp: idx command_msg_def)
  moreover have sub: "set ?es \<subseteq> set (m_logs r)"
    by (auto simp: entries_between_def entries_after_def dest!: in_set_takeD in_set_dropD)
  ultimately show ?thesis
    using applierTicker_ok [OF assms] applied_wf [OF assms]
    by (intro exI [of _ "map command_msg ?es"] exI conjI)
      (auto simp: command_msg_def ApplyMsg_new_def raft_wf_unfold)
qed

theorem applies_in_order_witness:
  "\<exists>r' msgs. applierTicker (demo_node 1 1 Follower demo_log 2) = Inr r' \<and> applyChan r' = msgs \<and>
     map CommandIndex msgs = [1, 2] \<and> m_lastApplied r' = 2"
proof -
  have "raft_wf (demo_node 1 1 Follower demo_log 2)"
    using demo_log_indexed by (intro demo_node_wf) (simp_all add: demo_log_def)
  from applies_in_order [OF this] show ?thesis by (auto simp: demo_node_def upto_rec1)
qed

text \<open>
  Taking a snapshot at a committed index keeps the log above it, its last index and last term, hence how
  up to date the node is in elections, and the stored state is that of the shortened log.
\<close>

theorem snapshot_keeps_log:
  assumes "raft_wf r" "persister_ok (file_open env) (m_persister r)"
    "m_lastSnapshotIncludeIndex r < index" "index \<le> m_commitIndex r"
  shows "\<exists>r'. Raft_Snapshot env index data r = Inr r' \<and> raft_wf r' \<and>
    m_lastSnapshotIncludeIndex r' = index \<and> getLastLogIndexAndTerm r' = getLastLogIndexAndTerm r \<and>
    (\<forall>i. index \<le> i \<longrightarrow> i \<le> getLastLogIndex r \<longrightarrow> term_at r' i = term_at r i \<and> entries_after r' i = entries_after r i) \<and>
    ReadRaftState (m_persister r') = persistData env r' \<and> stored_snapshot (m_persister r') = data"
proof -
  let ?c = "cut_log env index data r" and ?s = "m_lastSnapshotIncludeIndex r"
  let ?k = "nat (index - ?s)"
  note wf = raft_wfD [OF assms(1)] and cw = cut_log_wf [OF assms(1,3,4), of env data]
  have eq: "Raft_Snapshot env index data r = Inr ?c" using assms by (simp add: Raft_Snapshot_eq [OF assms(1)])
  have f: "m_lastSnapshotIncludeIndex ?c = index" "m_lastSnapshotIncludeTerm ?c = term_at r index"
    "m_logs ?c = drop ?k (m_logs r)"
    by (simp_all add: cut_log_def Let_def)
  have k: "0 < ?k" "?k \<le> length (m_logs r)" using assms wf(4) by auto
  have lt: "getLastLogTerm ?c = getLastLogTerm r"
  proof (cases "?k = length (m_logs r)")
    case True
    have "m_logs r \<noteq> []" using k True by auto
    moreover have "nat (index - ?s - 1) = length (m_logs r) - 1" using True k by linarith
    ultimately show ?thesis using True f assms(3)
      by (simp add: getLastLogTerm_def getLastLogIndexAndTerm_def term_at_def last_conv_nth)
  next
    case False
    then have "m_logs ?c \<noteq> []" "last (m_logs ?c) = last (m_logs r)" "m_logs r \<noteq> []" using k f(3) by auto
    then show ?thesis by (simp add: getLastLogTerm_def getLastLogIndexAndTerm_def)
  qed
  have same: "term_at ?c i = term_at r i \<and> entries_after ?c i = entries_after r i"
    if "index \<le> i" "i \<le> getLastLogIndex r" for i
  proof
    show "term_at ?c i = term_at r i"
    proof (cases "i = index")
      case True
      then show ?thesis using f assms(3) by (simp add: term_at_def)
    next
      case False
      have "?k + nat (i - index - 1) = nat (i - ?s - 1)" using that False assms(3) by linarith
      then show ?thesis using False f that assms(3) k by (simp add: term_at_def)
    qed
    have "nat (i - index) + ?k = nat (i - ?s)" using that(1) assms(3) by linarith
    then show "entries_after ?c i = entries_after r i" by (simp add: entries_after_def f)
  qed
  have st: "ReadRaftState (m_persister ?c) = persistData env ?c" "stored_snapshot (m_persister ?c) = data"
    using Save_reads(1,2) [OF assms(2)] by (simp_all add: cut_log_def Let_def persistData_def)
  have "getLastLogIndexAndTerm ?c = getLastLogIndexAndTerm r"
    using lt cw(2) by (simp add: getLastLogTerm_def getLastLogIndex_def prod_eq_iff)
  then show ?thesis using eq cw(1) f(1) same st by blast
qed

theorem snapshot_keeps_log_witness:
  "\<exists>r'. Raft_Snapshot demo_env 2 ''snap'' (demo_node 1 1 Follower demo_log 2) = Inr r' \<and>
     m_lastSnapshotIncludeIndex r' = 2 \<and> stored_snapshot (m_persister r') = ''snap''"
proof -
  have "raft_wf (demo_node 1 1 Follower demo_log 2)"
    using demo_log_indexed by (intro demo_node_wf) (simp_all add: demo_log_def)
  from snapshot_keeps_log [OF this demo_persister_ok, of 2 "''snap''"] show ?thesis by (auto simp: demo_node_def)
qed

text \<open>
  C16: a snapshot from the leader is taken in whenever it is newer than the node's own: the node then
  starts behind it, keeps the entries above it, has it on disk, and sends it to the KV server; nothing fails.
\<close>

theorem install_snapshot_takes_in:
  assumes "raft_wf r" "persister_ok (file_open env) (m_persister r)" "m_currentTerm r \<le> is_term args"
    "m_lastSnapshotIncludeIndex r < is_lastsnapshotincludeindex args"
  shows "\<exists>r'. InstallSnapshot env now args r = Inr (r', \<lparr>isr_term = is_term args\<rparr>, Some (snapshot_msg args)) \<and>
    raft_wf r' \<and> m_lastSnapshotIncludeIndex r' = is_lastsnapshotincludeindex args \<and>
    m_logs r' = entries_after r (is_lastsnapshotincludeindex args) \<and>
    m_lastApplied r' \<ge> is_lastsnapshotincludeindex args \<and>
    ReadRaftState (m_persister r') = persistData env r' \<and> stored_snapshot (m_persister r') = is_data args"
proof -
  let ?f = "is_follow env now args r"
  have eq: "InstallSnapshot env now args r = Inr (install env args ?f, \<lparr>isr_term = is_term args\<rparr>, Some (snapshot_msg args))"
    using assms by (simp add: InstallSnapshot_eq Let_def)
  have wf: "raft_wf (install env args ?f)" using assms by (intro install_wf) simp_all
  have p: "persister_ok (file_open env) (m_persister ?f)"
    using assms(2) by (simp add: is_follow_def)
  have "ReadRaftState (m_persister (install env args ?f)) = persistData env (install env args ?f)"
    "stored_snapshot (m_persister (install env args ?f)) = is_data args"
    using Save_reads(1,2) [OF p] by (simp_all add: install_def Let_def persistData_def)
  then show ?thesis using eq wf by (auto simp: install_def Let_def entries_after_def)
qed

theorem install_snapshot_takes_in_witness:
  "\<exists>r'. InstallSnapshot demo_env 9 \<lparr>is_leaderid = 0, is_term = 2, is_lastsnapshotincludeindex = 2,
       is_lastsnapshotincludeterm = 1, is_data = ''snap''\<rparr> (demo_node 1 1 Follower demo_log 1) =
     Inr (r', \<lparr>isr_term = 2\<rparr>, Some (snapshot_msg \<lparr>is_leaderid = 0, is_term = 2, is_lastsnapshotincludeindex = 2,
       is_lastsnapshotincludeterm = 1, is_data = ''snap''\<rparr>)) \<and> m_logs r' = [entry ''c'' 1 3]"
proof -
  have wf: "raft_wf (demo_node 1 1 Follower demo_log 1)"
    using demo_log_indexed by (intro demo_node_wf) (simp_all add: demo_log_def)
  from install_snapshot_takes_in [OF wf demo_persister_ok, of "\<lparr>is_leaderid = 0, is_term = 2,
    is_lastsnapshotincludeindex = 2, is_lastsnapshotincludeterm = 1, is_data = ''snap''\<rparr>" 9]
  show ?thesis by (auto simp: demo_node_def demo_log_def entries_after_def)
qed

text \<open>
  C17: persisting and restarting gives back term, vote, snapshot position and log; the node comes back as a
  follower that has applied what its snapshot holds.
\<close>

theorem restart_restores:
  assumes "codecs_ok env" "raft_wf r" "persister_ok (file_open env) (m_persister r)"
  shows "\<exists>r'. init env now (m_peers r) (m_me r) (m_persister (persist env r)) q = Inr r' \<and> raft_wf r' \<and>
    m_currentTerm r' = m_currentTerm r \<and> m_votedFor r' = m_votedFor r \<and> m_logs r' = m_logs r \<and>
    m_lastSnapshotIncludeIndex r' = m_lastSnapshotIncludeIndex r \<and>
    m_lastSnapshotIncludeTerm r' = m_lastSnapshotIncludeTerm r \<and>
    m_status r' = Follower \<and> m_lastApplied r' = m_lastSnapshotIncludeIndex r \<and> m_commitIndex r' = 0"
proof -
  let ?p = "m_persister (persist env r)"
  have "ReadRaftState ?p = persistData env r" using SaveRaftState_reads(1) [OF assms(3)] by simp
  from init_persisted [OF assms(1,2) this, of now q] restarted_wf [OF assms(2), of now ?p q]
  show ?thesis by (auto simp: restarted_def)
qed

theorem restart_restores_witness:
  "\<exists>r'. init demo_env 9 3 1 (m_persister (persist demo_env (demo_node 1 4 Candidate demo_log 2))) [] = Inr r' \<and>
     m_currentTerm r' = 4 \<and> m_logs r' = demo_log"
proof -
  have wf: "raft_wf (demo_node 1 4 Candidate demo_log 2)"
    using demo_log_indexed by (intro demo_node_wf) (simp_all add: demo_log_def)
  have "m_peers (demo_node 1 4 Candidate demo_log 2) = 3" "m_me (demo_node 1 4 Candidate demo_log 2) = 1"
    by (simp_all add: demo_node_def)
  with restart_restores [OF demo_codecs_ok wf demo_persister_ok, of 9 "[]"] show ?thesis
    by (auto simp: demo_node_def)
qed

end
