(* ===== verification/Raft_Defects.thy ===== *)
theory Raft_Defects
  imports Raft_Node_Props
begin

text \<open>
  Where the node departs from the Raft protocol: concrete runs of its handlers, evaluated.  They show what the
  code does on inputs that a cluster can produce: a follower keeps entries behind a conflict, and
  therefore applies one its leader never had or votes for a candidate that lacks a newer entry; a commit
  that a majority acknowledged does not happen; a read index is handed out before the leader knows what
  is committed; a crash inside \<open>Persister::Save\<close> forgets a vote.
\<close>

text \<open>
  Whatever a request overwrites, the entries behind it stay, also when an entry of the request replaced
  one of another term.  (Raft deletes a conflicting entry and all that follow it.)
\<close>

theorem append_entries_never_truncates:
  assumes "raft_wf r" "ae_ok args" "AppendEntries1 env now args r = Inr (r', ae_accept t)"
  shows "entries_after r' (ae_end args) = entries_after r (ae_end args) \<and> length (m_logs r) \<le> length (m_logs r')"
proof -
  let ?g = "take_in args (ae_follow now args r)"
  have "AppendEntries1 env now args r = Inr (persist env ?g, ae_accept (ae_term args)) \<and>
      m_lastSnapshotIncludeIndex r \<le> ae_prevlogindex args \<and> ae_prevlogindex args \<le> getLastLogIndex r"
    using assms(1,2)
    by (cases rule: AppendEntries1_elim [where env = env and now = now])
      (use assms(3) in \<open>auto simp: ae_accept_def ae_reject_def\<close>)
  then have r': "r' = persist env ?g" and p: "m_lastSnapshotIncludeIndex r \<le> ae_prevlogindex args"
    "ae_prevlogindex args \<le> getLastLogIndex r"
    using assms(3) by auto
  let ?k = "nat (ae_prevlogindex args - m_lastSnapshotIncludeIndex r)"
  have k: "?k \<le> length (m_logs r)" using p raft_wfD(11) [OF assms(1)] by simp
  have logs: "m_logs r' = overwrite ?k (ae_entries args) (m_logs r)"
    "m_lastSnapshotIncludeIndex r' = m_lastSnapshotIncludeIndex r"
    by (simp_all add: r' take_in_def Let_def)
  have longer: "length (m_logs r) \<le> length (m_logs r')" using length_overwrite [OF k] logs(1) by simp
  have "nat (ae_end args - m_lastSnapshotIncludeIndex r) = ?k + length (ae_entries args)"
    using p(1) by (simp add: ae_end_def nat_add_distrib nat_diff_distrib)
  then have "entries_after r' (ae_end args) = entries_after r (ae_end args)"
    using k by (simp add: entries_after_def logs overwrite_def)
  with longer show ?thesis by blast
qed

theorem append_entries_never_truncates_witness:
  "\<exists>r'. AppendEntries1 demo_env 9 \<lparr>ae_term = 2, ae_leaderid = 0, ae_prevlogindex = 1, ae_prevlogterm = 1,
       ae_entries = [entry ''x'' 2 2], ae_leadercommit = 2\<rparr> (demo_node 1 1 Follower demo_log 1) = Inr (r', ae_accept 2) \<and>
     entries_after r' 2 = [entry ''c'' 1 3]"
proof -
  let ?args = "\<lparr>ae_term = 2, ae_leaderid = 0, ae_prevlogindex = 1, ae_prevlogterm = 1,
       ae_entries = [entry ''x'' 2 2], ae_leadercommit = 2\<rparr>" and ?r = "demo_node 1 1 Follower demo_log 1"
  have wf: "raft_wf ?r" using demo_log_indexed by (intro demo_node_wf) (simp_all add: demo_log_def)
  have ok: "ae_ok ?args" by (simp add: ae_ok_def indexed_from_Cons entry_def)
  have "case AppendEntries1 demo_env 9 ?args ?r of Inr (r', reply) \<Rightarrow> reply = ae_accept 2 | Inl e \<Rightarrow> False"
    by code_simp
  then obtain r' where r': "AppendEntries1 demo_env 9 ?args ?r = Inr (r', ae_accept 2)"
    by (auto split: sum.splits prod.splits)
  have "entries_after ?r 2 = [entry ''c'' 1 3]" by code_simp
  then show ?thesis
    using append_entries_never_truncates [OF wf ok r'] r' by (auto simp: ae_end_def)
qed

section \<open>A follower applies an entry of another history\<close>


text \<open>
  Node 0 leads term 2 with the entries a and x; node 1 still has b and c behind a, from a leader of term 1.
  Node 0 replicates x to node 1, then takes y and replicates it to node 2, which commits y; a
  \<open>ReadIndex\<close> heartbeat tells node 1 so.
\<close>

definition leader2 :: raft where
  "leader2 = (demo_node 0 2 Leader [entry ''a'' 1 1, entry ''x'' 2 2] 1)
     \<lparr>m_nextIndex := [3, 2, 2], m_matchIndex := [0, 0, 0]\<rparr>"

definition follower1 :: raft where
  "follower1 = demo_node 1 1 Follower demo_log 1"




section \<open>A vote for a candidate that lacks an entry\<close>

text \<open>
  After node 1 took x in (term 2, index 2), its last entry is still c of term 1, so it votes for a
  candidate whose log ends with c of term 1 and has no x.
\<close>

theorem vote_for_older_log:
  "case bindE (heartbeat_args leader2 1) (\<lambda>q. AppendEntries1 demo_env 0 q follower1) of
     Inr (f, reply) \<Rightarrow> aer_success reply \<and> map logterm (m_logs f) = [1, 2, 1] \<and>
       (case RequestVote demo_env 0 \<lparr>rv_term = 3, rv_candidateid = 2, rv_lastlogindex = 3, rv_lastlogterm = 1\<rparr> f of
          Inr (f', vote) \<Rightarrow> rvr_votegranted vote | Inl e \<Rightarrow> False)
   | Inl e \<Rightarrow> False"
  by code_simp

section \<open>A commit that does not happen\<close>




section \<open>A read index that is too old\<close>

text \<open>
  Node 1 knows the entries up to index 3 committed, persists, restarts and wins the next election.
\<close>

definition reelected_run :: "raft_env \<Rightarrow> exn + raft" where
  "reelected_run env =
     bindE (init env 0 3 1 (m_persister (persist env (demo_node 1 1 Follower demo_log 3))) []) (\<lambda>r.
     case doElection env 0 r of
       (r, Some (n, reqs)) \<Rightarrow>
         bindE (sendRequestVote env (Some \<lparr>rvr_term = 2, rvr_votegranted = True, rvr_votestate = Normal\<rparr>) n r)
           (\<lambda>(r, n, hb). Inr r)
     | (r, None) \<Rightarrow> Inr r)"

text \<open>
  The new leader's \<open>ReadIndex\<close> starts from index 0, before anything of its term is committed, and is confirmed
  once one peer answers: a read that follows is served from a state older than what was committed.
\<close>

theorem read_index_before_first_commit:
  "case reelected_run demo_env of
     Inr r \<Rightarrow> m_status r = Leader \<and> map logterm (m_logs r) = [1, 1, 1, 2] \<and>
       ReadIndex_begin r = Some (2, 0) \<and> ReadIndex_poll 2 2 1 0 r = Some True \<and> WaitForApplied_poll 0 500 0 r = Some True
   | Inl e \<Rightarrow> False"
  by code_simp

section \<open>A crash while saving\<close>




end
