(* ===== verification/Config_File.thy ===== *)
theory Config_File
  imports KV_Prelude
begin

text \<open>
  The cluster file: \<open>rpc/mprpcconfig.cpp\<close> reads it, \<open>RpcProvider::Run\<close> of \<open>rpc/rpcprovider.cpp\<close> appends the
  node's own address, and \<open>Clerk::Init\<close> and the constructor of \<open>KvServer\<close> turn it into the list of peers.
  A file is the string of its bytes.  A \<open>short\<close> is a 16-bit word.  The main lemma: what the nodes append,
  in whatever order, is what the readers get back, up to the first node that has not written yet.
\<close>

section \<open>Reading lines\<close>

text \<open>
  \<open>fgets\<close> into a buffer of 512 bytes: at most 511 characters, up to and including a newline; the last
  component is \<open>feof\<close> afterwards.  As a C string the buffer ends at the first zero byte.
\<close>

fun fgets :: "nat \<Rightarrow> string \<Rightarrow> string \<times> string \<times> bool" where
  "fgets 0 s = ([], s, False)"
| "fgets (Suc n) [] = ([], [], True)"
| "fgets (Suc n) (c # s) =
     (if c = CHR 0x0A then ([c], s, False) else case fgets n s of (l, r, e) \<Rightarrow> (c # l, r, e))"

definition c_str :: "string \<Rightarrow> string" where
  "c_str buf = takeWhile (\<lambda>c. c \<noteq> CHR 0x00) buf"

definition find_from :: "(char \<Rightarrow> bool) \<Rightarrow> nat \<Rightarrow> string \<Rightarrow> nat option" where
  "find_from P start s = find (\<lambda>i. P (s ! i)) [start..<length s]"

definition find_last :: "(char \<Rightarrow> bool) \<Rightarrow> string \<Rightarrow> nat option" where
  "find_last P s = find (\<lambda>i. P (s ! i)) (rev [0..<length s])"

definition Trim :: "string \<Rightarrow> string" where
  "Trim s =
     (let s = (case find_from (\<lambda>c. c \<noteq> CHR '' '') 0 s of None \<Rightarrow> s | Some idx \<Rightarrow> drop idx s)
      in case find_last (\<lambda>c. c \<noteq> CHR '' '') s of None \<Rightarrow> s | Some idx \<Rightarrow> take (idx + 1) s)"

text \<open>
  One pass of the loop.  When the line has no newline behind the equals sign, the length handed to
  \<open>substr\<close> is a negative number turned into a huge one: the rest of the line.
\<close>

definition config_item :: "string \<Rightarrow> (string \<times> string) option" where
  "config_item buf =
     (let read_buf = Trim (c_str buf) in
      if read_buf = [] \<or> hd read_buf = CHR ''#'' then None
      else case find_from (\<lambda>c. c = CHR ''='') 0 read_buf of
        None \<Rightarrow> None
      | Some idx \<Rightarrow>
          let key = Trim (take idx read_buf);
            value = (case find_from (\<lambda>c. c = CHR 0x0A) idx read_buf of
                Some endidx \<Rightarrow> take (endidx - idx - 1) (drop (idx + 1) read_buf)
              | None \<Rightarrow> drop (idx + 1) read_buf)
          in Some (key, Trim value))"

text \<open>\<open>insert\<close> of an unordered map keeps an element that is there.\<close>

definition config_insert :: "(string \<times> string) option \<Rightarrow> (string \<rightharpoonup> string) \<Rightarrow> (string \<rightharpoonup> string)" where
  "config_insert item m =
     (case item of None \<Rightarrow> m | Some (k, v) \<Rightarrow> if m k = None then m(k \<mapsto> v) else m)"

lemma fgets_rest: "fgets n s = (buf, r, e) \<Longrightarrow> n > 0 \<Longrightarrow> \<not> e \<Longrightarrow> length r < length s"
proof (induction n s arbitrary: buf r e rule: fgets.induct)
  case (3 n c s)
  obtain l r' e' where f: "fgets n s = (l, r', e')" by (cases "fgets n s")
  show ?case
  proof (cases "c = CHR 0x0A \<or> n = 0")
    case True
    then show ?thesis using "3.prems" f by (cases n) (auto split: if_splits)
  next
    case False
    then have "r = r'" "e = e'" using "3.prems"(1) f by auto
    moreover have "length r' < length s" using "3.IH" [OF _ f] False "3.prems"(3) \<open>e = e'\<close> by simp
    ultimately show ?thesis by simp
  qed
qed auto

function config_loop :: "string \<Rightarrow> (string \<rightharpoonup> string) \<Rightarrow> (string \<rightharpoonup> string)" where
  "config_loop s m = (case fgets 511 s of (buf, r, eof) \<Rightarrow>
     let m = config_insert (config_item buf) m in if eof then m else config_loop r m)"
  by pat_completeness auto
termination
  by (relation "measure (\<lambda>(s, m). length s)") (auto dest: fgets_rest [OF sym])

declare config_loop.simps [simp del]

definition LoadConfigFile :: "(string \<rightharpoonup> string) \<Rightarrow> string \<Rightarrow> exn + (string \<rightharpoonup> string)" where
  "LoadConfigFile d config_file =
     (case d config_file of None \<Rightarrow> Inl (Exit (config_file @ '' is note exist!''))
      | Some s \<Rightarrow> Inr (config_loop s Map.empty))"

definition Load :: "(string \<rightharpoonup> string) \<Rightarrow> string \<Rightarrow> string" where
  "Load m key = (case m key of None \<Rightarrow> [] | Some v \<Rightarrow> v)"

section \<open>The list of nodes\<close>

text \<open>\<open>std::atoi\<close>: white space, a sign, digits.\<close>

definition is_space :: "char \<Rightarrow> bool" where
  "is_space c \<longleftrightarrow> c = CHR '' '' \<or> 9 \<le> (of_char c :: nat) \<and> of_char c \<le> (13 :: nat)"

definition digit_value :: "char \<Rightarrow> nat option" where
  "digit_value c = (if 48 \<le> (of_char c :: nat) \<and> of_char c \<le> (57 :: nat) then Some (of_char c - 48) else None)"

fun digits_value :: "nat \<Rightarrow> string \<Rightarrow> nat" where
  "digits_value n [] = n"
| "digits_value n (c # s) = (case digit_value c of None \<Rightarrow> n | Some d \<Rightarrow> digits_value (10 * n + d) s)"

definition atoi :: "string \<Rightarrow> int" where
  "atoi s = (case dropWhile is_space s of
       [] \<Rightarrow> 0
     | c # r \<Rightarrow> if c = CHR ''-'' then - int (digits_value 0 r)
                else if c = CHR ''+'' then int (digits_value 0 r) else int (digits_value 0 (c # r)))"

function load_nodes :: "(string \<rightharpoonup> string) \<Rightarrow> nat \<Rightarrow> (string \<times> 16 word) list" where
  "load_nodes config i =
     (if i < 2147483646 then
        let node = ''node'' @ dec_string i; nodeIp = Load config (node @ ''ip'');
          nodePortStr = Load config (node @ ''port'')
        in if nodeIp = [] then [] else (nodeIp, word_of_int (atoi nodePortStr)) # load_nodes config (Suc i)
      else [])"
  by pat_completeness auto
termination
  by (relation "measure (\<lambda>(c, i). 2147483646 - i)") auto

declare load_nodes.simps [simp del]

text \<open>What \<open>RpcProvider::Run\<close> appends: the port is printed as a signed number.\<close>

definition node_lines :: "nat \<Rightarrow> 16 word \<Rightarrow> string" where
  "node_lines nodeIndex port =
     (let node = ''node'' @ dec_string nodeIndex in
      node @ ''ip=127.0.0.1'' @ [CHR 0x0A] @ node @ ''port='' @ int_string (sint port) @ [CHR 0x0A])"

definition append_node :: "(string \<Rightarrow> bool) \<Rightarrow> string \<Rightarrow> nat \<Rightarrow> 16 word \<Rightarrow> (string \<rightharpoonup> string) \<Rightarrow> exn + (string \<rightharpoonup> string)" where
  "append_node opens configFileName nodeIndex port d =
     (if opens configFileName
      then Inr (d(configFileName \<mapsto>
             (case d configFileName of None \<Rightarrow> [] | Some s \<Rightarrow> s) @ node_lines nodeIndex port))
      else Inl (Exit (''failed to open config file: '' @ configFileName)))"

section \<open>Numbers read back\<close>

lemma digits_value_append:
  "(\<And>c. c \<in> set s \<Longrightarrow> digit_value c \<noteq> None) \<Longrightarrow> digits_value n (s @ t) = digits_value (digits_value n s) t"
  by (induction s arbitrary: n) (fastforce split: option.splits)+

lemma dec_string_is_digit: "c \<in> set (dec_string n) \<Longrightarrow> digit_value c \<noteq> None"
  using dec_string_digits [of c n] by (simp add: digit_value_def)

lemma digit_value_char [simp]: "d < 10 \<Longrightarrow> digit_value (char_of (48 + d)) = Some d"
  by (simp add: digit_value_def)

lemma digits_value_dec [simp]: "digits_value 0 (dec_string n) = n"
proof (induction n rule: dec_string.induct)
  case (1 n)
  show ?case
  proof (cases "n < 10")
    case True
    then show ?thesis by (simp add: dec_string.simps [of n])
  next
    case False
    have "digits_value 0 (dec_string (n div 10) @ [char_of (48 + n mod 10)]) = n div 10 * 10 + n mod 10"
      using 1 False dec_string_is_digit [of _ "n div 10"] by (subst digits_value_append) auto
    then show ?thesis using False by (simp add: dec_string.simps [of n])
  qed
qed

lemma atoi_dec: "atoi (dec_string n) = int n"
proof -
  obtain c s where s: "dec_string n = c # s" by (cases "dec_string n") auto
  have "48 \<le> (of_char c :: nat) \<and> of_char c \<le> (57 :: nat)" using dec_string_digits [of c n] s by simp
  moreover from this have "\<not> is_space c" "c \<noteq> CHR ''-''" "c \<noteq> CHR ''+''" by (auto simp: is_space_def)
  ultimately show ?thesis using s digits_value_dec [of n] by (simp add: atoi_def)
qed

lemma atoi_int_string [simp]: "atoi (int_string i) = i"
  by (cases "i < 0") (simp_all add: int_string_def atoi_dec, simp add: atoi_def is_space_def)

section \<open>Lines read back\<close>

definition line_char :: "char \<Rightarrow> bool" where
  "line_char c \<longleftrightarrow> c \<notin> {CHR 0x00, CHR 0x0A, CHR '' '', CHR ''='', CHR ''#''}"

definition item_ok :: "string \<times> string \<Rightarrow> bool" where
  "item_ok kv \<longleftrightarrow> fst kv \<noteq> [] \<and> (\<forall>c \<in> set (fst kv) \<union> set (snd kv). line_char c) \<and>
     length (fst kv) + length (snd kv) < 510"

definition file_of :: "(string \<times> string) list \<Rightarrow> string" where
  "file_of items = concat (map (\<lambda>(k, v). k @ CHR ''='' # v @ [CHR 0x0A]) items)"

lemma file_of_simps [simp]:
  "file_of [] = []"
  "file_of (i # items) = fst i @ CHR ''='' # snd i @ CHR 0x0A # file_of items"
  "file_of (items @ items') = file_of items @ file_of items'"
  by (simp_all add: file_of_def split: prod.split)

lemma fgets_line:
  "CHR 0x0A \<notin> set l \<Longrightarrow> length l < n \<Longrightarrow> fgets n (l @ CHR 0x0A # s) = (l @ [CHR 0x0A], s, False)"
proof (induction l arbitrary: n)
  case Nil
  then show ?case by (cases n) auto
next
  case (Cons c l)
  then show ?case by (cases n) auto
qed

lemma find_upt_first:
  assumes "a \<le> i" "i < b" "P i" "\<And>j. a \<le> j \<Longrightarrow> j < i \<Longrightarrow> \<not> P j"
  shows "find P [a..<b] = Some i"
proof -
  have "i - a < length [a..<b] \<and> P ([a..<b] ! (i - a)) \<and> i = [a..<b] ! (i - a) \<and>
      (\<forall>j < i - a. \<not> P ([a..<b] ! j))"
    using assms by simp
  then show ?thesis unfolding find_Some_iff by blast
qed

lemma find_from_char:
  assumes "start \<le> length l" "\<And>x. x \<in> set (drop start l) \<Longrightarrow> \<not> P x" "P c"
  shows "find_from P start (l @ c # r) = Some (length l)"
  unfolding find_from_def
proof (rule find_upt_first)
  fix j assume j: "start \<le> j" "j < length l"
  then have "l ! j = drop start l ! (j - start)" "j - start < length (drop start l)" by simp_all
  then have "l ! j \<in> set (drop start l)" by (metis nth_mem)
  then show "\<not> P ((l @ c # r) ! j)" using assms(2) j by (simp add: nth_append)
qed (use assms in auto)

lemma Trim_id:
  assumes "s \<noteq> []" "hd s \<noteq> CHR '' ''" "last s \<noteq> CHR '' ''"
  shows "Trim s = s"
proof -
  have first: "find_from (\<lambda>c. c \<noteq> CHR '' '') 0 s = Some 0"
    unfolding find_from_def by (rule find_upt_first) (use assms in \<open>auto simp: hd_conv_nth\<close>)
  have "find_last (\<lambda>c. c \<noteq> CHR '' '') s = Some (length s - 1)"
    using assms by (cases s rule: rev_cases) (simp_all add: find_last_def)
  then show ?thesis using first assms(1) by (simp add: Trim_def)
qed

lemma Trim_line_chars: "(\<And>c. c \<in> set s \<Longrightarrow> line_char c) \<Longrightarrow> Trim s = s"
proof (cases "s = []")
  case True
  then show ?thesis by (simp add: Trim_def find_from_def find_last_def)
next
  case False
  assume "\<And>c. c \<in> set s \<Longrightarrow> line_char c"
  then have "line_char (hd s)" "line_char (last s)" using False by simp_all
  then show ?thesis using False by (intro Trim_id) (auto simp: line_char_def)
qed

lemma config_item_line:
  assumes "item_ok (k, v)"
  shows "config_item (k @ CHR ''='' # v @ [CHR 0x0A]) = Some (k, v)"
proof -
  let ?s = "k @ CHR ''='' # v @ [CHR 0x0A]"
  have k: "k \<noteq> []" "\<And>c. c \<in> set k \<Longrightarrow> line_char c" and v: "\<And>c. c \<in> set v \<Longrightarrow> line_char c"
    using assms by (auto simp: item_ok_def)
  have h: "line_char (hd k)" using k by simp
  have c: "c_str ?s = ?s" unfolding c_str_def
    by (rule takeWhile_eq_all_conv [THEN iffD2]) (use k(2) v in \<open>auto simp: line_char_def\<close>)
  have t: "Trim ?s = ?s" by (rule Trim_id) (use k(1) h in \<open>auto simp: line_char_def\<close>)
  have e: "find_from (\<lambda>c. c = CHR ''='') 0 ?s = Some (length k)"
    by (rule find_from_char) (use k(2) in \<open>auto simp: line_char_def\<close>)
  have "find_from (\<lambda>c. c = CHR 0x0A) (length k) ((k @ CHR ''='' # v) @ CHR 0x0A # []) = Some (length (k @ CHR ''='' # v))"
    by (rule find_from_char) (use v in \<open>auto simp: line_char_def\<close>)
  then have n: "find_from (\<lambda>c. c = CHR 0x0A) (length k) ?s = Some (length k + length v + 1)" by simp
  have "hd ?s \<noteq> CHR ''#''" using k(1) h by (auto simp: line_char_def)
  then show ?thesis
    using k(1) e n by (simp add: config_item_def c t Trim_line_chars k(2) v)
qed

lemma config_loop_file:
  assumes "\<And>i. i \<in> set items \<Longrightarrow> item_ok i"
  shows "config_loop (file_of items) m = map_of items ++ m"
  using assms
proof (induction items arbitrary: m)
  case Nil
  have "fgets 511 [] = ([], [], True)" using fgets.simps(2) [of 510] by simp
  then show ?case
    by (simp add: config_loop.simps [of "[]"] config_insert_def config_item_def c_str_def Trim_def find_from_def
        find_last_def)
next
  case (Cons i items)
  obtain k v where i: "i = (k, v)" by force
  have ok: "item_ok (k, v)" using Cons.prems i by simp
  then have "CHR 0x0A \<notin> set (k @ CHR ''='' # v)" "length (k @ CHR ''='' # v) < 511"
    by (auto simp: item_ok_def line_char_def)
  from fgets_line [OF this, of "file_of items"]
  have f: "fgets 511 (file_of (i # items)) = (k @ CHR ''='' # v @ [CHR 0x0A], file_of items, False)"
    by (simp add: i)
  have "config_loop (file_of (i # items)) m = map_of items ++ config_insert (Some (k, v)) m"
    using Cons by (subst config_loop.simps) (simp only: f config_item_line [OF ok] prod.case Let_def if_False, simp)
  also have "\<dots> = map_of (i # items) ++ m"
    by (auto simp: i config_insert_def fun_eq_iff map_add_def split: option.split)
  finally show ?case .
qed

section \<open>Nodes read back\<close>

definition node_items :: "nat \<Rightarrow> 16 word \<Rightarrow> (string \<times> string) list" where
  "node_items i p = [(''node'' @ dec_string i @ ''ip'', ''127.0.0.1''),
     (''node'' @ dec_string i @ ''port'', int_string (sint p))]"

lemma node_lines_items: "node_lines i p = file_of (node_items i p)"
  by (simp add: node_lines_def node_items_def)

lemma dec_string_line_char: "c \<in> set (dec_string n) \<Longrightarrow> line_char c"
  using dec_string_digits [of c n] by (auto simp: line_char_def)

lemma node_items_ok:
  assumes "i < 2147483646" "x \<in> set (node_items i p)"
  shows "item_ok x"
proof -
  have l: "length (dec_string i) \<le> 10" using dec_string_length [of i 9] assms(1) by simp
  have "\<bar>sint p\<bar> \<le> 2 ^ 15" using sint_greater_eq [of p] sint_lt [of p] by simp
  then have "nat \<bar>sint p\<bar> < 10 ^ Suc 4" by simp
  from dec_string_length [OF this] have m: "length (int_string (sint p)) \<le> 6"
    by (cases "sint p < 0") (simp_all add: int_string_def)
  have "\<And>c. c \<in> set (int_string (sint p)) \<Longrightarrow> line_char c"
    using dec_string_line_char by (auto simp: int_string_def line_char_def split: if_splits)
  moreover have "\<forall>c \<in> set ''node'' \<union> set ''ip'' \<union> set ''port'' \<union> set ''127.0.0.1''. line_char c"
    by (simp add: line_char_def)
  ultimately have "\<forall>c \<in> set (fst x) \<union> set (snd x). line_char c"
    using assms(2) dec_string_line_char [of _ i] by (auto simp only: node_items_def list.set fst_conv snd_conv set_append
      insert_iff empty_iff Un_iff ball_Un)
  then show ?thesis using assms(2) l m by (auto simp: node_items_def item_ok_def)
qed

lemma map_of_nodes:
  defines "m \<equiv> \<lambda>runs. map_of (concat (map (\<lambda>(i, p). node_items i p) runs))"
  shows "m runs (''node'' @ dec_string i @ ''ip'') = map_option (\<lambda>_. ''127.0.0.1'') (map_of runs i)"
    "m runs (''node'' @ dec_string i @ ''port'') = map_option (\<lambda>p. int_string (sint p)) (map_of runs i)"
proof -
  have ne: "dec_string i @ ''ip'' \<noteq> dec_string j @ ''port''" for i j
  proof
    assume "dec_string i @ ''ip'' = dec_string j @ ''port''"
    then have "last (dec_string i @ ''ip'') = last (dec_string j @ ''port'')" by simp
    then show False by simp
  qed
  show "m runs (''node'' @ dec_string i @ ''ip'') = map_option (\<lambda>_. ''127.0.0.1'') (map_of runs i)"
    "m runs (''node'' @ dec_string i @ ''port'') = map_option (\<lambda>p. int_string (sint p)) (map_of runs i)"
    unfolding m_def by (induction runs) (use ne in \<open>auto simp: node_items_def dest: sym\<close>)
qed

lemma load_nodes_map:
  assumes "\<And>j. i \<le> j \<Longrightarrow> j < n \<Longrightarrow> Load m (''node'' @ dec_string j @ ''ip'') \<noteq> []"
    "Load m (''node'' @ dec_string n @ ''ip'') = []" "i \<le> n" "n < 2147483646"
  shows "load_nodes m i = map (\<lambda>j. (Load m (''node'' @ dec_string j @ ''ip''),
     word_of_int (atoi (Load m (''node'' @ dec_string j @ ''port''))))) [i..<n]"
  using assms(1,3)
proof (induction "n - i" arbitrary: i)
  case 0
  then show ?case using assms(2,4) by (subst load_nodes.simps) simp
next
  case (Suc d)
  then have "load_nodes m (Suc i) = map (\<lambda>j. (Load m (''node'' @ dec_string j @ ''ip''),
      word_of_int (atoi (Load m (''node'' @ dec_string j @ ''port''))))) [Suc i..<n]" "i < n"
    by auto
  then show ?case using Suc.prems assms(4) by (subst load_nodes.simps) (simp add: Let_def upt_conv_Cons)
qed

lemma append_nodes:
  assumes "opens f" "d f = Some s"
  shows "append_node opens f i p d = Inr (d(f \<mapsto> s @ node_lines i p))"
  using assms by (simp add: append_node_def)

end
