(* ===== verification/Clerk.thy ===== *)
theory Clerk
  imports Kv_Server Config_File
begin

text \<open>
  The client of \<open>raftClerk/clerk.cpp\<close>.  It numbers its requests and sends a request to one server after
  the other until one of them takes it.

  The remote calls of \<open>raftServerRpcUtil\<close> are a parameter: what the \<open>n\<close>-th attempt of a call at a server
  comes back with, \<open>None\<close> when the RPC failed.  A loop may run for ever, so the calls are partial:
  the value \<open>None\<close> is a call that does not return.
\<close>

record clerk =
  m_servers :: "(string \<times> 16 word) list"
  m_clientId :: string
  m_requestId :: int
  m_recentLeaderId :: int

type_synonym ('a, 'r) net = "nat \<Rightarrow> int \<Rightarrow> 'a \<Rightarrow> 'r option"

text \<open>\<open>Uuid\<close>: the clock and the number of clients created before in this process.\<close>

definition Uuid :: "int \<Rightarrow> nat \<Rightarrow> string" where
  "Uuid now seq = int_string now @ ''_'' @ dec_string seq"

definition Clerk_new :: "int \<Rightarrow> nat \<Rightarrow> clerk" where
  "Clerk_new now seq = \<lparr>m_servers = [], m_clientId = Uuid now seq, m_requestId = 0, m_recentLeaderId = 0\<rparr>"

definition clerk_Init :: "(string \<rightharpoonup> string) \<Rightarrow> string \<Rightarrow> clerk \<Rightarrow> exn + clerk" where
  "clerk_Init d configFileName c =
     bindE (LoadConfigFile d configFileName) (\<lambda>config.
     Inr (c\<lparr>m_servers := m_servers c @ load_nodes config 0\<rparr>))"

abbreviation next_server :: "int \<Rightarrow> int \<Rightarrow> int" where
  "next_server serverCount server \<equiv> (server + 1) mod serverCount"

partial_function (option) Get_loop ::
  "(GetArgs, GetReply) net \<Rightarrow> GetArgs \<Rightarrow> int \<Rightarrow> nat \<Rightarrow> int \<Rightarrow> (exn + int option \<times> string) option" where
  "Get_loop net args serverCount n server =
     (if \<not> (0 \<le> server \<and> server < serverCount) then Some (Inl (UndefinedBehaviour ''m_servers''))
      else case net n server args of
        None \<Rightarrow> Get_loop net args serverCount (Suc n) (next_server serverCount server)
      | Some reply \<Rightarrow>
          if gr_err reply = ErrWrongLeader then Get_loop net args serverCount (Suc n) (next_server serverCount server)
          else if gr_err reply = ErrNoKey then Some (Inr (None, []))
          else if gr_err reply = OK then Some (Inr (Some server, gr_value reply))
          else Get_loop net args serverCount (Suc n) server)"

definition clerk_Get :: "(GetArgs, GetReply) net \<Rightarrow> string \<Rightarrow> clerk \<Rightarrow> (exn + clerk \<times> string) option" where
  "clerk_Get net key c =
     (if m_servers c = [] then Some (Inl (AssertFail ''Clerk has no raft servers. Call Init before sending requests.''))
      else
        let c = c\<lparr>m_requestId := m_requestId c + 1\<rparr>;
          args = \<lparr>ga_key = key, ga_clientid = m_clientId c, ga_requestid = m_requestId c\<rparr>
        in map_option (map_sum id (\<lambda>(leader, v).
             (case leader of None \<Rightarrow> c | Some s \<Rightarrow> c\<lparr>m_recentLeaderId := s\<rparr>, v)))
           (Get_loop net args (int (length (m_servers c))) 0 (m_recentLeaderId c)))"

partial_function (option) PutAppend_loop ::
  "(PutAppendArgs, string) net \<Rightarrow> PutAppendArgs \<Rightarrow> int \<Rightarrow> nat \<Rightarrow> int \<Rightarrow> (exn + int) option" where
  "PutAppend_loop net args serverCount n server =
     (if \<not> (0 \<le> server \<and> server < serverCount) then Some (Inl (UndefinedBehaviour ''m_servers''))
      else case net n server args of
        None \<Rightarrow> PutAppend_loop net args serverCount (Suc n) (next_server serverCount server)
      | Some err \<Rightarrow>
          if err = ErrWrongLeader then PutAppend_loop net args serverCount (Suc n) (next_server serverCount server)
          else if err = OK then Some (Inr server)
          else PutAppend_loop net args serverCount (Suc n) server)"

text \<open>
  \<open>PutAppend\<close> and \<open>PutAppendWithTTL\<close> differ in the field \<open>ttlms\<close>, which the first leaves at its default
  zero.
\<close>

definition put_append_args :: "string \<Rightarrow> string \<Rightarrow> string \<Rightarrow> 64 word \<Rightarrow> clerk \<Rightarrow> PutAppendArgs" where
  "put_append_args key v op ttlMs c =
     \<lparr>pa_key = key, pa_value = v, pa_op = op, pa_clientid = m_clientId c, pa_requestid = m_requestId c + 1,
      pa_ttlms = ttlMs\<rparr>"

definition clerk_PutAppendWithTTL ::
  "(PutAppendArgs, string) net \<Rightarrow> string \<Rightarrow> string \<Rightarrow> string \<Rightarrow> 64 word \<Rightarrow> clerk \<Rightarrow> (exn + clerk) option" where
  "clerk_PutAppendWithTTL net key v op ttlMs c =
     (if m_servers c = [] then Some (Inl (AssertFail ''Clerk has no raft servers. Call Init before sending requests.''))
      else map_option (map_sum id (\<lambda>server. c\<lparr>m_requestId := m_requestId c + 1, m_recentLeaderId := server\<rparr>))
             (PutAppend_loop net (put_append_args key v op ttlMs c) (int (length (m_servers c))) 0 (m_recentLeaderId c)))"

definition clerk_PutAppend :: "(PutAppendArgs, string) net \<Rightarrow> string \<Rightarrow> string \<Rightarrow> string \<Rightarrow> clerk \<Rightarrow> (exn + clerk) option" where
  "clerk_PutAppend net key v op c = clerk_PutAppendWithTTL net key v op 0 c"

definition clerk_Put where "clerk_Put net key v c = clerk_PutAppend net key v ''Put'' c"
definition clerk_Append where "clerk_Append net key v c = clerk_PutAppend net key v ''Append'' c"
definition clerk_PutWithTTL where "clerk_PutWithTTL net key v ttlMs c = clerk_PutAppendWithTTL net key v ''Put'' ttlMs c"
definition clerk_AppendWithTTL where
  "clerk_AppendWithTTL net key v ttlMs c = clerk_PutAppendWithTTL net key v ''Append'' ttlMs c"

section \<open>Calls return\<close>

definition clerk_wf :: "clerk \<Rightarrow> bool" where
  "clerk_wf c \<longleftrightarrow> 0 \<le> m_recentLeaderId c \<and> (m_servers c \<noteq> [] \<longrightarrow> m_recentLeaderId c < int (length (m_servers c)))"

text \<open>The servers are asked round about: any of them is reached after at most as many steps as there are servers.\<close>

definition distance :: "int \<Rightarrow> int \<Rightarrow> int \<Rightarrow> nat" where
  "distance N l s = nat ((l - s) mod N)"

lemma distance_step:
  assumes "0 \<le> s" "s < N" "0 \<le> l" "l < N" "s \<noteq> l"
  shows "distance N l (next_server N s) < distance N l s"
proof -
  have d: "0 < (l - s) mod N"
  proof -
    have "(l - s) mod N \<noteq> 0"
    proof
      assume "(l - s) mod N = 0"
      then have "l mod N = s mod N" by (metis mod_eq_dvd_iff mod_0_imp_dvd)
      then show False using assms by simp
    qed
    then show ?thesis using assms by (metis pos_mod_sign le_less order.strict_trans1 order.strict_trans2)
  qed
  have "(l - next_server N s) mod N = (l - s - 1) mod N" by (simp add: mod_diff_right_eq algebra_simps)
  also have "\<dots> = ((l - s) mod N - 1) mod N" by (simp add: mod_diff_left_eq)
  also have "\<dots> = (l - s) mod N - 1"
  proof (rule mod_pos_pos_trivial)
    show "0 \<le> (l - s) mod N - 1" using d by simp
    show "(l - s) mod N - 1 < N" using assms by (smt (verit) pos_mod_bound)
  qed
  finally show ?thesis using d by (simp add: distance_def)
qed

lemma next_server_range: "0 \<le> s \<Longrightarrow> s < N \<Longrightarrow> 0 \<le> next_server N s \<and> next_server N s < N"
  by simp

text \<open>
  A server can take requests from an attempt on: it then answers them for good, and the others answer with one of
  the codes the client knows, or not at all.
\<close>

definition takes_writes :: "(PutAppendArgs, string) net \<Rightarrow> PutAppendArgs \<Rightarrow> int \<Rightarrow> nat \<Rightarrow> int \<Rightarrow> bool" where
  "takes_writes net args N T l \<longleftrightarrow> 0 \<le> l \<and> l < N \<and> (\<forall>n \<ge> T. net n l args = Some OK) \<and>
     (\<forall>n s err. net n s args = Some err \<longrightarrow> err = OK \<or> err = ErrWrongLeader)"

lemma PutAppend_loop_returns:
  assumes "takes_writes net args N T l" "0 \<le> s" "s < N"
  shows "\<exists>r. PutAppend_loop net args N n s = Some (Inr r)"
  using assms(2,3)
proof (induction "(T - n, distance N l s)" arbitrary: n s rule: wf_induct_rule [OF wf_lex_prod [OF wf_less_than wf_less_than]])
  case (1 n s)
  note l = assms(1) [unfolded takes_writes_def]
  have go: "PutAppend_loop net args N (Suc n) (next_server N s) = Some (Inr r) \<Longrightarrow> net n s args \<noteq> Some OK \<Longrightarrow>
      PutAppend_loop net args N n s = Some (Inr r)" for r
    using l "1.prems" by (subst PutAppend_loop.simps) (auto split: option.split)
  show ?case
  proof (cases "net n s args = Some OK")
    case True
    then show ?thesis using "1.prems" by (subst PutAppend_loop.simps) (simp add: reply_codes)
  next
    case False
    have "((T - Suc n, distance N l (next_server N s)), (T - n, distance N l s)) \<in> less_than <*lex*> less_than"
    proof (cases "n < T")
      case True
      then show ?thesis by (simp add: diff_less_mono2)
    next
      case False
      then have "s \<noteq> l" using \<open>net n s args \<noteq> Some OK\<close> l by auto
      then show ?thesis using distance_step "1.prems" l False by simp
    qed
    from "1.hyps" [OF this] next_server_range [OF "1.prems"] show ?thesis using go False by blast
  qed
qed

lemma PutAppend_loop_acknowledged:
  "PutAppend_loop net args N n s = Some y \<Longrightarrow> y = Inr r \<Longrightarrow> \<exists>m \<ge> n. net m r args = Some OK \<and> 0 \<le> r \<and> r < N"
proof (induct net args N n s y rule: PutAppend_loop.raw_induct [rotated, consumes 1, case_names step])
  case (step PutAppend_loop net args N n s y)
  show ?case
  proof (cases "PutAppend_loop net args N (Suc n) (next_server N s) = Some y \<or> PutAppend_loop net args N (Suc n) s = Some y")
    case True
    then show ?thesis using step(1) [OF _ step(3)] by (meson Suc_leD)
  next
    case False
    then show ?thesis using step(2,3) by (auto split: if_splits option.splits)
  qed
qed

definition answers_reads :: "(GetArgs, GetReply) net \<Rightarrow> GetArgs \<Rightarrow> int \<Rightarrow> nat \<Rightarrow> int \<Rightarrow> bool" where
  "answers_reads net args N T l \<longleftrightarrow> 0 \<le> l \<and> l < N \<and>
     (\<forall>n \<ge> T. \<exists>reply. net n l args = Some reply \<and> gr_err reply \<in> {OK, ErrNoKey}) \<and>
     (\<forall>n s reply. net n s args = Some reply \<longrightarrow> gr_err reply \<in> {OK, ErrNoKey, ErrWrongLeader})"

lemma Get_loop_returns:
  assumes "answers_reads net args N T l" "0 \<le> s" "s < N"
  shows "\<exists>r. Get_loop net args N n s = Some (Inr r)"
  using assms(2,3)
proof (induction "(T - n, distance N l s)" arbitrary: n s rule: wf_induct_rule [OF wf_lex_prod [OF wf_less_than wf_less_than]])
  case (1 n s)
  note l = assms(1) [unfolded answers_reads_def]
  have go: "Get_loop net args N (Suc n) (next_server N s) = Some (Inr r) \<Longrightarrow>
      (\<And>reply. net n s args = Some reply \<Longrightarrow> gr_err reply = ErrWrongLeader) \<Longrightarrow>
      Get_loop net args N n s = Some (Inr r)" for r
    using "1.prems" by (subst Get_loop.simps) (auto split: option.split)
  show ?case
  proof (cases "\<exists>reply. net n s args = Some reply \<and> gr_err reply \<noteq> ErrWrongLeader")
    case True
    then obtain reply where "net n s args = Some reply" "gr_err reply \<in> {OK, ErrNoKey}" using l by blast
    then show ?thesis using "1.prems" by (subst Get_loop.simps) (auto simp: reply_codes)
  next
    case False
    have "((T - Suc n, distance N l (next_server N s)), (T - n, distance N l s)) \<in> less_than <*lex*> less_than"
    proof (cases "n < T")
      case True
      then show ?thesis by (simp add: diff_less_mono2)
    next
      case F: False
      then obtain reply where r: "net n l args = Some reply" "gr_err reply \<in> {OK, ErrNoKey}"
        using l by (meson not_less)
      then have "gr_err reply \<noteq> ErrWrongLeader" by (auto simp: reply_codes)
      then have "s \<noteq> l" using False r(1) by blast
      then show ?thesis using distance_step "1.prems" l F by simp
    qed
    from "1.hyps" [OF this] next_server_range [OF "1.prems"] show ?thesis using go False by blast
  qed
qed

lemma Get_loop_answered:
  "Get_loop net args N n s = Some y \<Longrightarrow> y = Inr (leader, v) \<Longrightarrow>
    \<exists>m \<ge> n. \<exists>t reply. 0 \<le> t \<and> t < N \<and> net m t args = Some reply \<and>
      (if gr_err reply = OK then leader = Some t \<and> v = gr_value reply
       else gr_err reply = ErrNoKey \<and> leader = None \<and> v = [])"
proof (induct net args N n s y rule: Get_loop.raw_induct [rotated, consumes 1, case_names step])
  case (step Get_loop net args N n s y)
  show ?case
  proof (cases "Get_loop net args N (Suc n) (next_server N s) = Some y \<or> Get_loop net args N (Suc n) s = Some y")
    case True
    then show ?thesis using step(1) [OF _ step(3)] by (meson Suc_leD)
  next
    case False
    then have "\<exists>reply. 0 \<le> s \<and> s < N \<and> net n s args = Some reply \<and>
        (if gr_err reply = OK then leader = Some s \<and> v = gr_value reply
         else gr_err reply = ErrNoKey \<and> leader = None \<and> v = [])"
      using step(2,3)
      by (intro exI [of _ "the (net n s args)"]) (auto split: if_splits option.splits simp: reply_codes)
    then show ?thesis by blast
  qed
qed

end
