(* ===== verification/Client_Props.thy ===== *)
theory Client_Props
  imports Kv_Props Clerk
begin

text \<open>
  The client's side: the cluster file, the calls of the client, and what its repeated requests do to the
  replicated state.
\<close>

section \<open>The cluster file\<close>

definition start_nodes :: "(string \<Rightarrow> bool) \<Rightarrow> string \<Rightarrow> (nat \<times> 16 word) list \<Rightarrow> (string \<rightharpoonup> string) \<Rightarrow> exn + (string \<rightharpoonup> string)" where
  "start_nodes opens f runs d = foldl (\<lambda>r (i, p). bindE r (append_node opens f i p)) (Inr d) runs"

lemma start_nodes_file:
  assumes "opens f" "d f = Some s"
  shows "start_nodes opens f runs d =
    Inr (d(f \<mapsto> s @ file_of (concat (map (\<lambda>(i, p). node_items i p) runs))))"
  using assms(2)
proof (induction runs arbitrary: d s)
  case Nil
  then show ?case by (simp add: start_nodes_def fun_upd_idem)
next
  case (Cons x runs)
  obtain i p where x: "x = (i, p)" by force
  have "start_nodes opens f (x # runs) d = start_nodes opens f runs (d(f \<mapsto> s @ node_lines i p))"
    by (simp add: start_nodes_def x append_nodes [of opens f d s, OF assms(1) Cons.prems])
  also have "\<dots> = Inr (d(f \<mapsto> s @ file_of (concat (map (\<lambda>(i, p). node_items i p) (x # runs)))))"
    by (subst Cons.IH [of _ "s @ node_lines i p"]) (simp_all add: x node_lines_items)
  finally show ?case .
qed

text \<open>
  C29: nodes started in any order, some of them more than once, append their addresses to an empty cluster file;
  whoever reads the file gets the nodes 0, 1, ... up to the first that has not written yet, each with the port, as a
  16-bit number, of its first start.
\<close>

theorem cluster_file_roundtrip:
  assumes "opens f" "d f = Some []" "\<forall>(i, p) \<in> set runs. i < 2147483646"
    "{0..<n} \<subseteq> fst ` set runs" "n \<notin> fst ` set runs" "n < 2147483646"
  shows "\<exists>d' config. start_nodes opens f runs d = Inr d' \<and> LoadConfigFile d' f = Inr config \<and>
    load_nodes config 0 = map (\<lambda>i. (''127.0.0.1'', the (map_of runs i))) [0..<n]"
proof -
  let ?items = "concat (map (\<lambda>(i, p). node_items i p) runs)"
  have ok: "\<And>x. x \<in> set ?items \<Longrightarrow> item_ok x" using assms(3) node_items_ok by fastforce
  have load: "LoadConfigFile (d(f \<mapsto> file_of ?items)) f = Inr (map_of ?items)"
    using config_loop_file [where m = Map.empty and items = ?items] ok by (simp add: LoadConfigFile_def)
  have ip: "Load (map_of ?items) (''node'' @ dec_string j @ ''ip'') = ''127.0.0.1''"
    and port: "Load (map_of ?items) (''node'' @ dec_string j @ ''port'') = int_string (sint (the (map_of runs j)))"
    if "j < n" for j
  proof -
    have "j \<in> fst ` set runs" using assms(4) that by auto
    then obtain p where "map_of runs j = Some p" by (metis map_of_eq_None_iff option.exhaust)
    then show "Load (map_of ?items) (''node'' @ dec_string j @ ''ip'') = ''127.0.0.1''"
      "Load (map_of ?items) (''node'' @ dec_string j @ ''port'') = int_string (sint (the (map_of runs j)))"
      unfolding Load_def map_of_nodes by simp_all
  qed
  have "map_of runs n = None" using assms(5) by (simp add: map_of_eq_None_iff)
  then have "Load (map_of ?items) (''node'' @ dec_string n @ ''ip'') = []" unfolding Load_def map_of_nodes by simp
  then have "load_nodes (map_of ?items) 0 = map (\<lambda>j. (Load (map_of ?items) (''node'' @ dec_string j @ ''ip''),
      word_of_int (atoi (Load (map_of ?items) (''node'' @ dec_string j @ ''port''))))) [0..<n]"
    using load_nodes_map [of 0 n "map_of ?items"] assms(6) ip by simp
  also have "\<dots> = map (\<lambda>i. (''127.0.0.1'', the (map_of runs i))) [0..<n]"
    by (rule map_cong) (simp_all only: ip port atoi_int_string set_upt atLeastLessThan_iff of_int_sint scast_id)
  finally show ?thesis using load start_nodes_file [of opens f d "[]" runs, OF assms(1,2)] by auto
qed

theorem cluster_file_roundtrip_witness:
  "\<exists>d' config. start_nodes (\<lambda>_. True) ''f'' [(1, 40000), (0, 8000), (1, 9), (3, 7)] [''f'' \<mapsto> []] = Inr d' \<and>
     LoadConfigFile d' ''f'' = Inr config \<and>
     load_nodes config 0 = [(''127.0.0.1'', 8000), (''127.0.0.1'', 40000)]"
  using cluster_file_roundtrip [of "\<lambda>_. True" "''f''" "[''f'' \<mapsto> []]" "[(1, 40000), (0, 8000), (1, 9), (3, 7)]" 2]
  by (simp add: numeral_2_eq_2 atLeast0_lessThan_Suc)

section \<open>Calls\<close>

text \<open>
  C21: a write call returns as soon as one server takes requests for good and the others turn them away; every
  attempt carries the same new request number, the call ends with a server that acknowledged it, and the next
  call starts there.
\<close>

theorem clerk_write_returns:
  assumes "clerk_wf c" "m_servers c \<noteq> []"
    "takes_writes net (put_append_args k v op ttlMs c) (int (length (m_servers c))) T l"
  shows "\<exists>s n. clerk_PutAppendWithTTL net k v op ttlMs c =
      Some (Inr (c\<lparr>m_requestId := m_requestId c + 1, m_recentLeaderId := s\<rparr>)) \<and>
    net n s (put_append_args k v op ttlMs c) = Some OK \<and> 0 \<le> s \<and> s < int (length (m_servers c))"
proof -
  have "0 \<le> m_recentLeaderId c" "m_recentLeaderId c < int (length (m_servers c))"
    using assms(1,2) by (simp_all add: clerk_wf_def)
  from PutAppend_loop_returns [OF assms(3) this]
  obtain s where s: "PutAppend_loop net (put_append_args k v op ttlMs c) (int (length (m_servers c))) 0 (m_recentLeaderId c) =
      Some (Inr s)" by blast
  obtain n where "net n s (put_append_args k v op ttlMs c) = Some OK" "0 \<le> s" "s < int (length (m_servers c))"
    using PutAppend_loop_acknowledged [OF s refl] by blast
  then show ?thesis using s assms(2) by (intro exI [of _ s] exI [of _ n]) (simp add: clerk_PutAppendWithTTL_def)
qed

definition demo_clerk :: clerk where
  "demo_clerk = (Clerk_new 5 1)\<lparr>m_servers := [(''127.0.0.1'', 1), (''127.0.0.1'', 2), (''127.0.0.1'', 3)]\<rparr>"

lemma demo_clerk_wf: "clerk_wf demo_clerk" "m_servers demo_clerk \<noteq> []" "int (length (m_servers demo_clerk)) = 3"
  by (simp_all add: demo_clerk_def clerk_wf_def Clerk_new_def)

text \<open>Server 0 is down, server 1 is no leader, and server 2 wins an election after ten attempts.\<close>

definition demo_net :: "nat \<Rightarrow> int \<Rightarrow> 'a \<Rightarrow> string option" where
  "demo_net n s args = (if s = 0 then None else if s = 1 \<or> n < 10 then Some ErrWrongLeader else Some OK)"

theorem clerk_write_returns_witness:
  "\<exists>s. clerk_PutAppendWithTTL demo_net ''k'' ''v'' ''Put'' 0 demo_clerk =
     Some (Inr (demo_clerk\<lparr>m_requestId := m_requestId demo_clerk + 1, m_recentLeaderId := s\<rparr>))"
proof -
  have "takes_writes demo_net (put_append_args ''k'' ''v'' ''Put'' 0 demo_clerk) 3 10 2"
    by (simp add: takes_writes_def demo_net_def reply_codes)
  then show ?thesis
    using clerk_write_returns [OF demo_clerk_wf(1,2), of demo_net "''k''" "''v''" "''Put''" 0 10 2] demo_clerk_wf(3) by auto
qed

text \<open>
  A read call returns when one server answers for good, and what it returns is what a server answered: the
  value, or the empty string for a key that is not there.
\<close>

theorem clerk_read_returns:
  assumes "clerk_wf c" "m_servers c \<noteq> []"
    "args = \<lparr>ga_key = k, ga_clientid = m_clientId c, ga_requestid = m_requestId c + 1\<rparr>"
    "answers_reads net args (int (length (m_servers c))) T l"
  shows "\<exists>c' v n s reply. clerk_Get net k c = Some (Inr (c', v)) \<and> net n s args = Some reply \<and>
    (if gr_err reply = OK then v = gr_value reply \<and> m_recentLeaderId c' = s
     else gr_err reply = ErrNoKey \<and> v = [] \<and> m_recentLeaderId c' = m_recentLeaderId c) \<and>
    m_requestId c' = m_requestId c + 1 \<and> clerk_wf c'"
proof -
  let ?N = "int (length (m_servers c))"
  have r: "0 \<le> m_recentLeaderId c" "m_recentLeaderId c < ?N" using assms(1,2) by (simp_all add: clerk_wf_def)
  from Get_loop_returns [OF assms(4) r] obtain leader v
    where g: "Get_loop net args ?N 0 (m_recentLeaderId c) = Some (Inr (leader, v))" by fast
  from Get_loop_answered [OF g refl] obtain n s reply where a: "0 \<le> s" "s < ?N" "net n s args = Some reply"
    "if gr_err reply = OK then leader = Some s \<and> v = gr_value reply else gr_err reply = ErrNoKey \<and> leader = None \<and> v = []"
    by blast
  define c' where "c' = (case leader of None \<Rightarrow> c | Some s \<Rightarrow> c\<lparr>m_recentLeaderId := s\<rparr>)\<lparr>m_requestId := m_requestId c + 1\<rparr>"
  have "clerk_Get net k c = Some (Inr (c', v))"
    using g assms(2,3) by (simp add: clerk_Get_def Let_def c'_def split: option.split)
  moreover have "clerk_wf c'" using assms(1) a by (auto simp: c'_def clerk_wf_def split: if_splits)
  ultimately show ?thesis using a(3,4) by (intro exI [of _ c'] exI [of _ v] exI [of _ n] exI [of _ s] exI [of _ reply])
      (auto simp: c'_def split: if_splits)
qed

theorem clerk_read_returns_witness:
  "\<exists>c'. clerk_Get (\<lambda>n s args. map_option (\<lambda>e. \<lparr>gr_err = e, gr_value = ''v''\<rparr>) (demo_net n s args)) ''k'' demo_clerk =
     Some (Inr (c', ''v'')) \<and> m_requestId c' = 1"
proof -
  let ?net = "\<lambda>n s args. map_option (\<lambda>e. \<lparr>gr_err = e, gr_value = ''v''\<rparr>) (demo_net n s args)"
  let ?args = "\<lparr>ga_key = ''k'', ga_clientid = m_clientId demo_clerk, ga_requestid = m_requestId demo_clerk + 1\<rparr>"
  have "answers_reads ?net ?args 3 10 2"
    by (auto simp: answers_reads_def demo_net_def)
  then show ?thesis
    using clerk_read_returns [OF demo_clerk_wf(1,2) refl, of ?net "''k''" 10 2] demo_clerk_wf(3)
    by (auto simp: demo_net_def reply_codes demo_clerk_def Clerk_new_def split: if_splits)
qed

section \<open>Requests take effect once\<close>

text \<open>The log with every request kept only where it occurs first.\<close>

definition request_id :: "64 word \<times> Op \<Rightarrow> string \<times> int" where
  "request_id x = (ClientId (snd x), RequestId (snd x))"

fun first_only :: "(string \<times> int) set \<Rightarrow> (64 word \<times> Op) list \<Rightarrow> (64 word \<times> Op) list" where
  "first_only seen [] = []"
| "first_only seen (x # xs) =
     (if request_id x \<in> seen then first_only seen xs else x # first_only (insert (request_id x) seen) xs)"

lemma first_only_set: "x \<in> set (first_only seen xs) \<Longrightarrow> x \<in> set xs \<and> request_id x \<notin> seen"
  by (induction seen xs rule: first_only.induct) (auto split: if_splits)

definition client_order :: "64 word \<times> Op \<Rightarrow> 64 word \<times> Op \<Rightarrow> bool" where
  "client_order x y \<longleftrightarrow> (ClientId (snd x) = ClientId (snd y) \<longrightarrow> RequestId (snd x) < RequestId (snd y))"

definition is_write :: "Op \<Rightarrow> bool" where
  "is_write op \<longleftrightarrow> Operation op = ''Put'' \<or> Operation op = ''Append''"

text \<open>What is seen was applied, and what was applied is seen or older than anything in the log.\<close>

definition seen_ok :: "(string \<times> int) set \<Rightarrow> (64 word \<times> Op) list \<Rightarrow> kv_state \<Rightarrow> bool" where
  "seen_ok seen xs a \<longleftrightarrow> (\<forall>(c, n) \<in> seen. \<exists>m \<ge> n. kv_done a c = Some m) \<and>
     (\<forall>x \<in> set (first_only seen xs). \<forall>m. kv_done a (ClientId (snd x)) = Some m \<longrightarrow> m < RequestId (snd x))"

lemma kv_exec_fresh:
  assumes "is_write op" "\<not> kv_seen a op"
  shows "kv_done (kv_exec now op a) = (kv_done a)(ClientId op \<mapsto> RequestId op)"
  using assms by (auto simp: kv_exec_def is_write_def kv_write_def)

lemma kv_run_first_only:
  assumes "\<forall>x \<in> set xs. is_write (snd x)" "sorted_wrt client_order (first_only seen xs)" "seen_ok seen xs a"
  shows "kv_run xs a = kv_run (first_only seen xs) a"
  using assms
proof (induction seen xs arbitrary: a rule: first_only.induct)
  case (2 seen x xs)
  obtain now op where x: "x = (now, op)" by force
  show ?case
  proof (cases "request_id x \<in> seen")
    case True
    then obtain m where "kv_done a (ClientId op) = Some m" "RequestId op \<le> m"
      using "2.prems"(3) by (fastforce simp: seen_ok_def request_id_def x)
    then have "kv_exec now op a = a" by (rule kv_exec_retry)
    moreover have "seen_ok seen xs a" using "2.prems"(3) True by (simp add: seen_ok_def)
    ultimately show ?thesis using 2 True by (simp add: x)
  next
    case False
    have w: "is_write op" using "2.prems"(1) by (simp add: x)
    have n: "\<not> kv_seen a op"
      using "2.prems"(3) False by (auto simp: seen_ok_def kv_seen_def x split: option.split)
    let ?s = "insert (request_id x) seen" and ?b = "kv_exec now op a"
    have d: "kv_done ?b = (kv_done a)(ClientId op \<mapsto> RequestId op)" by (rule kv_exec_fresh [OF w n])
    have later: "\<And>y. y \<in> set (first_only ?s xs) \<Longrightarrow> client_order x y"
      using "2.prems"(2) False by simp
    have "seen_ok ?s xs ?b"
      unfolding seen_ok_def
    proof (intro conjI ballI allI impI)
      fix y m assume y: "y \<in> set (first_only ?s xs)" and m: "kv_done ?b (ClientId (snd y)) = Some m"
      show "m < RequestId (snd y)"
      proof (cases "ClientId (snd y) = ClientId op")
        case True
        then show ?thesis using later [OF y] m by (simp add: d client_order_def x)
      next
        case F: False
        then have "kv_done a (ClientId (snd y)) = Some m" using m by (simp add: d)
        moreover have "y \<in> set (first_only seen (x # xs))" using y False by simp
        ultimately show ?thesis using "2.prems"(3) unfolding seen_ok_def by blast
      qed
    next
      fix p assume "p \<in> ?s"
      then show "case p of (c, n) \<Rightarrow> \<exists>m\<ge>n. kv_done ?b c = Some m"
      proof
        assume "p = request_id x"
        then show ?thesis by (simp add: request_id_def x d)
      next
        assume p: "p \<in> seen"
        obtain c n where c: "p = (c, n)" by force
        then obtain m where "m \<ge> n" "kv_done a c = Some m" using "2.prems"(3) p by (fastforce simp: seen_ok_def)
        then show ?thesis using kv_exec_done [of a c m now op] c by (force intro: order.trans)
      qed
    qed
    then show ?thesis using 2 False by (simp add: x)
  qed
qed simp

text \<open>
  C3: whatever a log of writes repeats and wherever, the server ends in the state that comes from each request being
  in it once, at the place it occurs first, provided each client's requests occur first in the order of their
  numbers and are newer than what the state has from that client.
\<close>

theorem requests_take_effect_once:
  assumes "kv_archive_ok env" "server_wf (default_ok senv) s" "length clock = length ops"
    "applyChan (m_raftNode s) = op_messages env ops @ rest"
    "\<forall>(op, t, i) \<in> set ops. m_lastSnapShotRaftLogIndex s < i \<and> is_write op"
    "sorted_wrt client_order (first_only {} (zip clock (map fst ops)))"
    "\<forall>(op, t, i) \<in> set ops. \<forall>n. map_of (m_lastRequestId s) (ClientId op) = Some n \<longrightarrow> n < RequestId op"
  shows "\<exists>s'. apply_turns (default_ops senv) env clock s = Inr s' \<and>
    kv_abs default_view s' = kv_run (first_only {} (zip clock (map fst ops))) (kv_abs default_view s)"
proof -
  let ?xs = "zip clock (map fst ops)"
  have new: "\<forall>(op, t, i) \<in> set ops. m_lastSnapShotRaftLogIndex s < i" using assms(5) by auto
  have mem: "\<exists>t i. (snd x, t, i) \<in> set ops" if "x \<in> set ?xs" for x
  proof -
    have "snd x \<in> fst ` set ops" using that set_zip_rightD [of "fst x" "snd x" clock "map fst ops"] by simp
    then show ?thesis by force
  qed
  have "\<forall>x \<in> set ?xs. is_write (snd x)" using mem assms(5) by fast
  moreover have "seen_ok {} ?xs (kv_abs default_view s)"
    unfolding seen_ok_def using mem assms(7) by (fastforce dest: first_only_set)
  ultimately have "kv_run ?xs (kv_abs default_view s) = kv_run (first_only {} ?xs) (kv_abs default_view s)"
    using kv_run_first_only assms(6) by blast
  then show ?thesis using default_engine.run_ok [OF assms(1-4) new] by metis
qed

theorem requests_take_effect_once_witness:
  "\<exists>s'. apply_turns (default_ops demo_sl_env) demo_kv_env [5, 6, 7]
     (demo_server (demo_leader [] 0 (op_messages demo_kv_env
       [(demo_append ''x'' 1, 1, 1), (demo_append ''y'' 2, 1, 2), (demo_append ''x'' 1, 1, 3)]))) = Inr s' \<and>
     default_view (m_engine s') ''k'' = Some ''xy''"
proof -
  let ?ops = "[(demo_append ''x'' 1, 1, 1), (demo_append ''y'' 2, 1, 2), (demo_append ''x'' 1, 1, 3)] :: (Op \<times> int \<times> int) list"
  let ?s = "demo_server (demo_leader [] 0 (op_messages demo_kv_env ?ops))"
  have wf: "server_wf (default_ok demo_sl_env) ?s" by (intro demo_server_wf demo_leader_wf) simp_all
  obtain s' where s': "apply_turns (default_ops demo_sl_env) demo_kv_env [5, 6, 7] ?s = Inr s'"
    "kv_abs default_view s' = kv_run (first_only {} (zip [5, 6, 7] (map fst ?ops))) (kv_abs default_view ?s)"
    using requests_take_effect_once [OF demo_kv_ok wf, of "[5, 6, 7]" ?ops "[]"]
    by (auto simp: demo_ops demo_server_def demo_leader_def request_id_def client_order_def is_write_def)
  have "kv_map (kv_abs default_view s') ''k'' = Some ''xy''"
    unfolding s'(2) demo_server_abs
    by (simp add: kv_exec_def kv_seen_def kv_write_def kv_read_def kv_expired_def demo_ops request_id_def)
  then show ?thesis using s'(1) by simp
qed

end
