(* ===== verification/Rpc.thy ===== *)
theory Rpc
  imports KV_Prelude
begin

text \<open>
  The remote procedure calls of \<open>rpc/mprpcchannel.cpp\<close> (the caller) and \<open>rpc/rpcprovider.cpp\<close> (the server).

  A request is the length of a header, the header (service, method, length of the arguments) and the
  arguments; a reply is the bare message.  Google's coded streams and the generated message code are a parameter, the
  record \<open>rpc_codec\<close>, and \<open>codec_rpc_ok\<close> says what the code relies on.  A connection is the bytes
  the kernel took from the caller and those that arrived and were not read.  What the system calls return is given
  as a list of events; \<open>None\<close> means that the call is still waiting when they are used up.
\<close>

section \<open>Wire format\<close>

record RpcHeader =
  service_name :: string
  method_name :: string
  args_size :: "32 word"

record rpc_codec =
  WriteVarint32 :: "32 word \<Rightarrow> string"
  ReadVarint32 :: "string \<Rightarrow> 32 word \<times> string"
  CodedReadString :: "string \<Rightarrow> int \<Rightarrow> bool \<times> string \<times> string"
  header_out :: "RpcHeader \<Rightarrow> string option"
  header_in :: "string \<Rightarrow> RpcHeader option"

definition codec_rpc_ok :: "rpc_codec \<Rightarrow> bool" where
  "codec_rpc_ok P \<longleftrightarrow> (\<forall>n s. ReadVarint32 P (WriteVarint32 P n @ s) = (n, s)) \<and>
     (\<forall>s r. CodedReadString P (s @ r) (int (length s)) = (True, s, r)) \<and>
     (\<forall>s n. int (length s) < n \<longrightarrow> \<not> fst (CodedReadString P s n)) \<and>
     (\<forall>h s. header_out P h = Some s \<longrightarrow> header_in P s = Some h \<and> length s < 2 ^ 31)"

lemma codec_rpc_okD:
  assumes "codec_rpc_ok P"
  shows "ReadVarint32 P (WriteVarint32 P n @ s) = (n, s)"
    "CodedReadString P (s @ r) (int (length s)) = (True, s, r)"
    "int (length s) < m \<Longrightarrow> \<not> fst (CodedReadString P s m)"
    "header_out P h = Some s \<Longrightarrow> header_in P s = Some h" "header_out P h = Some s \<Longrightarrow> length s < 2 ^ 31"
  using assms by (auto simp: codec_rpc_ok_def)

definition size32 :: "string \<Rightarrow> 32 word" where
  "size32 s = word_of_nat (length s)"

lemma sint_size32 [simp]: "length s < 2 ^ 31 \<Longrightarrow> sint (size32 s) = int (length s)"
  by (simp add: size32_def signed_of_nat signed_take_bit_int_eq_self)

definition request_header :: "rpc_codec \<Rightarrow> string \<Rightarrow> string \<Rightarrow> string \<Rightarrow> string option" where
  "request_header P svc meth args_str =
     header_out P \<lparr>service_name = svc, method_name = meth, args_size = size32 args_str\<rparr>"

definition send_rpc_str :: "rpc_codec \<Rightarrow> string \<Rightarrow> string \<Rightarrow> string" where
  "send_rpc_str P rpc_header_str args_str = WriteVarint32 P (size32 rpc_header_str) @ rpc_header_str @ args_str"

section \<open>The caller\<close>

record conn =
  wire_out :: string
  inbox :: string

record channel =
  m_clientFd :: "conn option"

datatype io = Did nat | Interrupted | IoError int

text \<open>The bytes that are left to send, and what the kernel has taken.\<close>

fun send_loop :: "io list \<Rightarrow> string \<Rightarrow> string \<Rightarrow> (string \<times> bool) option" where
  "send_loop evs [] out = Some (out, True)"
| "send_loop [] data out = None"
| "send_loop (Did n # evs) data out =
     (if n > 0 then send_loop evs (drop n data) (out @ take n data) else Some (out, False))"
| "send_loop (Interrupted # evs) data out = send_loop evs data out"
| "send_loop (IoError e # evs) data out = Some (out, False)"

text \<open>
  The receive loop: \<open>Did n\<close> is a receive of \<open>n\<close> bytes, at most what is there and what fits into the
  buffer of 4096 bytes, \<open>Did 0\<close> a connection closed by the other side.
\<close>

fun recv_loop :: "io list \<Rightarrow> string \<Rightarrow> (string option \<times> string) option" where
  "recv_loop [] data = None"
| "recv_loop (Did n # evs) data =
     (let k = min n (min 4096 (length data)) in
      if n = 0 then Some (None, data)
      else if k = 0 then recv_loop evs data
      else Some (Some (take k data), drop k data))"
| "recv_loop (Interrupted # evs) data = recv_loop evs data"
| "recv_loop (IoError e # evs) data = Some (None, data)"

datatype 'r call_result = Replied 'r | Failed string

text \<open>
  One call.  The parameters after the request are the environment: whether a connection can be made, what
  \<open>send\<close> returns, the bytes that arrive on the connection afterwards, what \<open>recv\<close> returns.
\<close>

definition CallMethod ::
  "rpc_codec \<Rightarrow> ('q \<Rightarrow> string option) \<Rightarrow> (string \<Rightarrow> 'r option) \<Rightarrow> string \<Rightarrow> string \<Rightarrow> 'q \<Rightarrow>
   bool \<Rightarrow> io list \<Rightarrow> string \<Rightarrow> io list \<Rightarrow> channel \<Rightarrow> (channel \<times> 'r call_result) option" where
  "CallMethod P serialize parse svc meth request connects sends arrives recvs ch =
     (case (case m_clientFd ch of Some c \<Rightarrow> Some c
            | None \<Rightarrow> if connects then Some \<lparr>wire_out = [], inbox = []\<rparr> else None) of
        None \<Rightarrow> Some (ch, Failed ''connect fail!'')
      | Some c \<Rightarrow>
          let ch = ch\<lparr>m_clientFd := Some c\<rparr>; closed = ch\<lparr>m_clientFd := None\<rparr> in
          (case serialize request of
             None \<Rightarrow> Some (ch, Failed ''serialize request error!'')
           | Some args_str \<Rightarrow>
          (case request_header P svc meth args_str of
             None \<Rightarrow> Some (ch, Failed ''serialize rpc header error!'')
           | Some rpc_header_str \<Rightarrow>
          (case send_loop sends (send_rpc_str P rpc_header_str args_str) (wire_out c) of
             None \<Rightarrow> None
           | Some (out, False) \<Rightarrow> Some (closed, Failed ''send error!'')
           | Some (out, True) \<Rightarrow>
          (case recv_loop recvs (inbox c @ arrives) of
             None \<Rightarrow> None
           | Some (None, rest) \<Rightarrow> Some (closed, Failed ''recv error!'')
           | Some (Some recv_buf, rest) \<Rightarrow>
               let ch = ch\<lparr>m_clientFd := Some \<lparr>wire_out = out, inbox = rest\<rparr>\<rparr> in
               (case parse recv_buf of None \<Rightarrow> Some (ch, Failed ''parse error!'')
                | Some response \<Rightarrow> Some (ch, Replied response)))))))"

section \<open>The server\<close>

type_synonym 'm services = "string \<rightharpoonup> (string \<rightharpoonup> 'm)"

text \<open>\<open>insert\<close> keeps a service that is registered under the name.\<close>

definition NotifyService :: "string \<Rightarrow> (string \<times> 'm) list \<Rightarrow> 'm services \<Rightarrow> 'm services" where
  "NotifyService name methods S = (if S name = None then S(name \<mapsto> map_of methods) else S)"

datatype ('m, 'q) dispatch =
    HeaderError
  | ArgsMissing
  | NoService
  | NoMethod
  | RequestError
  | CallNow 'm 'q
  | Enqueue 'm 'q

text \<open>
  One message event.  \<open>parse_request\<close> reads the arguments of a method.  Calls of the Raft service run in
  the thread of the event loop, others go to the thread pool.  (The limit that is pushed while the header
  is read and popped afterwards is the header's own length.)
\<close>

definition OnMessage ::
  "rpc_codec \<Rightarrow> 'm services \<Rightarrow> ('m \<Rightarrow> string \<Rightarrow> 'q option) \<Rightarrow> string \<Rightarrow> ('m, 'q) dispatch" where
  "OnMessage P m_serviceMap parse_request recv_buf =
     (case ReadVarint32 P recv_buf of (header_size, coded_input) \<Rightarrow>
      case CodedReadString P coded_input (sint header_size) of (_, rpc_header_str, coded_input) \<Rightarrow>
      case header_in P rpc_header_str of
        None \<Rightarrow> HeaderError
      | Some rpcHeader \<Rightarrow>
      case CodedReadString P coded_input (sint (args_size rpcHeader)) of (read_args_success, args_str, coded_input) \<Rightarrow>
      if \<not> read_args_success then ArgsMissing
      else case m_serviceMap (service_name rpcHeader) of
        None \<Rightarrow> NoService
      | Some methods \<Rightarrow>
      case methods (method_name rpcHeader) of
        None \<Rightarrow> NoMethod
      | Some method \<Rightarrow>
      case parse_request method args_str of
        None \<Rightarrow> RequestError
      | Some request \<Rightarrow>
          if service_name rpcHeader = ''raftRpc'' then CallNow method request else Enqueue method request)"

text \<open>What \<open>SendRpcResponse\<close> puts on the wire.\<close>

definition SendRpcResponse :: "('r \<Rightarrow> string option) \<Rightarrow> 'r \<Rightarrow> string" where
  "SendRpcResponse serialize response = (case serialize response of None \<Rightarrow> [] | Some response_str \<Rightarrow> response_str)"

section \<open>Lemmas\<close>

text \<open>However the kernel cuts a request, what it has taken at the end is the request.\<close>

lemma send_loop_all: "send_loop sends data out = Some (out', True) \<Longrightarrow> out' = out @ data"
  by (induction sends data out rule: send_loop.induct) (auto split: if_splits)

lemma send_loop_prefix: "send_loop sends data out = Some (out', b) \<Longrightarrow> \<exists>k. out' = out @ take k data"
proof (induction sends data out rule: send_loop.induct)
  case (3 n evs c data out)
  show ?case
  proof (cases "n > 0")
    case True
    then obtain k where "out' = (out @ take n (c # data)) @ take k (drop n (c # data))" using 3 by auto
    then show ?thesis by (metis append.assoc take_add)
  next
    case False
    then show ?thesis using 3 by (intro exI [of _ 0]) simp
  qed
qed (auto intro: exI [of _ 0])

lemma recv_loop_interrupted [simp]: "recv_loop (replicate k Interrupted @ evs) data = recv_loop evs data"
  by (induction k) auto

lemma recv_loop_did:
  "0 < n \<Longrightarrow> n \<le> 4096 \<Longrightarrow> n \<le> length data \<Longrightarrow> recv_loop (Did n # evs) data = Some (Some (take n data), drop n data)"
  by (simp add: min_def)

text \<open>The provider looks at the header, and at as many bytes behind it as the header says.\<close>

lemma OnMessage_header:
  assumes "codec_rpc_ok P" "request_header P svc meth args = Some h"
  shows "OnMessage P S parse (WriteVarint32 P (size32 h) @ h @ r) =
     (case CodedReadString P r (sint (size32 args)) of (ok, args_str, _) \<Rightarrow>
      if \<not> ok then ArgsMissing
      else case S svc of None \<Rightarrow> NoService
      | Some methods \<Rightarrow> case methods meth of None \<Rightarrow> NoMethod
      | Some m \<Rightarrow> case parse m args_str of None \<Rightarrow> RequestError
      | Some q \<Rightarrow> if svc = ''raftRpc'' then CallNow m q else Enqueue m q)"
proof -
  obtain ok a t where c: "CodedReadString P r (sint (size32 args)) = (ok, a, t)" by (metis prod_cases3)
  show ?thesis
    using assms codec_rpc_okD(1) [OF assms(1)] codec_rpc_okD(2) [OF assms(1), of h r]
      codec_rpc_okD(4,5) [OF assms(1), of _ h]
    by (cases ok) (simp_all add: OnMessage_def request_header_def c cong: option.case_cong if_cong)
qed

lemma OnMessage_request:
  assumes "codec_rpc_ok P" "request_header P svc meth args = Some h" "length args < 2 ^ 31"
    "S svc = Some methods" "methods meth = Some m" "parse m args = Some q"
  shows "OnMessage P S parse (send_rpc_str P h args @ rest) =
    (if svc = ''raftRpc'' then CallNow m q else Enqueue m q)"
  using OnMessage_header [OF assms(1,2), of S parse "args @ rest"] assms codec_rpc_okD(2) [OF assms(1), of args rest]
  by (simp add: send_rpc_str_def)

lemma OnMessage_cut:
  assumes "codec_rpc_ok P" "request_header P svc meth args = Some h" "length args < 2 ^ 31"
    "length (WriteVarint32 P (size32 h) @ h) \<le> n" "n < length (send_rpc_str P h args)"
  shows "OnMessage P S parse (take n (send_rpc_str P h args)) = ArgsMissing"
proof -
  let ?k = "n - length (WriteVarint32 P (size32 h) @ h)"
  have "send_rpc_str P h args = (WriteVarint32 P (size32 h) @ h) @ args" by (simp add: send_rpc_str_def)
  then have "take n (send_rpc_str P h args) = (WriteVarint32 P (size32 h) @ h) @ take ?k args"
    using assms(4) by simp
  moreover have "length (take ?k args) < length args" using assms(4,5) by (simp add: send_rpc_str_def)
  then have "\<not> fst (CodedReadString P (take ?k args) (sint (size32 args)))"
    using codec_rpc_okD(3) [OF assms(1), of "take ?k args" "int (length args)"] assms(3) by simp
  then obtain a t where "CodedReadString P (take ?k args) (sint (size32 args)) = (False, a, t)"
    by (metis prod_cases3 fst_conv)
  ultimately show ?thesis
    using OnMessage_header [OF assms(1,2), of S parse "take ?k args"] by simp
qed

end
