(* ===== verification/Rpc_Props.thy ===== *)
theory Rpc_Props
  imports Rpc Archive_Instance
begin

text \<open>
  Properties of remote calls: requests and replies that arrive in one piece come back whole; what happens when they
  do not.
\<close>

lemma CallMethod_received:
  assumes "m_clientFd ch = Some c \<or> m_clientFd ch = None \<and> connects \<and> c = \<lparr>wire_out = [], inbox = []\<rparr>"
    "serialize q = Some args" "request_header P svc meth args = Some h"
    "send_loop sends (send_rpc_str P h args) (wire_out c) = Some (out, True)"
    "0 < n" "n \<le> 4096" "n \<le> length (inbox c @ arrives)"
  shows "CallMethod P serialize parse svc meth q connects sends arrives (replicate i Interrupted @ Did n # recvs) ch =
    Some (\<lparr>m_clientFd = Some \<lparr>wire_out = wire_out c @ send_rpc_str P h args, inbox = drop n (inbox c @ arrives)\<rparr>\<rparr>,
      case parse (take n (inbox c @ arrives)) of None \<Rightarrow> Failed ''parse error!'' | Some r \<Rightarrow> Replied r)"
proof -
  have "(case m_clientFd ch of Some c \<Rightarrow> Some c
      | None \<Rightarrow> if connects then Some \<lparr>wire_out = [], inbox = []\<rparr> else None) = Some c"
    using assms(1) by auto
  then show ?thesis
    unfolding CallMethod_def Let_def
    using assms(2,3,4) send_loop_all [OF assms(4)] recv_loop_did [OF assms(5-7)]
    by (simp del: recv_loop.simps split: option.split)
qed

text \<open>
  C28: a request travels whole however the kernel cuts it into sends and however often it is interrupted: the bytes it
  put on a fresh connection, read in one piece, make the server call the right method with the right request; and a
  reply of at most 4096 bytes that is there in one piece is the result of the call, with nothing left on the
  connection.
\<close>

theorem rpc_roundtrip:
  assumes "codec_rpc_ok P" "serialize q = Some args" "request_header P svc meth args = Some h" "length args < 2 ^ 31"
    "m_serviceMap svc = Some methods" "methods meth = Some m" "parse_request m args = Some q'"
    "send_loop sends (send_rpc_str P h args) [] = Some (out, True)"
    "SendRpcResponse reply_out r = reply" "parse reply = Some r" "reply \<noteq> []" "length reply \<le> 4096"
  shows "OnMessage P m_serviceMap parse_request out = (if svc = ''raftRpc'' then CallNow m q' else Enqueue m q') \<and>
    CallMethod P serialize parse svc meth q True sends reply (replicate i Interrupted @ [Did (length reply)])
      \<lparr>m_clientFd = None\<rparr> = Some (\<lparr>m_clientFd = Some \<lparr>wire_out = out, inbox = []\<rparr>\<rparr>, Replied r)"
proof -
  have out: "out = send_rpc_str P h args" using send_loop_all [OF assms(8)] by simp
  moreover have "OnMessage P m_serviceMap parse_request (send_rpc_str P h args) =
      (if svc = ''raftRpc'' then CallNow m q' else Enqueue m q')"
    using OnMessage_request [of P svc meth args h m_serviceMap methods m parse_request q' "[]", OF assms(1,3,4,5,6,7)]
    by simp
  moreover have "CallMethod P serialize parse svc meth q True sends reply (replicate i Interrupted @ [Did (length reply)])
      \<lparr>m_clientFd = None\<rparr> = Some (\<lparr>m_clientFd = Some \<lparr>wire_out = out, inbox = []\<rparr>\<rparr>, Replied r)"
    using CallMethod_received [of "\<lparr>m_clientFd = None\<rparr>" "\<lparr>wire_out = [], inbox = []\<rparr>" True serialize q args P svc meth h
        sends out "length reply" reply parse i "[]"] assms(2,3,8,10,11,12) out by simp
  ultimately show ?thesis by simp
qed

text \<open>
  C31: a reply that does not arrive as one piece of at most 4096 bytes (it is longer, or the network cut it), and whose
  first piece is no message, fails the call but leaves the connection open with the rest of it; the next call
  on the connection takes the next piece of that rest for its own answer, whatever it asked and whatever the server
  replied to it.
\<close>

theorem late_bytes_answer_next_call:
  assumes "m_clientFd ch = Some \<lparr>wire_out = w, inbox = []\<rparr>"
    "serialize q = Some args" "request_header P svc meth args = Some h"
    "send_loop sends (send_rpc_str P h args) w = Some (out, True)"
    "0 < n" "n \<le> 4096" "n < length reply" "parse (take n reply) = None"
    "serialize2 q2 = Some args2" "request_header P svc2 meth2 args2 = Some h2"
    "send_loop sends2 (send_rpc_str P h2 args2) out = Some (out2, True)" "0 < k" "k \<le> 4096" "k \<le> length reply - n"
  shows "\<exists>ch'. CallMethod P serialize parse svc meth q connects sends reply [Did n] ch = Some (ch', Failed ''parse error!'') \<and>
    map_option snd (CallMethod P serialize2 parse2 svc2 meth2 q2 connects sends2 reply2 [Did k] ch') =
      Some (case parse2 (take k (drop n reply)) of None \<Rightarrow> Failed ''parse error!'' | Some r \<Rightarrow> Replied r)"
proof -
  let ?c = "\<lparr>wire_out = w @ send_rpc_str P h args, inbox = drop n reply\<rparr>"
  have first: "CallMethod P serialize parse svc meth q connects sends reply [Did n] ch =
      Some (\<lparr>m_clientFd = Some ?c\<rparr>, Failed ''parse error!'')"
    using CallMethod_received [of ch "\<lparr>wire_out = w, inbox = []\<rparr>" connects serialize q args P svc meth h sends out n reply
        parse 0 "[]"] assms(1-8) by simp
  have "out = wire_out ?c" using send_loop_all [OF assms(4)] by simp
  then have "map_option snd (CallMethod P serialize2 parse2 svc2 meth2 q2 connects sends2 reply2 [Did k] \<lparr>m_clientFd = Some ?c\<rparr>) =
      Some (case parse2 (take k (drop n reply)) of None \<Rightarrow> Failed ''parse error!'' | Some r \<Rightarrow> Replied r)"
    using CallMethod_received [of "\<lparr>m_clientFd = Some ?c\<rparr>" ?c connects serialize2 q2 args2 P svc2 meth2 h2 sends2 out2 k reply2
        parse2 0 "[]"] assms(9-14) by simp
  then show ?thesis using first by blast
qed

text \<open>
  C30: the server takes what one read brings for one request.  When the bytes of a request come in two reads, the
  first of which has the whole header, no method is called for the first part; when two requests come in one read,
  only the first is looked at.
\<close>

theorem OnMessage_reads_one_request:
  assumes "codec_rpc_ok P" "request_header P svc meth args = Some h" "length args < 2 ^ 31"
    "m_serviceMap svc = Some methods" "methods meth = Some m" "parse_request m args = Some q"
    "length (WriteVarint32 P (size32 h) @ h) \<le> n" "n < length (send_rpc_str P h args)"
  shows "OnMessage P m_serviceMap parse_request (take n (send_rpc_str P h args)) = ArgsMissing \<and>
    OnMessage P m_serviceMap parse_request (send_rpc_str P h args @ second) =
      OnMessage P m_serviceMap parse_request (send_rpc_str P h args)"
  using OnMessage_cut [OF assms(1-3,7,8), of m_serviceMap parse_request]
    OnMessage_request [of P svc meth args h m_serviceMap methods m parse_request q second, OF assms(1-6)]
    OnMessage_request [of P svc meth args h m_serviceMap methods m parse_request q "[]", OF assms(1-6)] by simp

section \<open>Witnesses\<close>

definition demo_rpc :: rpc_codec where
  "demo_rpc = \<lparr>WriteVarint32 = (\<lambda>n. put_nat (unat n)), ReadVarint32 = (\<lambda>s. map_prod word_of_nat id (get_nat s)),
     CodedReadString = (\<lambda>s n. if 0 \<le> n \<and> n \<le> int (length s) then (True, take (nat n) s, drop (nat n) s) else (False, [], s)),
     header_out = (\<lambda>h. let s = put_str (service_name h) @ put_str (method_name h) @ put_nat (unat (args_size h))
       in if length s < 2 ^ 31 then Some s else None),
     header_in = (\<lambda>s. case get_str s of (a, s) \<Rightarrow> case get_str s of (b, s) \<Rightarrow>
       Some \<lparr>service_name = a, method_name = b, args_size = word_of_nat (fst (get_nat s))\<rparr>)\<rparr>"

lemma demo_rpc_ok: "codec_rpc_ok demo_rpc"
proof -
  have "get_nat (put_nat n) = (n, [])" for n using get_put_nat [of n "[]"] by simp
  then show ?thesis by (auto simp: codec_rpc_ok_def demo_rpc_def Let_def split: if_splits)
qed

definition demo_header :: string where
  "demo_header = put_str ''kvServerRpc'' @ put_str ''Get'' @ put_nat 3"

lemma demo_header: "request_header demo_rpc ''kvServerRpc'' ''Get'' ''abc'' = Some demo_header"
proof -
  have "length demo_header < 2 ^ 31"
    by (simp add: demo_header_def put_str_def put_nat.simps)
  then show ?thesis by (simp add: request_header_def demo_rpc_def demo_header_def size32_def Let_def)
qed

theorem rpc_roundtrip_witness:
  "\<exists>sends out. CallMethod demo_rpc Some Some ''kvServerRpc'' ''Get'' ''abc'' True sends ''y'' [Interrupted, Did 1]
      \<lparr>m_clientFd = None\<rparr> = Some (\<lparr>m_clientFd = Some \<lparr>wire_out = out, inbox = []\<rparr>\<rparr>, Replied ''y'') \<and>
    OnMessage demo_rpc [''kvServerRpc'' \<mapsto> [''Get'' \<mapsto> (0 :: nat)]] (\<lambda>_. Some) out = Enqueue 0 ''abc''"
proof -
  let ?d = "send_rpc_str demo_rpc demo_header ''abc''"
  obtain a d where d: "?d = a # d" by (cases ?d) (auto simp: send_rpc_str_def demo_rpc_def)
  have "send_loop [Did 1, Interrupted, Did (length d)] ?d [] = Some (?d, True)" unfolding d by (cases d) simp_all
  then have "OnMessage demo_rpc [''kvServerRpc'' \<mapsto> [''Get'' \<mapsto> (0 :: nat)]] (\<lambda>_. Some) ?d = Enqueue 0 ''abc'' \<and>
      CallMethod demo_rpc Some Some ''kvServerRpc'' ''Get'' ''abc'' True [Did 1, Interrupted, Did (length d)] ''y''
        [Interrupted, Did 1] \<lparr>m_clientFd = None\<rparr> = Some (\<lparr>m_clientFd = Some \<lparr>wire_out = ?d, inbox = []\<rparr>\<rparr>, Replied ''y'')"
    using rpc_roundtrip [where P = demo_rpc and serialize = Some and q = "''abc''" and args = "''abc''" and
        svc = "''kvServerRpc''" and meth = "''Get''" and h = demo_header and m_serviceMap = "[''kvServerRpc'' \<mapsto> [''Get'' \<mapsto> 0]]"
        and methods = "[''Get'' \<mapsto> 0]" and m = "0 :: nat" and parse_request = "\<lambda>_. Some" and q' = "''abc''" and
        reply_out = Some and r = "''y''" and reply = "''y''" and parse = Some and i = 1 and out = ?d] demo_rpc_ok demo_header
    by (simp add: SendRpcResponse_def)
  then show ?thesis by blast
qed

text \<open>The whole request is sent at once.\<close>

lemma demo_send: "\<exists>sends. send_loop sends data out = Some (out @ data, True)"
  by (cases data) (auto intro: exI [of _ "[Did (length data)]"])

theorem late_bytes_answer_next_call_witness:
  "\<exists>sends sends2 ch'. CallMethod demo_rpc Some (\<lambda>s. if length s < 4096 then Some s else None) ''kvServerRpc'' ''Get'' ''abc''
      True sends (replicate 5000 CHR ''x'') [Did 4096] \<lparr>m_clientFd = Some \<lparr>wire_out = [], inbox = []\<rparr>\<rparr> = Some (ch', Failed ''parse error!'') \<and>
    map_option snd (CallMethod demo_rpc Some Some ''kvServerRpc'' ''Get'' ''abc'' True sends2 ''other'' [Did 904] ch') =
      Some (Replied (replicate 904 CHR ''x''))"
proof -
  let ?c = "\<lparr>m_clientFd = Some \<lparr>wire_out = [], inbox = []\<rparr>\<rparr>" and ?d = "send_rpc_str demo_rpc demo_header ''abc''"
  obtain sends where s: "send_loop sends ?d [] = Some (?d, True)" using demo_send [of ?d "[]"] by auto
  obtain sends2 where s2: "send_loop sends2 ?d ?d = Some (?d @ ?d, True)" using demo_send [of ?d ?d] by auto
  show ?thesis
    using late_bytes_answer_next_call [of ?c "[]" Some "''abc''" "''abc''" demo_rpc "''kvServerRpc''" "''Get''" demo_header sends
        ?d 4096 "replicate 5000 CHR ''x''" "\<lambda>s. if length s < 4096 then Some s else None" Some "''abc''" "''abc''"
        "''kvServerRpc''" "''Get''" demo_header sends2 "?d @ ?d" 904 True Some "''other''", OF _ _ demo_header s _ _ _ _ _ demo_header s2]
    by fastforce
qed

theorem OnMessage_reads_one_request_witness:
  "OnMessage demo_rpc [''kvServerRpc'' \<mapsto> [''Get'' \<mapsto> (0 :: nat)]] (\<lambda>_. Some)
     (take (length (put_nat (length demo_header) @ demo_header) + 1) (send_rpc_str demo_rpc demo_header ''abc'')) = ArgsMissing"
proof -
  have "length demo_header < 2 ^ 31"
    by (simp add: demo_header_def put_str_def put_nat.simps)
  then have "WriteVarint32 demo_rpc (size32 demo_header) = put_nat (length demo_header)"
    by (simp add: demo_rpc_def size32_def unat_of_nat)
  then show ?thesis
    using OnMessage_reads_one_request [OF demo_rpc_ok demo_header, of "[''kvServerRpc'' \<mapsto> [''Get'' \<mapsto> 0]]" "[''Get'' \<mapsto> 0]"
        "0 :: nat" "\<lambda>_. Some" "''abc''" "length (put_nat (length demo_header) @ demo_header) + 1" "''z''"]
    by (simp add: send_rpc_str_def)
qed

end
