(* ===== verification/Rpc_Header.thy ===== *)
theory Rpc_Header
  imports Rpc_Props
begin

text \<open>
  The message class of \<open>rpc/rpcheader.pb.cpp\<close>, which frames every request.  The routines of the protobuf
  library it calls (tags, strings, numbers and fields it does not know) are a parameter, the record \<open>wire\<close>; \<open>wire_ok\<close>
  is what the encoding document promises of them, and \<open>plain_wire\<close>, with the variable-length numbers
  of the document, meets it.  Parsing a serialized message merges it into the object, which gives the
  law that \<open>Rpc\<close> asks of headers.
\<close>

unbundle bit_operations_syntax

section \<open>The message\<close>

record 'f HeaderObj = RpcHeader +
  unknown_fields :: "'f list"

record 'f wire =
  ReadTag :: "string \<Rightarrow> (32 word \<times> string) option"
  StringParser :: "string \<Rightarrow> (string \<times> string) option"
  VarintParser :: "string \<Rightarrow> (32 word \<times> string) option"
  UnknownFieldParse :: "32 word \<Rightarrow> 'f list \<Rightarrow> string \<Rightarrow> ('f list \<times> string) option"
  WriteBytes :: "nat \<Rightarrow> string \<Rightarrow> string"
  WriteUInt32 :: "nat \<Rightarrow> 32 word \<Rightarrow> string"
  field_out :: "'f \<Rightarrow> string"
  BytesSize :: "string \<Rightarrow> nat"
  UInt32Size :: "32 word \<Rightarrow> nat"
  field_length :: "'f \<Rightarrow> nat"

definition SharedCtor :: "'f HeaderObj" where
  "SharedCtor = \<lparr>service_name = [], method_name = [], args_size = 0, unknown_fields = []\<rparr>"

definition copy_header :: "'f HeaderObj \<Rightarrow> 'f HeaderObj" where
  "copy_header from =
     \<lparr>service_name = (if service_name from \<noteq> [] then service_name from else []),
      method_name = (if method_name from \<noteq> [] then method_name from else []),
      args_size = args_size from, unknown_fields = [] @ unknown_fields from\<rparr>"

definition Clear :: "'f HeaderObj \<Rightarrow> 'f HeaderObj" where
  "Clear m = m\<lparr>service_name := [], method_name := [], args_size := 0, unknown_fields := []\<rparr>"

text \<open>The tag decides the field; the wire type has to be the field's, otherwise the field is kept as unknown.\<close>

datatype 'f parse_step = NextField "'f HeaderObj" string | LastTag "32 word" string | BadField

definition unusual_field :: "'f wire \<Rightarrow> 32 word \<Rightarrow> string \<Rightarrow> 'f HeaderObj \<Rightarrow> 'f parse_step" where
  "unusual_field W tag p m =
     (if tag AND 7 = 4 \<or> tag = 0 then LastTag tag p
      else case UnknownFieldParse W tag (unknown_fields m) p of
             None \<Rightarrow> BadField
           | Some (fs, p) \<Rightarrow> NextField (m\<lparr>unknown_fields := fs\<rparr>) p)"

definition parse_field :: "'f wire \<Rightarrow> 32 word \<Rightarrow> string \<Rightarrow> 'f HeaderObj \<Rightarrow> 'f parse_step" where
  "parse_field W tag p m =
     (let field = drop_bit 3 tag; byte = tag AND 255 in
      if field = 1 then
        (if byte = 10 then (case StringParser W p of None \<Rightarrow> BadField
                            | Some (s, p) \<Rightarrow> NextField (m\<lparr>service_name := s\<rparr>) p)
         else unusual_field W tag p m)
      else if field = 2 then
        (if byte = 18 then (case StringParser W p of None \<Rightarrow> BadField
                            | Some (s, p) \<Rightarrow> NextField (m\<lparr>method_name := s\<rparr>) p)
         else unusual_field W tag p m)
      else if field = 3 then
        (if byte = 24 then (case VarintParser W p of None \<Rightarrow> BadField
                            | Some (v, p) \<Rightarrow> NextField (m\<lparr>args_size := v\<rparr>) p)
         else unusual_field W tag p m)
      else unusual_field W tag p m)"

datatype 'f parsed = Parsed "'f HeaderObj" string "32 word option" | ParseFailed

partial_function (option) InternalParse :: "'f wire \<Rightarrow> string \<Rightarrow> 'f HeaderObj \<Rightarrow> 'f parsed option" where
  "InternalParse W p m =
     (if p = [] then Some (Parsed m p None)
      else case ReadTag W p of
             None \<Rightarrow> Some ParseFailed
           | Some (tag, p) \<Rightarrow>
               (case parse_field W tag p m of
                  NextField m p \<Rightarrow> InternalParse W p m
                | LastTag tag p \<Rightarrow> Some (Parsed m p (Some tag))
                | BadField \<Rightarrow> Some ParseFailed))"

declare InternalParse.simps [code]

definition InternalSerialize :: "'f wire \<Rightarrow> 'f HeaderObj \<Rightarrow> string" where
  "InternalSerialize W m =
     (if length (service_name m) > 0 then WriteBytes W 1 (service_name m) else []) @
     (if length (method_name m) > 0 then WriteBytes W 2 (method_name m) else []) @
     (if args_size m \<noteq> 0 then WriteUInt32 W 3 (args_size m) else []) @
     (if unknown_fields m \<noteq> [] then concat (map (field_out W) (unknown_fields m)) else [])"

definition ByteSizeLong :: "'f wire \<Rightarrow> 'f HeaderObj \<Rightarrow> nat" where
  "ByteSizeLong W m =
     (let total = 0;
          total = (if length (service_name m) > 0 then total + (1 + BytesSize W (service_name m)) else total);
          total = (if length (method_name m) > 0 then total + (1 + BytesSize W (method_name m)) else total);
          total = (if args_size m \<noteq> 0 then total + (1 + UInt32Size W (args_size m)) else total)
      in if unknown_fields m \<noteq> [] then total + sum_list (map (field_length W) (unknown_fields m)) else total)"

definition MergeFrom :: "'f HeaderObj \<Rightarrow> 'f HeaderObj \<Rightarrow> 'f HeaderObj" where
  "MergeFrom m from =
     (let m = m\<lparr>unknown_fields := unknown_fields m @ unknown_fields from\<rparr>;
          m = (if length (service_name from) > 0 then m\<lparr>service_name := service_name from\<rparr> else m);
          m = (if length (method_name from) > 0 then m\<lparr>method_name := method_name from\<rparr> else m)
      in if args_size from \<noteq> 0 then m\<lparr>args_size := args_size from\<rparr> else m)"

text \<open>The second argument of \<open>CopyFrom\<close> says whether the argument is the object itself.\<close>

definition CopyFrom :: "'f HeaderObj \<Rightarrow> bool \<Rightarrow> 'f HeaderObj \<Rightarrow> 'f HeaderObj" where
  "CopyFrom m same from = (if same then m else MergeFrom (Clear m) from)"

definition InternalSwap :: "'f HeaderObj \<Rightarrow> 'f HeaderObj \<Rightarrow> 'f HeaderObj \<times> 'f HeaderObj" where
  "InternalSwap m other =
     (m\<lparr>unknown_fields := unknown_fields other, service_name := service_name other,
        method_name := method_name other, args_size := args_size other\<rparr>,
      other\<lparr>unknown_fields := unknown_fields m, service_name := service_name m,
        method_name := method_name m, args_size := args_size m\<rparr>)"

section \<open>What the encoding promises\<close>

definition wire_ok :: "('f \<Rightarrow> bool) \<Rightarrow> 'f wire \<Rightarrow> bool" where
  "wire_ok field_ok W \<longleftrightarrow>
     (\<forall>n s r. n \<in> {1, 2} \<longrightarrow> length s < 2 ^ 31 \<longrightarrow>
        (\<exists>p. ReadTag W (WriteBytes W n s @ r) = Some (word_of_nat (8 * n + 2), p) \<and> StringParser W p = Some (s, r))) \<and>
     (\<forall>v r. \<exists>p. ReadTag W (WriteUInt32 W 3 v @ r) = Some (24, p) \<and> VarintParser W p = Some (v, r)) \<and>
     (\<forall>f r. field_ok f \<longrightarrow>
        (\<exists>tag p. ReadTag W (field_out W f @ r) = Some (tag, p) \<and> drop_bit 3 tag \<notin> {1, 2, 3} \<and> tag AND 7 \<noteq> 4 \<and> tag \<noteq> 0 \<and>
           (\<forall>fs. UnknownFieldParse W tag fs p = Some (fs @ [f], r)))) \<and>
     (\<forall>n s. n \<in> {1, 2} \<longrightarrow> length s < 2 ^ 31 \<longrightarrow> length (WriteBytes W n s) = 1 + BytesSize W s) \<and>
     (\<forall>v. length (WriteUInt32 W 3 v) = 1 + UInt32Size W v) \<and>
     (\<forall>f. field_ok f \<longrightarrow> length (field_out W f) = field_length W f \<and> field_length W f > 0) \<and>
     (\<forall>s. length s \<le> BytesSize W s)"

definition header_fits :: "('f \<Rightarrow> bool) \<Rightarrow> 'f HeaderObj \<Rightarrow> bool" where
  "header_fits field_ok m \<longleftrightarrow> length (service_name m) < 2 ^ 31 \<and> length (method_name m) < 2 ^ 31 \<and>
     (\<forall>f \<in> set (unknown_fields m). field_ok f)"

lemma wire_okD:
  assumes "wire_ok field_ok W"
  shows "n \<in> {1, 2} \<Longrightarrow> length s < 2 ^ 31 \<Longrightarrow>
      \<exists>p. ReadTag W (WriteBytes W n s @ r) = Some (word_of_nat (8 * n + 2), p) \<and> StringParser W p = Some (s, r)"
    "\<exists>p. ReadTag W (WriteUInt32 W 3 v @ r) = Some (24, p) \<and> VarintParser W p = Some (v, r)"
    "field_ok f \<Longrightarrow> \<exists>tag p. ReadTag W (field_out W f @ r) = Some (tag, p) \<and> drop_bit 3 tag \<notin> {1, 2, 3} \<and>
      tag AND 7 \<noteq> 4 \<and> tag \<noteq> 0 \<and> (\<forall>fs. UnknownFieldParse W tag fs p = Some (fs @ [f], r))"
    "n \<in> {1, 2} \<Longrightarrow> length s < 2 ^ 31 \<Longrightarrow> length (WriteBytes W n s) = 1 + BytesSize W s"
    "length (WriteUInt32 W 3 v) = 1 + UInt32Size W v"
    "field_ok f \<Longrightarrow> length (field_out W f) = field_length W f \<and> field_length W f > 0"
    "length s \<le> BytesSize W s"
proof -
  note w = assms [unfolded wire_ok_def]
  note w2 = w [THEN conjunct2] note w3 = w2 [THEN conjunct2] note w4 = w3 [THEN conjunct2] note w5 = w4 [THEN conjunct2]
  note w6 = w5 [THEN conjunct2]
  show "n \<in> {1, 2} \<Longrightarrow> length s < 2 ^ 31 \<Longrightarrow>
      \<exists>p. ReadTag W (WriteBytes W n s @ r) = Some (word_of_nat (8 * n + 2), p) \<and> StringParser W p = Some (s, r)"
    by (rule w [THEN conjunct1, rule_format])
  show "\<exists>p. ReadTag W (WriteUInt32 W 3 v @ r) = Some (24, p) \<and> VarintParser W p = Some (v, r)"
    by (rule w2 [THEN conjunct1, rule_format])
  show "field_ok f \<Longrightarrow> \<exists>tag p. ReadTag W (field_out W f @ r) = Some (tag, p) \<and> drop_bit 3 tag \<notin> {1, 2, 3} \<and>
      tag AND 7 \<noteq> 4 \<and> tag \<noteq> 0 \<and> (\<forall>fs. UnknownFieldParse W tag fs p = Some (fs @ [f], r))"
    by (rule w3 [THEN conjunct1, rule_format])
  show "n \<in> {1, 2} \<Longrightarrow> length s < 2 ^ 31 \<Longrightarrow> length (WriteBytes W n s) = 1 + BytesSize W s"
    by (rule w4 [THEN conjunct1, rule_format])
  show "length (WriteUInt32 W 3 v) = 1 + UInt32Size W v"
    by (rule w5 [THEN conjunct1, rule_format])
  show "field_ok f \<Longrightarrow> length (field_out W f) = field_length W f \<and> field_length W f > 0"
    by (rule w6 [THEN conjunct1, rule_format])
  show "length s \<le> BytesSize W s" by (rule w6 [THEN conjunct2, rule_format])
qed

section \<open>Parsing merges\<close>

lemma tag_values:
  "drop_bit 3 (10 :: 32 word) = 1" "(10 :: 32 word) AND 255 = 10" "drop_bit 3 (18 :: 32 word) = 2"
  "(18 :: 32 word) AND 255 = 18" "drop_bit 3 (24 :: 32 word) = 3" "(24 :: 32 word) AND 255 = 24"
  by (simp_all add: drop_bit_eq_div)

lemma parse_service:
  assumes "wire_ok field_ok W" "length s < 2 ^ 31"
  shows "InternalParse W (WriteBytes W 1 s @ r) m = InternalParse W r (m\<lparr>service_name := s\<rparr>)"
proof -
  obtain p where p: "ReadTag W (WriteBytes W 1 s @ r) = Some (10, p)" "StringParser W p = Some (s, r)"
    using wire_okD(1) [OF assms(1) _ assms(2), of 1 r] by auto
  have "WriteBytes W 1 s \<noteq> []" using wire_okD(4) [OF assms(1) _ assms(2), of 1] by auto
  then show ?thesis using p by (subst InternalParse.simps) (simp add: parse_field_def Let_def tag_values)
qed

lemma parse_method:
  assumes "wire_ok field_ok W" "length s < 2 ^ 31"
  shows "InternalParse W (WriteBytes W 2 s @ r) m = InternalParse W r (m\<lparr>method_name := s\<rparr>)"
proof -
  obtain p where p: "ReadTag W (WriteBytes W 2 s @ r) = Some (18, p)" "StringParser W p = Some (s, r)"
    using wire_okD(1) [OF assms(1) _ assms(2), of 2 r] by auto
  have "WriteBytes W 2 s \<noteq> []" using wire_okD(4) [OF assms(1) _ assms(2), of 2] by auto
  then show ?thesis using p by (subst InternalParse.simps) (simp add: parse_field_def Let_def tag_values)
qed

lemma parse_args:
  assumes "wire_ok field_ok W"
  shows "InternalParse W (WriteUInt32 W 3 v @ r) m = InternalParse W r (m\<lparr>args_size := v\<rparr>)"
proof -
  obtain p where p: "ReadTag W (WriteUInt32 W 3 v @ r) = Some (24, p)" "VarintParser W p = Some (v, r)"
    using wire_okD(2) [OF assms] by blast
  have "WriteUInt32 W 3 v \<noteq> []" using wire_okD(5) [OF assms, of v] by auto
  then show ?thesis using p by (subst InternalParse.simps) (simp add: parse_field_def Let_def tag_values)
qed

lemma parse_unknown:
  assumes "wire_ok field_ok W"
  shows "\<forall>f \<in> set fs. field_ok f \<Longrightarrow> InternalParse W (concat (map (field_out W) fs) @ r) m =
    InternalParse W r (m\<lparr>unknown_fields := unknown_fields m @ fs\<rparr>)"
proof (induction fs arbitrary: m)
  case (Cons f fs)
  let ?rest = "concat (map (field_out W) fs) @ r"
  obtain tag p where p: "ReadTag W (field_out W f @ ?rest) = Some (tag, p)" "drop_bit 3 tag \<notin> {1, 2, 3}"
    "tag AND 7 \<noteq> 4" "tag \<noteq> 0" "\<And>fs. UnknownFieldParse W tag fs p = Some (fs @ [f], ?rest)"
    using wire_okD(3) [OF assms, of f ?rest] Cons.prems by auto
  have "field_out W f \<noteq> []" using wire_okD(6) [OF assms, of f] Cons.prems by fastforce
  then have "InternalParse W (field_out W f @ ?rest) m = InternalParse W ?rest (m\<lparr>unknown_fields := unknown_fields m @ [f]\<rparr>)"
    using p by (subst InternalParse.simps) (simp add: parse_field_def unusual_field_def Let_def)
  then show ?case using Cons by simp
qed simp

lemma parse_serialized:
  assumes "wire_ok field_ok W" "header_fits field_ok from"
  shows "InternalParse W (InternalSerialize W from @ r) m = InternalParse W r (MergeFrom m from)"
proof -
  let ?s = "if length (service_name from) > 0 then WriteBytes W 1 (service_name from) else []"
  let ?m = "if length (method_name from) > 0 then WriteBytes W 2 (method_name from) else []"
  let ?a = "if args_size from \<noteq> 0 then WriteUInt32 W 3 (args_size from) else []"
  let ?u = "concat (map (field_out W) (unknown_fields from))"
  have fits: "length (service_name from) < 2 ^ 31" "length (method_name from) < 2 ^ 31"
    "\<forall>f \<in> set (unknown_fields from). field_ok f" using assms(2) by (auto simp: header_fits_def)
  let ?m1 = "if length (service_name from) > 0 then m\<lparr>service_name := service_name from\<rparr> else m"
  let ?m2 = "if length (method_name from) > 0 then ?m1\<lparr>method_name := method_name from\<rparr> else ?m1"
  let ?m3 = "if args_size from \<noteq> 0 then ?m2\<lparr>args_size := args_size from\<rparr> else ?m2"
  have "InternalParse W (?s @ ?m @ ?a @ ?u @ r) m = InternalParse W (?m @ ?a @ ?u @ r) ?m1"
    using parse_service [OF assms(1) fits(1)] by simp
  also have "\<dots> = InternalParse W (?a @ ?u @ r) ?m2" using parse_method [OF assms(1) fits(2)] by simp
  also have "\<dots> = InternalParse W (?u @ r) ?m3" using parse_args [OF assms(1)] by simp
  also have "\<dots> = InternalParse W r (?m3\<lparr>unknown_fields := unknown_fields ?m3 @ unknown_fields from\<rparr>)"
    by (rule parse_unknown [OF assms(1) fits(3)])
  also have "?m3\<lparr>unknown_fields := unknown_fields ?m3 @ unknown_fields from\<rparr> = MergeFrom m from"
    by (simp add: MergeFrom_def Let_def)
  finally have "InternalParse W (?s @ ?m @ ?a @ ?u @ r) m = InternalParse W r (MergeFrom m from)" .
  moreover have "(if unknown_fields from \<noteq> [] then ?u else []) = ?u" by simp
  ultimately show ?thesis unfolding InternalSerialize_def append_assoc by (simp only:)
qed

lemma serialized_length:
  assumes "wire_ok field_ok W" "header_fits field_ok m"
  shows "length (InternalSerialize W m) = ByteSizeLong W m"
proof -
  have fits: "length (service_name m) < 2 ^ 31" "length (method_name m) < 2 ^ 31"
    "\<forall>f \<in> set (unknown_fields m). field_ok f" using assms(2) by (auto simp: header_fits_def)
  have "length (concat (map (field_out W) fs)) = sum_list (map (field_length W) fs)" if "\<forall>f \<in> set fs. field_ok f" for fs
    using that wire_okD(6) [OF assms(1)] by (induction fs) auto
  then show ?thesis
    using wire_okD(4) [OF assms(1) _ fits(1), of 1] wire_okD(4) [OF assms(1) _ fits(2), of 2] wire_okD(5) [OF assms(1)] fits(3)
    by (simp add: InternalSerialize_def ByteSizeLong_def Let_def)
qed

lemma MergeFrom_blank: "MergeFrom SharedCtor m = m" "MergeFrom (Clear m') m = m"
  by (simp_all add: MergeFrom_def SharedCtor_def Clear_def Let_def)

section \<open>The headers of requests\<close>

text \<open>
  The library's \<open>SerializeToString\<close> refuses what is longer than an \<open>int\<close> can say; its \<open>ParseFromString\<close>
  wants the input used up.
\<close>

definition generated_codec :: "'f wire \<Rightarrow> rpc_codec \<Rightarrow> rpc_codec" where
  "generated_codec W C = C\<lparr>
     header_out := (\<lambda>h. let m = RpcHeader.extend h \<lparr>unknown_fields = []\<rparr> in
       if ByteSizeLong W m < 2 ^ 31 then Some (InternalSerialize W m) else None),
     header_in := (\<lambda>s. case InternalParse W s SharedCtor of
         Some (Parsed m p None) \<Rightarrow> Some (RpcHeader.truncate m) | _ \<Rightarrow> None)\<rparr>"

lemma generated_header:
  assumes "wire_ok field_ok W" "header_out (generated_codec W C) h = Some s"
  shows "header_in (generated_codec W C) s = Some h \<and> length s < 2 ^ 31"
proof -
  let ?m = "RpcHeader.extend h \<lparr>unknown_fields = []\<rparr>"
  have small: "ByteSizeLong W ?m < 2 ^ 31" and s: "s = InternalSerialize W ?m"
    using assms(2) by (auto simp: generated_codec_def Let_def split: if_splits)
  have "length (service_name h) \<le> ByteSizeLong W ?m" "length (method_name h) \<le> ByteSizeLong W ?m"
    using wire_okD(7) [OF assms(1), of "service_name h"] wire_okD(7) [OF assms(1), of "method_name h"]
    by (simp_all add: ByteSizeLong_def Let_def RpcHeader.extend_def)
  then have fits: "header_fits field_ok ?m" using small by (simp add: header_fits_def RpcHeader.extend_def)
  have "InternalParse W s SharedCtor = Some (Parsed ?m [] None)"
    using parse_serialized [OF assms(1) fits, of "[]" SharedCtor] s MergeFrom_blank(1) [of ?m]
    by (simp add: InternalParse.simps [of W "[]"])
  moreover have "RpcHeader.truncate ?m = h" by (cases h) (simp add: RpcHeader.truncate_def RpcHeader.extend_def)
  ultimately show ?thesis
    using serialized_length [OF assms(1) fits] small s by (simp add: generated_codec_def)
qed

lemma generated_codec_ok:
  assumes "wire_ok field_ok W" "codec_rpc_ok C"
  shows "codec_rpc_ok (generated_codec W C)"
proof -
  have "ReadVarint32 (generated_codec W C) = ReadVarint32 C" "WriteVarint32 (generated_codec W C) = WriteVarint32 C"
    "CodedReadString (generated_codec W C) = CodedReadString C" by (simp_all add: generated_codec_def)
  then show ?thesis
    using assms(2) generated_header [OF assms(1), of C] unfolding codec_rpc_ok_def by (simp only:) blast
qed

section \<open>The encoding of the document\<close>

fun varint :: "nat \<Rightarrow> string" where
  "varint n = (if n < 128 then [char_of n] else char_of (n mod 128 + 128) # varint (n div 128))"

declare varint.simps [simp del]

fun get_varint :: "string \<Rightarrow> (nat \<times> string) option" where
  "get_varint [] = None"
| "get_varint (c # r) =
     (if of_char c < (128 :: nat) then Some (of_char c, r)
      else map_option (\<lambda>(n, r). (n * 128 + (of_char c - 128), r)) (get_varint r))"

lemma get_varint_inverse [simp]: "get_varint (varint n @ r) = Some (n, r)"
proof (induction n rule: varint.induct)
  case (1 n)
  have "n mod 128 + 128 < 256" by (simp add: trans_less_add1 [of _ 128])
  then show ?case using 1 by (subst varint.simps) (simp add: of_char_of)
qed

definition get_string :: "string \<Rightarrow> (string \<times> string) option" where
  "get_string p = (case get_varint p of None \<Rightarrow> None
     | Some (n, p) \<Rightarrow> if n \<le> length p then Some (take n p, drop n p) else None)"

definition plain_wire :: "(nat \<times> string) wire" where
  "plain_wire = \<lparr>ReadTag = (\<lambda>p. map_option (apfst word_of_nat) (get_varint p)), StringParser = get_string,
     VarintParser = (\<lambda>p. map_option (apfst word_of_nat) (get_varint p)),
     UnknownFieldParse = (\<lambda>tag fs p. if tag AND 7 = 2
       then map_option (\<lambda>(s, p). (fs @ [(unat (drop_bit 3 tag), s)], p)) (get_string p) else None),
     WriteBytes = (\<lambda>n s. varint (8 * n + 2) @ varint (length s) @ s), WriteUInt32 = (\<lambda>n v. varint (8 * n) @ varint (unat v)),
     field_out = (\<lambda>(n, s). varint (8 * n + 2) @ varint (length s) @ s),
     BytesSize = (\<lambda>s. length (varint (length s)) + length s), UInt32Size = (\<lambda>v. length (varint (unat v))),
     field_length = (\<lambda>(n, s). length (varint (8 * n + 2)) + length (varint (length s)) + length s)\<rparr>"

definition plain_field :: "nat \<times> string \<Rightarrow> bool" where
  "plain_field f \<longleftrightarrow> 4 \<le> fst f \<and> fst f < 2 ^ 29"

lemma get_string_inverse [simp]: "get_string (varint (length s) @ s @ r) = Some (s, r)"
  by (simp add: get_string_def)

lemma plain_tag:
  assumes "n < 2 ^ 29"
  shows "unat (drop_bit 3 (word_of_nat (8 * n + 2) :: 32 word)) = n" "(word_of_nat (8 * n + 2) :: 32 word) AND 7 = 2"
proof -
  have u: "unat (word_of_nat (8 * n + 2) :: 32 word) = 8 * n + 2" by (simp only: unat_of_nat) (use assms in simp)
  have "(8 * n + 2) div 8 = n" by linarith
  then show "unat (drop_bit 3 (word_of_nat (8 * n + 2) :: 32 word)) = n"
    by (simp only: unat_drop_bit_eq u) (simp add: drop_bit_eq_div)
  have "(word_of_nat (8 * n + 2) :: 32 word) AND 7 = take_bit 3 (word_of_nat (8 * n + 2))" by (simp add: take_bit_eq_mask mask_eq_exp_minus_1)
  also have "\<dots> = word_of_nat (take_bit 3 (8 * n + 2))" by (simp only: take_bit_of_nat)
  also have "take_bit 3 (8 * n + 2) = (2 :: nat)" unfolding take_bit_eq_mod by simp presburger
  finally show "(word_of_nat (8 * n + 2) :: 32 word) AND 7 = 2" by simp
qed

lemma plain_field_read:
  assumes "plain_field f"
  shows "\<exists>tag p. ReadTag plain_wire (field_out plain_wire f @ r) = Some (tag, p) \<and> drop_bit 3 tag \<notin> {1, 2, 3} \<and>
    tag AND 7 \<noteq> 4 \<and> tag \<noteq> 0 \<and> (\<forall>fs. UnknownFieldParse plain_wire tag fs p = Some (fs @ [f], r))"
proof -
  obtain n s where f: "f = (n, s)" "4 \<le> n" "n < 2 ^ 29" using assms by (cases f) (auto simp: plain_field_def)
  define tag :: "32 word" where "tag = word_of_nat (8 * n + 2)"
  have tag: "unat (drop_bit 3 tag) = n" "tag AND 7 = 2" unfolding tag_def using plain_tag [OF f(3)] by blast+
  have "ReadTag plain_wire (field_out plain_wire f @ r) = Some (tag, varint (length s) @ s @ r)"
    by (simp add: plain_wire_def f(1) tag_def)
  moreover have "drop_bit 3 tag \<notin> {1, 2, 3}" using tag(1) f(2) by auto
  moreover have "tag \<noteq> 0" using tag(2) by auto
  moreover have "UnknownFieldParse plain_wire tag fs (varint (length s) @ s @ r) = Some (fs @ [f], r)" for fs
    using tag by (simp add: plain_wire_def f(1))
  ultimately show ?thesis using tag(2) by (intro exI [of _ tag] exI [of _ "varint (length s) @ s @ r"]) simp
qed

lemma varint_small: "n < 128 \<Longrightarrow> varint n = [char_of n]"
  by (simp add: varint.simps [of n])

lemma plain_wire_ok: "wire_ok plain_field plain_wire"
proof -
  have "length (field_out plain_wire f) = field_length plain_wire f \<and> field_length plain_wire f > 0" for f
    by (cases f) (simp add: plain_wire_def varint.simps)
  moreover have "\<exists>p. ReadTag plain_wire (WriteBytes plain_wire n s @ r) = Some (word_of_nat (8 * n + 2), p) \<and>
      StringParser plain_wire p = Some (s, r)" for n s r by (simp add: plain_wire_def)
  moreover have "\<exists>p. ReadTag plain_wire (WriteUInt32 plain_wire 3 v @ r) = Some (24, p) \<and> VarintParser plain_wire p = Some (v, r)"
    for v r by (simp add: plain_wire_def)
  moreover have "length (WriteBytes plain_wire n s) = 1 + BytesSize plain_wire s" if "n \<in> {1, 2}" for n s
    using that by (auto simp: plain_wire_def varint_small)
  moreover have "length (WriteUInt32 plain_wire 3 v) = 1 + UInt32Size plain_wire v" for v
    by (simp add: plain_wire_def varint_small)
  moreover have "length s \<le> BytesSize plain_wire s" for s by (simp add: plain_wire_def)
  ultimately show ?thesis unfolding wire_ok_def using plain_field_read by blast
qed

section \<open>Properties\<close>

text \<open>
  C20: what is serialized from a header is as long as \<open>ByteSizeLong\<close> says and, parsed into any header, is merged into
  it: set fields replace, fields of a later version of the message are kept behind those that are there.  Merged into a
  new header, or copied over any header, it gives the header that was serialized.
\<close>

theorem header_parse_merges:
  assumes "wire_ok field_ok W" "header_fits field_ok from"
  shows "InternalParse W (InternalSerialize W from) m = Some (Parsed (MergeFrom m from) [] None) \<and>
    length (InternalSerialize W from) = ByteSizeLong W from \<and> MergeFrom SharedCtor from = from \<and>
    CopyFrom m False from = from \<and> copy_header from = from \<and> InternalSwap m from = (from, m)"
proof -
  have "InternalParse W (InternalSerialize W from) m = Some (Parsed (MergeFrom m from) [] None)"
    using parse_serialized [OF assms, of "[]" m] by (simp add: InternalParse.simps [of W "[]"])
  then show ?thesis
    using serialized_length [OF assms] by (simp add: CopyFrom_def copy_header_def InternalSwap_def MergeFrom_blank)
qed

theorem header_parse_merges_witness:
  "InternalParse plain_wire (InternalSerialize plain_wire \<lparr>service_name = ''kv'', method_name = ''Get'', args_size = 300,
       unknown_fields = [(9, ''new'')]\<rparr>) SharedCtor =
     Some (Parsed \<lparr>service_name = ''kv'', method_name = ''Get'', args_size = 300, unknown_fields = [(9, ''new'')]\<rparr> [] None)"
  using header_parse_merges [OF plain_wire_ok, of "\<lparr>service_name = ''kv'', method_name = ''Get'', args_size = 300,
       unknown_fields = [(9, ''new'')]\<rparr>" SharedCtor]
  by (simp add: header_fits_def plain_field_def)

end
