(* ===== verification/Thread_Pool.thy ===== *)
theory Thread_Pool
  imports KV_Prelude "HOL-Library.Multiset"
begin

text \<open>
  \<open>ThreadPool\<close> of \<open>common/include/threadPool.h\<close>: the queue the RPC server hands the requests of clients
  to, its workers, and the destructor that lets them finish.

  Every access to the queue is under the mutex, so each is one step; a worker that waits on the condition variable
  goes on exactly when its predicate holds.  Running a task is outside the lock: a worker is in it between two
  steps.  Two history variables, the tasks that were accepted and those that were run, influence no step.
\<close>

datatype 'a worker = Idle | Running 'a | Finished

record 'a pool =
  m_workers :: "'a worker list"
  m_tasks :: "'a list"
  m_stop :: bool

definition ThreadPool_new :: "nat \<Rightarrow> 'a pool" where
  "ThreadPool_new numThreads = \<lparr>m_workers = replicate numThreads Idle, m_tasks = [], m_stop = False\<rparr>"

definition pool_enqueue :: "'a \<Rightarrow> 'a pool \<Rightarrow> 'a pool" where
  "pool_enqueue task p = (if m_stop p then p else p\<lparr>m_tasks := m_tasks p @ [task]\<rparr>)"

definition pendingTasks :: "'a pool \<Rightarrow> nat" where
  "pendingTasks p = length (m_tasks p)"

text \<open>
  A worker comes to its wait: \<open>None\<close> when it stays there, else it leaves the loop or takes the first task.
\<close>

definition worker_take :: "nat \<Rightarrow> 'a pool \<Rightarrow> 'a pool option" where
  "worker_take w p =
     (if \<not> (m_stop p \<or> m_tasks p \<noteq> []) then None
      else if m_stop p \<and> m_tasks p = [] then Some (p\<lparr>m_workers := (m_workers p)[w := Finished]\<rparr>)
      else Some (p\<lparr>m_workers := (m_workers p)[w := Running (hd (m_tasks p))], m_tasks := tl (m_tasks p)\<rparr>))"

definition worker_done :: "nat \<Rightarrow> 'a pool \<Rightarrow> 'a pool" where
  "worker_done w p = p\<lparr>m_workers := (m_workers p)[w := Idle]\<rparr>"

text \<open>The destructor: it sets the flag, and returns when every worker has.\<close>

definition pool_stop :: "'a pool \<Rightarrow> 'a pool" where
  "pool_stop p = p\<lparr>m_stop := True\<rparr>"

definition pool_joined :: "'a pool \<Rightarrow> bool" where
  "pool_joined p \<longleftrightarrow> m_stop p \<and> (\<forall>w \<in> set (m_workers p). w = Finished)"

section \<open>Runs\<close>

record 'a pool_run =
  the_pool :: "'a pool"
  accepted :: "'a list"
  started :: "'a list"
  finished :: "(nat \<times> 'a) list"

inductive pool_step :: "'a pool_run \<Rightarrow> 'a pool_run \<Rightarrow> bool" where
  st_enqueue: "pool_step r (r\<lparr>the_pool := pool_enqueue t (the_pool r),
     accepted := accepted r @ (if m_stop (the_pool r) then [] else [t])\<rparr>)"
| st_take: "w < length (m_workers (the_pool r)) \<Longrightarrow> m_workers (the_pool r) ! w = Idle \<Longrightarrow>
     worker_take w (the_pool r) = Some p \<Longrightarrow>
     pool_step r (r\<lparr>the_pool := p, started := started r @ take 1 (m_tasks (the_pool r))\<rparr>)"
| st_done: "w < length (m_workers (the_pool r)) \<Longrightarrow> m_workers (the_pool r) ! w = Running t \<Longrightarrow>
     pool_step r (r\<lparr>the_pool := worker_done w (the_pool r), finished := finished r @ [(w, t)]\<rparr>)"
| st_stop: "pool_step r (r\<lparr>the_pool := pool_stop (the_pool r)\<rparr>)"

inductive_cases pool_stepE: "pool_step r r'"

inductive pool_reach :: "nat \<Rightarrow> 'a pool_run \<Rightarrow> bool" for n where
  pr_new: "pool_reach n \<lparr>the_pool = ThreadPool_new n, accepted = [], started = [], finished = []\<rparr>"
| pr_step: "pool_reach n r \<Longrightarrow> pool_step r r' \<Longrightarrow> pool_reach n r'"

text \<open>The tasks in the hands of workers.\<close>

fun in_hand :: "'a worker list \<Rightarrow> 'a list" where
  "in_hand [] = []"
| "in_hand (Running t # ws) = t # in_hand ws"
| "in_hand (_ # ws) = in_hand ws"

lemma mset_in_hand_upd:
  assumes "w < length ws"
  shows "mset (in_hand (ws[w := x])) + mset (in_hand [ws ! w]) = mset (in_hand ws) + mset (in_hand [x])"
  using assms
proof (induction ws arbitrary: w)
  case (Cons a ws)
  then show ?case by (cases w; cases a; cases x) (auto simp: algebra_simps)
qed simp

definition pool_inv :: "nat \<Rightarrow> 'a pool_run \<Rightarrow> bool" where
  "pool_inv n r \<longleftrightarrow> started r @ m_tasks (the_pool r) = accepted r \<and>
     mset (started r) = mset (map snd (finished r)) + mset (in_hand (m_workers (the_pool r))) \<and>
     length (m_workers (the_pool r)) = n \<and>
     (Finished \<in> set (m_workers (the_pool r)) \<longrightarrow> m_stop (the_pool r) \<and> m_tasks (the_pool r) = [])"

lemma Finished_update:
  "Finished \<in> set (ws[w := x]) \<Longrightarrow> x \<noteq> Finished \<Longrightarrow> Finished \<in> set ws"
  by (metis in_set_conv_nth length_list_update nth_list_update_eq nth_list_update_neq)

lemma in_hand_idle [simp]: "in_hand (replicate n Idle) = []"
  by (induction n) auto

lemma worker_take_cases:
  assumes "worker_take w p = Some p'"
  obtains (leave) "m_stop p" "m_tasks p = []" "p' = p\<lparr>m_workers := (m_workers p)[w := Finished]\<rparr>"
  | (run) t ts where "m_tasks p = t # ts" "p' = p\<lparr>m_workers := (m_workers p)[w := Running t], m_tasks := ts\<rparr>"
  using assms by (cases "m_tasks p") (auto simp: worker_take_def split: if_splits)

lemma pool_step_inv: "pool_step r r' \<Longrightarrow> pool_inv n r \<Longrightarrow> pool_inv n r'"
proof (induction rule: pool_step.induct)
  case (st_enqueue r t)
  then show ?case by (auto simp: pool_inv_def pool_enqueue_def)
next
  case (st_take w r p)
  let ?ws = "m_workers (the_pool r)"
  from st_take(3) show ?case
  proof (cases rule: worker_take_cases)
    case leave
    have "mset (in_hand (?ws[w := Finished])) = mset (in_hand ?ws)"
      using mset_in_hand_upd [OF st_take(1), of Finished] st_take(2) by simp
    then show ?thesis using leave st_take(4) by (auto simp: pool_inv_def)
  next
    case (run t ts)
    have "mset (in_hand (?ws[w := Running t])) = add_mset t (mset (in_hand ?ws))"
      using mset_in_hand_upd [OF st_take(1), of "Running t"] st_take(2) by simp
    moreover have "Finished \<notin> set ?ws" using run(1) st_take(4) by (auto simp: pool_inv_def)
    ultimately show ?thesis using run st_take(4) by (auto simp: pool_inv_def dest: Finished_update)
  qed
next
  case (st_done w r t)
  let ?ws = "m_workers (the_pool r)"
  have "add_mset t (mset (in_hand (?ws[w := Idle]))) = mset (in_hand ?ws)"
    using mset_in_hand_upd [OF st_done(1), of Idle] st_done(2) by simp
  then show ?case using st_done(3) by (auto simp: pool_inv_def worker_done_def dest: Finished_update)
next
  case (st_stop r)
  then show ?case by (auto simp: pool_inv_def pool_stop_def)
qed

lemma pool_reach_inv: "pool_reach n r \<Longrightarrow> pool_inv n r"
proof (induction rule: pool_reach.induct)
  case pr_new
  then show ?case by (auto simp: pool_inv_def ThreadPool_new_def)
qed (rule pool_step_inv)

section \<open>Shutting down\<close>

text \<open>After the flag is set, the turns of the workers that are left: a measure, and that there is one unless all are done.\<close>

fun worker_turns :: "'a worker \<Rightarrow> nat" where
  "worker_turns Idle = 1"
| "worker_turns (Running t) = 2"
| "worker_turns Finished = 0"

definition turns_left :: "'a pool \<Rightarrow> nat" where
  "turns_left p = 2 * length (m_tasks p) + sum_list (map worker_turns (m_workers p))"

inductive worker_step :: "'a pool \<Rightarrow> 'a pool \<Rightarrow> bool" where
  "w < length (m_workers p) \<Longrightarrow> m_workers p ! w = Idle \<Longrightarrow> worker_take w p = Some p' \<Longrightarrow> worker_step p p'"
| "w < length (m_workers p) \<Longrightarrow> m_workers p ! w = Running t \<Longrightarrow> worker_step p (worker_done w p)"

lemma sum_list_update_nat:
  fixes f :: "'a \<Rightarrow> nat"
  assumes "w < length ws"
  shows "sum_list (map f (ws[w := x])) + f (ws ! w) = sum_list (map f ws) + f x"
  using assms
proof (induction ws arbitrary: w)
  case (Cons a ws)
  then show ?case by (cases w) (auto simp: algebra_simps)
qed simp

lemma worker_step_decreases: "worker_step p p' \<Longrightarrow> turns_left p' < turns_left p \<and> m_stop p' = m_stop p"
proof (induction rule: worker_step.induct)
  case (1 w p p')
  have s: "sum_list (map worker_turns ((m_workers p)[w := x])) + 1 = sum_list (map worker_turns (m_workers p)) + worker_turns x" for x
    using sum_list_update_nat [OF 1(1), of worker_turns x] 1(2) by simp
  from 1(3) show ?case
  proof (cases rule: worker_take_cases)
    case leave
    then show ?thesis using s [of Finished] by (simp add: turns_left_def)
  next
    case (run t ts)
    then show ?thesis using s [of "Running t"] by (simp add: turns_left_def)
  qed
next
  case (2 w p t)
  show ?case
    using sum_list_update_nat [OF 2(1), of worker_turns Idle] 2(2) by (simp add: turns_left_def worker_done_def)
qed

lemma worker_step_exists:
  assumes "m_stop p" "\<not> pool_joined p"
  shows "\<exists>p'. worker_step p p'"
proof -
  obtain w where w: "w < length (m_workers p)" "m_workers p ! w \<noteq> Finished"
    using assms unfolding pool_joined_def by (metis in_set_conv_nth)
  show ?thesis
  proof (cases "m_workers p ! w")
    case Idle
    have "worker_take w p \<noteq> None" using assms(1) by (simp add: worker_take_def)
    then obtain p' where "worker_take w p = Some p'" by blast
    from worker_step.intros(1) [OF w(1) Idle this] show ?thesis ..
  next
    case (Running t)
    from worker_step.intros(2) [OF w(1) this] show ?thesis ..
  next
    case Finished
    with w(2) show ?thesis by contradiction
  qed
qed

text \<open>
  C22: tasks start in the order they were accepted, each once; and when the destructor of a pool with a worker returns,
  every accepted task has run to its end.
\<close>

theorem pool_runs_all_tasks:
  assumes "pool_reach n r" "0 < n"
  shows "prefix (started r) (accepted r) \<and> length (accepted r) = length (started r) + pendingTasks (the_pool r) \<and>
    (pool_joined (the_pool r) \<longrightarrow> started r = accepted r \<and> mset (map snd (finished r)) = mset (accepted r))"
proof -
  have inv: "pool_inv n r" by (rule pool_reach_inv [OF assms(1)])
  then have acc: "accepted r = started r @ m_tasks (the_pool r)" by (simp add: pool_inv_def)
  have "started r = accepted r \<and> mset (map snd (finished r)) = mset (accepted r)" if "pool_joined (the_pool r)"
  proof -
    have ws: "m_workers (the_pool r) = replicate n Finished"
      using that inv by (auto simp: pool_joined_def pool_inv_def intro: replicate_eqI)
    moreover have "in_hand (replicate n Finished) = []" by (induction n) auto
    ultimately show ?thesis using inv assms(2) by (auto simp: pool_inv_def)
  qed
  then show ?thesis unfolding acc by (simp add: pendingTasks_def)
qed

lemma pool_reach_ex: "pool_reach 1 \<lparr>the_pool = \<lparr>m_workers = [Finished], m_tasks = [], m_stop = True\<rparr>, accepted = [7 :: nat],
  started = [7], finished = [(0, 7)]\<rparr>"
proof -
  have "pool_reach 1 \<lparr>the_pool = \<lparr>m_workers = [Idle], m_tasks = [], m_stop = False\<rparr>, accepted = [] :: nat list, started = [], finished = []\<rparr>"
    using pr_new [of 1] by (simp add: ThreadPool_new_def)
  from pr_step [OF this st_enqueue [of _ 7]]
  have "pool_reach 1 \<lparr>the_pool = \<lparr>m_workers = [Idle], m_tasks = [7], m_stop = False\<rparr>, accepted = [7 :: nat], started = [], finished = []\<rparr>"
    by (simp add: pool_enqueue_def)
  from pr_step [OF this st_stop]
  have "pool_reach 1 \<lparr>the_pool = \<lparr>m_workers = [Idle], m_tasks = [7], m_stop = True\<rparr>, accepted = [7 :: nat], started = [], finished = []\<rparr>"
    by (simp add: pool_stop_def)
  from pr_step [OF this st_take [of 0]]
  have "pool_reach 1 \<lparr>the_pool = \<lparr>m_workers = [Running 7], m_tasks = [], m_stop = True\<rparr>, accepted = [7 :: nat], started = [7], finished = []\<rparr>"
    by (simp add: worker_take_def)
  from pr_step [OF this st_done [of 0 _ 7]]
  have "pool_reach 1 \<lparr>the_pool = \<lparr>m_workers = [Idle], m_tasks = [], m_stop = True\<rparr>, accepted = [7 :: nat], started = [7], finished = [(0, 7)]\<rparr>"
    by (simp add: worker_done_def)
  from pr_step [OF this st_take [of 0]] show ?thesis by (simp add: worker_take_def)
qed

theorem pool_runs_all_tasks_witness:
  "prefix [7 :: nat] [7] \<and> pool_joined \<lparr>m_workers = [Finished :: nat worker], m_tasks = [], m_stop = True\<rparr>"
  using pool_runs_all_tasks [OF pool_reach_ex] by (simp add: pool_joined_def)

text \<open>
  Once the destructor has set the flag it returns: as long as a worker is left one of them can go on, and every
  turn of a worker uses up one of a number of turns that is known at the start.
\<close>

theorem pool_shutdown_terminates:
  assumes "m_stop p"
  shows "(\<not> pool_joined p \<longrightarrow> (\<exists>p'. worker_step p p')) \<and>
    (\<forall>k p'. (worker_step ^^ k) p p' \<longrightarrow> m_stop p' \<and> turns_left p' + k \<le> turns_left p)"
proof -
  have "(worker_step ^^ k) p p' \<Longrightarrow> m_stop p' \<and> turns_left p' + k \<le> turns_left p" for k p'
  proof (induction k arbitrary: p')
    case (Suc k)
    then obtain q where "(worker_step ^^ k) p q" "worker_step q p'" by auto
    then show ?case using Suc.IH [of q] worker_step_decreases [of q p'] by simp
  qed (use assms in simp)
  then show ?thesis using worker_step_exists [OF assms] by blast
qed

theorem pool_shutdown_terminates_witness:
  "\<exists>p'. worker_step (pool_stop (ThreadPool_new 2 :: nat pool)) p'"
  using pool_shutdown_terminates [of "pool_stop (ThreadPool_new 2 :: nat pool)"]
  by (simp add: pool_stop_def ThreadPool_new_def pool_joined_def)

end
