(* ===== verification/Metrics.thy ===== *)
theory Metrics
  imports KV_Prelude
begin

text \<open>
  \<open>Metrics\<close> of \<open>common/include/metrics.h\<close> (counters, gauges and a window of latency samples per name) and the
  search for a free port of \<open>common/util.cpp\<close>.  Every operation runs under the mutex.  The order in which an
  unordered map is iterated over is a parameter of \<open>metrics_dump\<close>.
\<close>

record metrics =
  m_counters :: "string \<rightharpoonup> int"
  m_gauges :: "string \<rightharpoonup> int"
  m_latencies :: "string \<rightharpoonup> int list"

definition metrics_reset :: "metrics \<Rightarrow> metrics" where
  "metrics_reset m = m\<lparr>m_counters := Map.empty, m_gauges := Map.empty, m_latencies := Map.empty\<rparr>"

definition incCounter :: "string \<Rightarrow> metrics \<Rightarrow> metrics" where
  "incCounter name m =
     m\<lparr>m_counters := (m_counters m)(name \<mapsto> (case m_counters m name of None \<Rightarrow> 0 | Some v \<Rightarrow> v) + 1)\<rparr>"

definition setGauge :: "string \<Rightarrow> int \<Rightarrow> metrics \<Rightarrow> metrics" where
  "setGauge name v m = m\<lparr>m_gauges := (m_gauges m)(name \<mapsto> v)\<rparr>"

definition window_add :: "int \<Rightarrow> int list \<Rightarrow> int list" where
  "window_add us vec = (if length vec \<ge> 10000 then drop (length vec div 2) vec else vec) @ [us]"

definition recordLatency :: "string \<Rightarrow> int \<Rightarrow> metrics \<Rightarrow> metrics" where
  "recordLatency name us m =
     m\<lparr>m_latencies := (m_latencies m)(name \<mapsto> window_add us (case m_latencies m name of None \<Rightarrow> [] | Some vec \<Rightarrow> vec))\<rparr>"

text \<open>The end of a \<open>MetricsTimer\<close>; the clock counts nanoseconds.\<close>

definition MetricsTimer_end :: "string \<Rightarrow> nat \<Rightarrow> nat \<Rightarrow> metrics \<Rightarrow> metrics" where
  "MetricsTimer_end name m_start end m = recordLatency name (int ((end - m_start) div 1000)) m"

definition percentile :: "nat \<Rightarrow> int list \<Rightarrow> int" where
  "percentile p vec = (let sorted = sort vec; n = length sorted in sorted ! min (n * p div 100) (n - 1))"

definition latency_lines :: "string \<times> int list \<Rightarrow> string" where
  "latency_lines kv = (case kv of (k, vec) \<Rightarrow>
     if vec = [] then []
     else k @ ''_count '' @ dec_string (length vec) @ [CHR 0x0A] @
          k @ ''_p50 '' @ int_string (percentile 50 vec) @ [CHR 0x0A] @
          k @ ''_p99 '' @ int_string (percentile 99 vec) @ [CHR 0x0A] @
          k @ ''_max '' @ int_string (sort vec ! (length vec - 1)) @ [CHR 0x0A])"

definition value_line :: "string \<times> int \<Rightarrow> string" where
  "value_line kv = fst kv @ '' '' @ int_string (snd kv) @ [CHR 0x0A]"

definition in_order :: "string list \<Rightarrow> (string \<rightharpoonup> 'v) \<Rightarrow> (string \<times> 'v) list" where
  "in_order ks m = map (\<lambda>k. (k, the (m k))) ks"

definition metrics_dump :: "string list \<Rightarrow> string list \<Rightarrow> string list \<Rightarrow> metrics \<Rightarrow> string" where
  "metrics_dump cs gs ls m =
     ''# ======================== METRICS DUMP ========================'' @ [CHR 0x0A] @
     ''# COUNTERS'' @ [CHR 0x0A] @ concat (map value_line (in_order cs (m_counters m))) @
     ''# GAUGES'' @ [CHR 0x0A] @ concat (map value_line (in_order gs (m_gauges m))) @
     ''# LATENCIES (us)'' @ [CHR 0x0A] @ concat (map latency_lines (in_order ls (m_latencies m))) @
     ''# =============================================================='' @ [CHR 0x0A]"

section \<open>The window\<close>

definition samples :: "string \<Rightarrow> metrics \<Rightarrow> int list" where
  "samples name m = (case m_latencies m name of None \<Rightarrow> [] | Some vec \<Rightarrow> vec)"

definition record_all :: "string \<Rightarrow> int list \<Rightarrow> metrics \<Rightarrow> metrics" where
  "record_all name = fold (recordLatency name)"

lemma samples_record [simp]:
  "samples name (recordLatency name' us m) = (if name' = name then window_add us (samples name m) else samples name m)"
  by (auto simp: samples_def recordLatency_def)

lemma window_add_suffix:
  assumes "suffix vec xs" "min (length xs) 5001 \<le> length vec" "length vec \<le> 10000"
  shows "suffix (window_add us vec) (xs @ [us])" "min (length (xs @ [us])) 5001 \<le> length (window_add us vec)"
    "length (window_add us vec) \<le> 10000"
proof -
  have "suffix (drop k vec) xs" for k using assms(1) suffix_drop suffix_order.trans by blast
  then show "suffix (window_add us vec) (xs @ [us])"
    using assms(1) by (auto simp: window_add_def suffix_def)
  show "min (length (xs @ [us])) 5001 \<le> length (window_add us vec)" "length (window_add us vec) \<le> 10000"
    using assms(2,3) by (auto simp: window_add_def)
qed

lemma record_all_window:
  assumes "samples name m = []"
  shows "suffix (samples name (record_all name xs m)) xs \<and>
    min (length xs) 5001 \<le> length (samples name (record_all name xs m)) \<and> length (samples name (record_all name xs m)) \<le> 10000"
proof (induction xs rule: rev_induct)
  case Nil
  then show ?case using assms by (simp add: record_all_def)
next
  case (snoc us xs)
  have "samples name (record_all name (xs @ [us]) m) = window_add us (samples name (record_all name xs m))"
    by (simp add: record_all_def)
  then show ?case using snoc window_add_suffix by metis
qed

section \<open>Percentiles\<close>

lemma filter_le_nth:
  fixes s :: "'a :: linorder list"
  assumes "sorted s" "i < length s"
  shows "i < length (filter (\<lambda>x. x \<le> s ! i) s)" "length (filter (\<lambda>x. x < s ! i) s) \<le> i"
proof -
  have s: "s = take (Suc i) s @ drop (Suc i) s" by simp
  have "filter (\<lambda>x. x \<le> s ! i) (take (Suc i) s) = take (Suc i) s"
    using assms sorted_nth_mono [of s _ i] by (auto simp: filter_id_conv in_set_conv_nth less_Suc_eq_le)
  then have "length (filter (\<lambda>x. x \<le> s ! i) s) \<ge> length (take (Suc i) s)"
    by (metis s filter_append length_append le_add1)
  then show "i < length (filter (\<lambda>x. x \<le> s ! i) s)" using assms(2) by simp
  have "s = take i s @ drop i s" by simp
  moreover have "filter (\<lambda>x. x < s ! i) (drop i s) = []"
    using assms sorted_nth_mono [of s i] by (auto simp: filter_empty_conv in_set_conv_nth not_less)
  ultimately have "length (filter (\<lambda>x. x < s ! i) s) \<le> length (take i s)"
    by (metis append_Nil2 filter_append length_filter_le)
  then show "length (filter (\<lambda>x. x < s ! i) s) \<le> i" using assms(2) by simp
qed

lemma filter_sort_length: "length (filter P (sort xs)) = length (filter P xs)"
  by (metis filter_sort length_sort)

lemma percentile_counts:
  assumes "vec \<noteq> []" "p < 100"
  shows "length vec * p div 100 < length (filter (\<lambda>x. x \<le> percentile p vec) vec)"
    "length (filter (\<lambda>x. x < percentile p vec) vec) \<le> length vec * p div 100" "percentile p vec \<in> set vec"
proof -
  let ?i = "length vec * p div 100"
  have i: "?i < length vec" using assms by (simp add: div_less_iff_less_mult)
  then have e: "percentile p vec = sort vec ! ?i" by (simp add: percentile_def Let_def min_def)
  show "?i < length (filter (\<lambda>x. x \<le> percentile p vec) vec)" "length (filter (\<lambda>x. x < percentile p vec) vec) \<le> ?i"
    using filter_le_nth [of "sort vec" ?i] i by (simp_all add: e filter_sort_length)
  show "percentile p vec \<in> set vec" using i nth_mem [of ?i "sort vec"] by (simp add: e)
qed

text \<open>
  Of the latencies recorded under a name the newest are kept, at most 10000 and at least 5001 (all, while there are
  fewer); the 50th and 99th percentile the dump prints are samples, with no more than that share of the
  samples below them and more than that share not above them.
\<close>

theorem latency_window_percentiles:
  assumes "samples name m = []" "xs \<noteq> []" "p = 50 \<or> p = 99"
  shows "\<exists>vec. m_latencies (record_all name xs m) name = Some vec \<and> suffix vec xs \<and>
    min (length xs) 5001 \<le> length vec \<and> length vec \<le> 10000 \<and> percentile p vec \<in> set vec \<and>
    length (filter (\<lambda>x. x < percentile p vec) vec) \<le> length vec * p div 100 \<and>
    length vec * p div 100 < length (filter (\<lambda>x. x \<le> percentile p vec) vec)"
proof -
  let ?v = "samples name (record_all name xs m)"
  have w: "suffix ?v xs" "min (length xs) 5001 \<le> length ?v" "length ?v \<le> 10000"
    using record_all_window [OF assms(1)] by blast+
  then have ne: "?v \<noteq> []" using assms(2) by (cases xs) auto
  then have "m_latencies (record_all name xs m) name = Some ?v"
    by (auto simp: samples_def split: option.splits)
  then show ?thesis using w percentile_counts [OF ne, of p] assms(3) by auto
qed

theorem latency_window_percentiles_witness:
  "\<exists>vec. m_latencies (record_all ''get'' [30, 10, 20] (metrics_reset undefined)) ''get'' = Some vec \<and> suffix vec [30, 10, 20]"
  using latency_window_percentiles [of "''get''" "metrics_reset undefined" "[30, 10, 20]" 50]
  by (auto simp: samples_def metrics_reset_def)

section \<open>Free ports\<close>

text \<open>
  \<open>getReleasePort\<close>: a \<open>short\<close> that is incremented up to thirty times, which wraps around; whether a port is free is
  a parameter.  \<open>k\<close> counts the increments left.
\<close>

fun release_loop :: "(16 word \<Rightarrow> bool) \<Rightarrow> nat \<Rightarrow> 16 word \<Rightarrow> 16 word \<times> nat" where
  "release_loop isReleasePort 0 port = (port, 0)"
| "release_loop isReleasePort (Suc k) port =
     (if \<not> isReleasePort port then release_loop isReleasePort k (port + 1) else (port, Suc k))"

definition getReleasePort :: "(16 word \<Rightarrow> bool) \<Rightarrow> 16 word \<Rightarrow> 16 word \<times> bool" where
  "getReleasePort isReleasePort port =
     (case release_loop isReleasePort 30 port of (port, left) \<Rightarrow> if left = 0 then (-1, False) else (port, True))"

lemma release_loop_finds:
  "case release_loop free k port of (p, left) \<Rightarrow>
     (if \<forall>i < k. \<not> free (port + word_of_nat i) then left = 0
      else 0 < left \<and> (\<exists>i < k. p = port + word_of_nat i \<and> free p \<and> (\<forall>j < i. \<not> free (port + word_of_nat j))))"
proof (induction free k port rule: release_loop.induct)
  case (2 free k port)
  show ?case
  proof (cases "free port")
    case True
    then show ?thesis by (auto intro!: exI [of _ 0])
  next
    case False
    obtain p left where l: "release_loop free k (port + 1) = (p, left)" by force
    have shift: "port + 1 + word_of_nat i = port + word_of_nat (Suc i)" for i by simp
    have all: "(\<forall>i < Suc k. \<not> free (port + word_of_nat i)) \<longleftrightarrow> (\<forall>i < k. \<not> free (port + 1 + word_of_nat i))"
      unfolding shift using False by (auto simp: less_Suc_eq_0_disj)
    show ?thesis
    proof (cases "\<forall>i < k. \<not> free (port + 1 + word_of_nat i)")
      case True
      then show ?thesis using "2.IH" [OF False] l False all by simp
    next
      case F: False
      have "0 < left \<and> (\<exists>i < k. p = port + word_of_nat (Suc i) \<and> free p \<and>
          (\<forall>j < i. \<not> free (port + word_of_nat (Suc j))))"
        using "2.IH" [OF False, unfolded l prod.case shift] by (simp only: F [unfolded shift] if_False)
      then obtain i where "0 < left" "i < k" "p = port + word_of_nat (Suc i)" "free p"
        "\<forall>j < i. \<not> free (port + word_of_nat (Suc j))" by blast
      moreover from this have "\<forall>j < Suc i. \<not> free (port + word_of_nat j)"
        using False by (auto simp: less_Suc_eq_0_disj)
      ultimately show ?thesis using l False F all by (auto intro!: exI [of _ "Suc i"])
    qed
  qed
qed auto

lemma getReleasePort_first_free:
  "getReleasePort free port =
     (if \<forall>i < 30. \<not> free (port + word_of_nat i) then (-1, False)
      else (port + word_of_nat (LEAST i. free (port + word_of_nat i)), True))"
proof -
  obtain p left where l: "release_loop free 30 port = (p, left)" by force
  show ?thesis
  proof (cases "\<forall>i < 30. \<not> free (port + word_of_nat i)")
    case True
    then show ?thesis using release_loop_finds [where free = free and k = 30 and port = port] l by (simp add: getReleasePort_def)
  next
    case False
    have "0 < left \<and> (\<exists>i < 30. p = port + word_of_nat i \<and> free p \<and> (\<forall>j < i. \<not> free (port + word_of_nat j)))"
      using release_loop_finds [where free = free and k = 30 and port = port, unfolded l prod.case]
      by (simp only: False if_False)
    then obtain i where i: "0 < left" "p = port + word_of_nat i" "free p" "\<forall>j < i. \<not> free (port + word_of_nat j)"
      by blast
    then have "(LEAST i. free (port + word_of_nat i)) = i"
      by (intro Least_equality) (auto simp: not_less [symmetric])
    then show ?thesis using False i l by (simp add: getReleasePort_def)
  qed
qed

end
