(* ===== verification/Locks.thy ===== *)
theory Locks
  imports KV_Prelude
begin

text \<open>
  The locks of \<open>fiber/include/mutex.hpp\<close>: the two mutex classes over the pthread calls, and the three guard
  templates, which keep in \<open>isLocked_\<close> whether they hold their mutex.  A thread is a number.  A pthread call that has to
  wait is \<open>Waits\<close>; it is tried again when the lock has changed.  The properties are about the guards of one mutex that
  any number of threads create, lock, unlock and destroy in any order.
\<close>

section \<open>The pthread calls\<close>

datatype 'm pthread = Waits | Fails int 'm | Done 'm | Undefined

definition EDEADLK :: int where
  "EDEADLK = 35"

type_synonym mutex = "nat option"

definition pthread_mutex_lock :: "nat \<Rightarrow> mutex \<Rightarrow> mutex pthread" where
  "pthread_mutex_lock t m = (case m of None \<Rightarrow> Done (Some t) | Some _ \<Rightarrow> Waits)"

definition pthread_mutex_unlock :: "nat \<Rightarrow> mutex \<Rightarrow> mutex pthread" where
  "pthread_mutex_unlock t m = (if m = Some t then Done None else Undefined)"

record rwlock =
  w_holder :: "nat option"
  r_holders :: "nat list"

definition pthread_rwlock_rdlock :: "nat \<Rightarrow> rwlock \<Rightarrow> rwlock pthread" where
  "pthread_rwlock_rdlock t m =
     (if w_holder m = Some t then Fails EDEADLK m
      else if w_holder m = None then Done (m\<lparr>r_holders := t # r_holders m\<rparr>) else Waits)"

definition pthread_rwlock_wrlock :: "nat \<Rightarrow> rwlock \<Rightarrow> rwlock pthread" where
  "pthread_rwlock_wrlock t m =
     (if w_holder m = Some t then Fails EDEADLK m
      else if w_holder m = None \<and> r_holders m = [] then Done (m\<lparr>w_holder := Some t\<rparr>) else Waits)"

definition pthread_rwlock_unlock :: "nat \<Rightarrow> rwlock \<Rightarrow> rwlock pthread" where
  "pthread_rwlock_unlock t m =
     (if w_holder m = Some t then Done (m\<lparr>w_holder := None\<rparr>)
      else if t \<in> set (r_holders m) then Done (m\<lparr>r_holders := remove1 t (r_holders m)\<rparr>) else Undefined)"

section \<open>The mutex classes\<close>

text \<open>\<open>Mutex\<close> insists on the result 0; \<open>RWMutex\<close> does not look at it.  \<open>None\<close>: the thread waits.\<close>

definition insisting :: "string \<Rightarrow> 'm pthread \<Rightarrow> (exn + 'm) option" where
  "insisting msg r = (case r of Waits \<Rightarrow> None | Fails e m \<Rightarrow> Some (Inl (AssertFail msg)) | Done m \<Rightarrow> Some (Inr m)
     | Undefined \<Rightarrow> Some (Inl (UndefinedBehaviour msg)))"

definition ignoring :: "string \<Rightarrow> 'm pthread \<Rightarrow> (exn + 'm) option" where
  "ignoring msg r = (case r of Waits \<Rightarrow> None | Fails e m \<Rightarrow> Some (Inr m) | Done m \<Rightarrow> Some (Inr m)
     | Undefined \<Rightarrow> Some (Inl (UndefinedBehaviour msg)))"

definition Mutex_lock :: "nat \<Rightarrow> mutex \<Rightarrow> (exn + mutex) option" where
  "Mutex_lock t m = insisting ''lock error'' (pthread_mutex_lock t m)"

definition Mutex_unlock :: "nat \<Rightarrow> mutex \<Rightarrow> (exn + mutex) option" where
  "Mutex_unlock t m = insisting ''unlock error'' (pthread_mutex_unlock t m)"

definition RWMutex_rdlock :: "nat \<Rightarrow> rwlock \<Rightarrow> (exn + rwlock) option" where
  "RWMutex_rdlock t m = ignoring ''rdlock'' (pthread_rwlock_rdlock t m)"

definition RWMutex_wrlock :: "nat \<Rightarrow> rwlock \<Rightarrow> (exn + rwlock) option" where
  "RWMutex_wrlock t m = ignoring ''wrlock'' (pthread_rwlock_wrlock t m)"

definition RWMutex_unlock :: "nat \<Rightarrow> rwlock \<Rightarrow> (exn + rwlock) option" where
  "RWMutex_unlock t m = ignoring ''unlock'' (pthread_rwlock_unlock t m)"

section \<open>The guards\<close>

text \<open>A guard's operations, over the mutex and \<open>isLocked_\<close>; \<open>with_lock\<close> runs a call of the mutex.\<close>

definition with_lock :: "(exn + 'm) option \<Rightarrow> bool \<Rightarrow> (exn + ('m \<times> bool)) option" where
  "with_lock r isLocked = map_option (\<lambda>r. bindE r (\<lambda>m. Inr (m, isLocked))) r"

definition ScopedLock_new :: "nat \<Rightarrow> mutex \<Rightarrow> (exn + (mutex \<times> bool)) option" where
  "ScopedLock_new t m = with_lock (Mutex_lock t m) True"

definition ScopedLock_lock :: "nat \<Rightarrow> mutex \<times> bool \<Rightarrow> (exn + (mutex \<times> bool)) option" where
  "ScopedLock_lock t g = (if \<not> snd g then with_lock (Mutex_lock t (fst g)) True else Some (Inr g))"

definition ScopedLock_unlock :: "nat \<Rightarrow> mutex \<times> bool \<Rightarrow> (exn + (mutex \<times> bool)) option" where
  "ScopedLock_unlock t g = (if snd g then with_lock (Mutex_unlock t (fst g)) False else Some (Inr g))"

definition ScopedLock_delete :: "nat \<Rightarrow> mutex \<times> bool \<Rightarrow> (exn + (mutex \<times> bool)) option" where
  "ScopedLock_delete t g = ScopedLock_unlock t g"

definition ReadScopedLock_new :: "nat \<Rightarrow> rwlock \<Rightarrow> (exn + (rwlock \<times> bool)) option" where
  "ReadScopedLock_new t m = with_lock (RWMutex_rdlock t m) True"

definition ReadScopedLock_lock :: "nat \<Rightarrow> rwlock \<times> bool \<Rightarrow> (exn + (rwlock \<times> bool)) option" where
  "ReadScopedLock_lock t g = (if \<not> snd g then with_lock (RWMutex_rdlock t (fst g)) True else Some (Inr g))"

definition ReadScopedLock_unlock :: "nat \<Rightarrow> rwlock \<times> bool \<Rightarrow> (exn + (rwlock \<times> bool)) option" where
  "ReadScopedLock_unlock t g = (if snd g then with_lock (RWMutex_unlock t (fst g)) False else Some (Inr g))"

definition ReadScopedLock_delete :: "nat \<Rightarrow> rwlock \<times> bool \<Rightarrow> (exn + (rwlock \<times> bool)) option" where
  "ReadScopedLock_delete t g = ReadScopedLock_unlock t g"

definition WriteScopedLock_new :: "nat \<Rightarrow> rwlock \<Rightarrow> (exn + (rwlock \<times> bool)) option" where
  "WriteScopedLock_new t m = with_lock (RWMutex_wrlock t m) True"

definition WriteScopedLock_lock :: "nat \<Rightarrow> rwlock \<times> bool \<Rightarrow> (exn + (rwlock \<times> bool)) option" where
  "WriteScopedLock_lock t g = (if \<not> snd g then with_lock (RWMutex_wrlock t (fst g)) True else Some (Inr g))"

definition WriteScopedLock_unlock :: "nat \<Rightarrow> rwlock \<times> bool \<Rightarrow> (exn + (rwlock \<times> bool)) option" where
  "WriteScopedLock_unlock t g = (if snd g then with_lock (RWMutex_unlock t (fst g)) False else Some (Inr g))"

definition WriteScopedLock_delete :: "nat \<Rightarrow> rwlock \<times> bool \<Rightarrow> (exn + (rwlock \<times> bool)) option" where
  "WriteScopedLock_delete t g = WriteScopedLock_unlock t g"

section \<open>Guards of one mutex in a program\<close>

text \<open>
  Guards live on the stack of the thread that creates them; \<open>is_locked\<close> is \<open>isLocked_\<close>.  An operation on a guard that
  does not exist, or that belongs to another thread, is not part of a program.
\<close>

record guard =
  owner :: nat
  for_write :: bool
  is_locked :: bool

record guarded =
  lock_state :: rwlock
  guards :: "nat \<rightharpoonup> guard"

definition guarded_new :: guarded where
  "guarded_new = \<lparr>lock_state = \<lparr>w_holder = None, r_holders = []\<rparr>, guards = Map.empty\<rparr>"

datatype guard_op = NewGuard nat nat bool | LockGuard nat | UnlockGuard nat | DeleteGuard nat

definition on_guard :: "(nat \<Rightarrow> rwlock \<times> bool \<Rightarrow> (exn + (rwlock \<times> bool)) option) \<Rightarrow>
    (nat \<Rightarrow> rwlock \<times> bool \<Rightarrow> (exn + (rwlock \<times> bool)) option) \<Rightarrow> nat \<Rightarrow> guarded \<Rightarrow> (exn + guarded) option" where
  "on_guard r w i s = (case guards s i of None \<Rightarrow> None | Some g \<Rightarrow>
     map_option (\<lambda>x. bindE x (\<lambda>(m, l). Inr (s\<lparr>lock_state := m, guards := (guards s)(i \<mapsto> g\<lparr>is_locked := l\<rparr>)\<rparr>)))
       ((if for_write g then w else r) (owner g) (lock_state s, is_locked g)))"

fun guard_step :: "guard_op \<Rightarrow> guarded \<Rightarrow> (exn + guarded) option" where
  "guard_step (NewGuard i t write) s = (if guards s i \<noteq> None then None else
     map_option (\<lambda>x. bindE x (\<lambda>(m, l). Inr (s\<lparr>lock_state := m,
         guards := (guards s)(i \<mapsto> \<lparr>owner = t, for_write = write, is_locked = l\<rparr>)\<rparr>)))
       ((if write then WriteScopedLock_new else ReadScopedLock_new) t (lock_state s)))"
| "guard_step (LockGuard i) s = on_guard ReadScopedLock_lock WriteScopedLock_lock i s"
| "guard_step (UnlockGuard i) s = on_guard ReadScopedLock_unlock WriteScopedLock_unlock i s"
| "guard_step (DeleteGuard i) s =
     map_option (\<lambda>x. bindE x (\<lambda>s. Inr (s\<lparr>guards := (guards s)(i := None)\<rparr>)))
       (on_guard ReadScopedLock_delete WriteScopedLock_delete i s)"

text \<open>What a program has to observe: a thread that holds the mutex for writing takes no further guard of it.\<close>

fun no_relock :: "guard_op \<Rightarrow> guarded \<Rightarrow> bool" where
  "no_relock (NewGuard i t write) s \<longleftrightarrow> w_holder (lock_state s) \<noteq> Some t"
| "no_relock (LockGuard i) s \<longleftrightarrow>
     (\<forall>g. guards s i = Some g \<longrightarrow> \<not> is_locked g \<longrightarrow> w_holder (lock_state s) \<noteq> Some (owner g))"
| "no_relock _ s \<longleftrightarrow> True"

inductive observed :: "guarded \<Rightarrow> bool" where
  start: "observed guarded_new"
| step: "observed s \<Longrightarrow> no_relock x s \<Longrightarrow> guard_step x s = Some (Inr s') \<Longrightarrow> observed s'"

section \<open>What a guard says of its mutex is so\<close>

definition locked :: "guarded \<Rightarrow> nat \<rightharpoonup> nat \<times> bool" where
  "locked s i = (case guards s i of None \<Rightarrow> None
     | Some g \<Rightarrow> if is_locked g then Some (owner g, for_write g) else None)"

definition lock_agrees :: "rwlock \<Rightarrow> (nat \<rightharpoonup> nat \<times> bool) \<Rightarrow> bool" where
  "lock_agrees m L \<longleftrightarrow> finite (dom L) \<and> (\<forall>t. count_list (r_holders m) t = card {i. L i = Some (t, False)}) \<and>
     (w_holder m = None \<longrightarrow> (\<forall>i t. L i \<noteq> Some (t, True))) \<and>
     (\<forall>t. w_holder m = Some t \<longrightarrow> r_holders m = [] \<and> (\<exists>i. L = [i \<mapsto> (t, True)]))"

lemma readers_finite: "finite (dom L) \<Longrightarrow> finite {i. L i = Some (t, False)}"
  by (rule finite_subset [of _ "dom L"]) auto

lemma agrees_new: "lock_agrees \<lparr>w_holder = None, r_holders = []\<rparr> Map.empty"
  by (simp add: lock_agrees_def)

lemma agrees_read:
  assumes "lock_agrees m L" "L i = None" "w_holder m = None"
  shows "lock_agrees (m\<lparr>r_holders := t # r_holders m\<rparr>) (L(i \<mapsto> (t, False)))"
proof -
  have "{j. (L(i \<mapsto> (t, False))) j = Some (u, False)} =
      (if u = t then insert i {j. L j = Some (u, False)} else {j. L j = Some (u, False)})" for u
    using assms(2) by auto
  moreover have "i \<notin> {j. L j = Some (u, False)}" for u using assms(2) by simp
  ultimately show ?thesis
    using assms readers_finite [of L] by (auto simp: lock_agrees_def simp del: fun_upd_apply) (auto split: if_splits)
qed

lemma agrees_unread:
  assumes "lock_agrees m L" "L i = Some (t, False)"
  shows "w_holder m = None \<and> t \<in> set (r_holders m) \<and>
    lock_agrees (m\<lparr>r_holders := remove1 t (r_holders m)\<rparr>) (L(i := None))"
proof -
  have w: "w_holder m = None" using assms by (cases "w_holder m") (auto simp: lock_agrees_def split: if_splits)
  have fin: "finite {j. L j = Some (u, False)}" for u using assms(1) by (intro readers_finite) (simp add: lock_agrees_def)
  have "0 < card {j. L j = Some (t, False)}" using fin assms(2) by (auto simp: card_gt_0_iff)
  then have t: "t \<in> set (r_holders m)" using assms(1) by (metis count_list_0_iff lock_agrees_def not_less_zero)
  have "{j. (L(i := None)) j = Some (u, False)} = {j. L j = Some (u, False)} - (if u = t then {i} else {})" for u
    using assms(2) by auto
  moreover have "count_list (remove1 t xs) u = count_list xs u - (if u = t then 1 else 0)" for u and xs :: "nat list"
    by (induction xs) (auto simp: count_list_0_iff)
  ultimately show ?thesis
    using assms w t fin by (auto simp: lock_agrees_def simp del: fun_upd_apply) (auto split: if_splits)
qed

lemma agrees_write:
  assumes "lock_agrees m L" "w_holder m = None" "r_holders m = []"
  shows "L = Map.empty \<and> lock_agrees (m\<lparr>w_holder := Some t\<rparr>) [i \<mapsto> (t, True)]"
proof -
  have none: "{i. L i = Some (t, False)} = {}" for t
  proof -
    have "card {i. L i = Some (t, False)} = 0" using assms by (auto simp: lock_agrees_def)
    moreover have "finite {i. L i = Some (t, False)}" using assms(1) by (intro readers_finite) (simp add: lock_agrees_def)
    ultimately show ?thesis by simp
  qed
  have "L i = None" for i
  proof (cases "L i")
    case (Some x)
    then show ?thesis using none [of "fst x"] assms(1,2) by (cases x; cases "snd x") (auto simp: lock_agrees_def)
  qed simp
  moreover have "{j. [i \<mapsto> (t, True)] j = Some (u, False)} = {}" for u by (auto split: if_splits)
  ultimately show ?thesis using assms(3) by (auto simp: lock_agrees_def)
qed

lemma agrees_unwrite:
  assumes "lock_agrees m L" "L i = Some (t, True)"
  shows "w_holder m = Some t \<and> L = [i \<mapsto> (t, True)] \<and> lock_agrees (m\<lparr>w_holder := None\<rparr>) Map.empty"
proof -
  obtain u where u: "w_holder m = Some u" using assms by (cases "w_holder m") (auto simp: lock_agrees_def)
  then obtain j where "r_holders m = []" "L = [j \<mapsto> (u, True)]" using assms(1) by (auto simp: lock_agrees_def)
  moreover from this have "j = i" "u = t" using assms(2) by (auto split: if_splits)
  ultimately show ?thesis using u by (simp add: lock_agrees_def)
qed

lemma locked_simps [simp]:
  "locked (s\<lparr>lock_state := m, guards := (guards s)(i \<mapsto> g)\<rparr>) = (locked s)(i := if is_locked g then Some (owner g, for_write g) else None)"
  "locked (s\<lparr>guards := (guards s)(i \<mapsto> g)\<rparr>) = (locked s)(i := if is_locked g then Some (owner g, for_write g) else None)"
  "locked (s\<lparr>guards := (guards s)(i := None)\<rparr>) = (locked s)(i := None)"
  by (auto simp: locked_def fun_eq_iff)

lemmas guard_ops = ReadScopedLock_new_def ReadScopedLock_lock_def ReadScopedLock_unlock_def ReadScopedLock_delete_def
  WriteScopedLock_new_def WriteScopedLock_lock_def WriteScopedLock_unlock_def WriteScopedLock_delete_def

lemmas rw_ops = with_lock_def RWMutex_rdlock_def RWMutex_wrlock_def RWMutex_unlock_def ignoring_def
  pthread_rwlock_rdlock_def pthread_rwlock_wrlock_def pthread_rwlock_unlock_def

text \<open>A guard that gets its mutex, and one that gives it back, which never has to wait.\<close>

lemma acquire:
  assumes "lock_agrees m L" "L i = None" "w_holder m \<noteq> Some t"
    "(if w then WriteScopedLock_new else ReadScopedLock_new) t m = Some r"
  shows "\<exists>m'. r = Inr (m', True) \<and> lock_agrees m' (L(i \<mapsto> (t, w)))"
proof (cases w)
  case True
  then show ?thesis
    using agrees_write [OF assms(1)] assms(3,4) by (auto simp: guard_ops rw_ops split: if_splits)
next
  case False
  then show ?thesis
    using agrees_read [OF assms(1,2)] assms(3,4) by (auto simp: guard_ops rw_ops split: if_splits)
qed

lemma release:
  assumes "lock_agrees m L" "L i = Some (t, w)"
  shows "\<exists>m'. (if w then WriteScopedLock_unlock else ReadScopedLock_unlock) t (m, True) = Some (Inr (m', False)) \<and>
    lock_agrees m' (L(i := None))"
proof (cases w)
  case True
  then have "L(i := None) = Map.empty" using agrees_unwrite [OF assms(1), of i t] assms(2) by auto
  then show ?thesis
    using True agrees_unwrite [OF assms(1), of i t] assms(2) by (auto simp: guard_ops rw_ops)
next
  case False
  then show ?thesis using agrees_unread [OF assms(1), of i t] assms(2) by (auto simp: guard_ops rw_ops)
qed

lemma unlock_guard:
  assumes "lock_agrees (lock_state s) (locked s)" "guards s i = Some g"
  shows "\<exists>m'. on_guard ReadScopedLock_unlock WriteScopedLock_unlock i s =
      Some (Inr (s\<lparr>lock_state := m', guards := (guards s)(i \<mapsto> g\<lparr>is_locked := False\<rparr>)\<rparr>)) \<and>
    lock_agrees m' ((locked s)(i := None))"
proof (cases "is_locked g")
  case True
  then have "locked s i = Some (owner g, for_write g)" using assms(2) by (simp add: locked_def)
  then obtain m' where "(if for_write g then WriteScopedLock_unlock else ReadScopedLock_unlock) (owner g) (lock_state s, True) =
      Some (Inr (m', False))" "lock_agrees m' ((locked s)(i := None))" using release [OF assms(1)] by blast
  then show ?thesis using True assms(2) by (auto simp: on_guard_def)
next
  case False
  then have "locked s i = None" using assms(2) by (simp add: locked_def)
  then have "(locked s)(i := None) = locked s" by auto
  then show ?thesis
    using False assms by (cases "for_write g") (auto simp: on_guard_def guard_ops intro!: exI [of _ "lock_state s"])
qed

lemma delete_is_unlock: "ReadScopedLock_delete = ReadScopedLock_unlock" "WriteScopedLock_delete = WriteScopedLock_unlock"
  by (simp_all add: fun_eq_iff ReadScopedLock_delete_def WriteScopedLock_delete_def)

lemma guard_step_agrees:
  assumes "lock_agrees (lock_state s) (locked s)" "no_relock x s" "guard_step x s = Some r"
  shows "\<exists>s'. r = Inr s' \<and> lock_agrees (lock_state s') (locked s')"
proof (cases x)
  case (NewGuard i t w)
  then have free: "locked s i = None" using assms(3) by (auto simp: locked_def split: if_splits)
  obtain q where q: "(if w then WriteScopedLock_new else ReadScopedLock_new) t (lock_state s) = Some q"
    using assms(3) NewGuard by (auto split: if_splits)
  obtain m' where "q = Inr (m', True)" "lock_agrees m' ((locked s)(i \<mapsto> (t, w)))"
    using acquire [OF assms(1) free _ q] assms(2) NewGuard by auto
  then show ?thesis using assms(3) NewGuard q by (auto split: if_splits)
next
  case (LockGuard i)
  then obtain g where g: "guards s i = Some g" using assms(3) by (auto simp: on_guard_def split: option.splits)
  show ?thesis
  proof (cases "is_locked g")
    case True
    then have "r = Inr (s\<lparr>lock_state := lock_state s, guards := (guards s)(i \<mapsto> g\<lparr>is_locked := True\<rparr>)\<rparr>)"
      using assms(3) LockGuard g by (cases "for_write g") (auto simp: on_guard_def guard_ops)
    moreover have "(locked s)(i \<mapsto> (owner g, for_write g)) = locked s" using True g by (auto simp: locked_def fun_eq_iff)
    ultimately show ?thesis using assms(1) by (simp del: fun_upd_apply)
  next
    case False
    then have free: "locked s i = None" using g by (simp add: locked_def)
    obtain q where q: "(if for_write g then WriteScopedLock_new else ReadScopedLock_new) (owner g) (lock_state s) = Some q"
      using assms(3) LockGuard g False by (auto simp: on_guard_def guard_ops split: if_splits)
    obtain m' where "q = Inr (m', True)" "lock_agrees m' ((locked s)(i \<mapsto> (owner g, for_write g)))"
      using acquire [OF assms(1) free _ q] assms(2) LockGuard g False by auto
    then show ?thesis using assms(3) LockGuard g False q by (auto simp: on_guard_def guard_ops split: if_splits)
  qed
next
  case (UnlockGuard i)
  then obtain g where g: "guards s i = Some g" using assms(3) by (auto simp: on_guard_def split: option.splits)
  obtain m' where "on_guard ReadScopedLock_unlock WriteScopedLock_unlock i s =
      Some (Inr (s\<lparr>lock_state := m', guards := (guards s)(i \<mapsto> g\<lparr>is_locked := False\<rparr>)\<rparr>))"
    "lock_agrees m' ((locked s)(i := None))" using unlock_guard [OF assms(1) g] by blast
  then show ?thesis using assms(3) UnlockGuard by auto
next
  case (DeleteGuard i)
  then obtain g where g: "guards s i = Some g" using assms(3) by (auto simp: on_guard_def split: option.splits)
  obtain m' where "on_guard ReadScopedLock_unlock WriteScopedLock_unlock i s =
      Some (Inr (s\<lparr>lock_state := m', guards := (guards s)(i \<mapsto> g\<lparr>is_locked := False\<rparr>)\<rparr>))"
    "lock_agrees m' ((locked s)(i := None))" using unlock_guard [OF assms(1) g] by blast
  moreover have "locked (s\<lparr>lock_state := m', guards := (guards s)(i := None)\<rparr>) = (locked s)(i := None)"
    by (auto simp: locked_def fun_eq_iff)
  ultimately show ?thesis using assms(3) DeleteGuard by (auto simp: delete_is_unlock)
qed

lemma observed_agrees: "observed s \<Longrightarrow> lock_agrees (lock_state s) (locked s)"
proof (induction rule: observed.induct)
  case start
  have "locked guarded_new = Map.empty" by (simp add: fun_eq_iff locked_def guarded_new_def)
  then show ?case using agrees_new by (simp add: guarded_new_def)
next
  case (step s x s')
  then show ?case using guard_step_agrees by blast
qed

section \<open>Properties\<close>

text \<open>
  C27: in a program in which no thread takes a further guard of a mutex it holds for writing, a guard is locked exactly
  when its thread holds the mutex: a locked write guard is the only locked guard, a locked read guard is one of its
  thread's shared holds, and when no guard is locked the mutex is free.  No operation of a guard goes wrong, and
  unlocking and destroying never wait.
\<close>

theorem guards_hold_their_lock:
  assumes "observed s"
  shows "(\<forall>i g. guards s i = Some g \<and> is_locked g \<longrightarrow>
      (if for_write g then w_holder (lock_state s) = Some (owner g) \<and>
          (\<forall>j h. guards s j = Some h \<and> is_locked h \<longrightarrow> j = i)
       else w_holder (lock_state s) = None \<and> owner g \<in> set (r_holders (lock_state s)))) \<and>
    ((\<forall>i g. guards s i = Some g \<longrightarrow> \<not> is_locked g) \<longrightarrow> lock_state s = \<lparr>w_holder = None, r_holders = []\<rparr>) \<and>
    (\<forall>x e. no_relock x s \<longrightarrow> guard_step x s \<noteq> Some (Inl e)) \<and>
    (\<forall>i. guards s i \<noteq> None \<longrightarrow> guard_step (UnlockGuard i) s \<noteq> None \<and> guard_step (DeleteGuard i) s \<noteq> None)"
proof -
  note agrees = observed_agrees [OF assms]
  have "w_holder (lock_state s) = Some (owner g) \<and> (\<forall>j h. guards s j = Some h \<and> is_locked h \<longrightarrow> j = i)"
    if "guards s i = Some g" "is_locked g" "for_write g" for i g
  proof -
    have i: "locked s i = Some (owner g, True)" using that by (simp add: locked_def)
    have "j = i" if "guards s j = Some h" "is_locked h" for j h
    proof -
      have "locked s j \<noteq> None" using that by (simp add: locked_def)
      moreover have "locked s = [i \<mapsto> (owner g, True)]" using agrees_unwrite [OF agrees i] by blast
      ultimately show ?thesis by (auto split: if_splits)
    qed
    then show ?thesis using agrees_unwrite [OF agrees i] by blast
  qed
  moreover have "w_holder (lock_state s) = None \<and> owner g \<in> set (r_holders (lock_state s))"
    if "guards s i = Some g" "is_locked g" "\<not> for_write g" for i g
    using agrees_unread [OF agrees, of i "owner g"] that by (simp add: locked_def)
  moreover have "lock_state s = \<lparr>w_holder = None, r_holders = []\<rparr>" if "\<forall>i g. guards s i = Some g \<longrightarrow> \<not> is_locked g"
  proof -
    have L: "locked s = Map.empty" using that by (auto simp: locked_def fun_eq_iff split: option.splits)
    have "w_holder (lock_state s) = None" using agrees unfolding lock_agrees_def L
      by (cases "w_holder (lock_state s)") (auto simp: map_upd_nonempty [THEN not_sym])
    moreover have "count_list (r_holders (lock_state s)) t = 0" for t using agrees unfolding lock_agrees_def L by simp
    then have "r_holders (lock_state s) = []" by (metis count_list_0_iff list.set_intros(1) neq_Nil_conv)
    ultimately show ?thesis by (cases "lock_state s") simp
  qed
  moreover have "guard_step x s \<noteq> Some (Inl e)" if "no_relock x s" for x e
    using guard_step_agrees [OF agrees that] by blast
  moreover have "guard_step (UnlockGuard i) s \<noteq> None \<and> guard_step (DeleteGuard i) s \<noteq> None" if "guards s i \<noteq> None" for i
    using that unlock_guard [OF agrees, of i] by (auto simp: delete_is_unlock)
  ultimately show ?thesis by auto
qed

text \<open>Two readers and a writer that waits for them.\<close>

definition two_readers :: guarded where
  "two_readers = \<lparr>lock_state = \<lparr>w_holder = None, r_holders = [2, 1]\<rparr>,
     guards = [0 \<mapsto> \<lparr>owner = 1, for_write = False, is_locked = True\<rparr>, 1 \<mapsto> \<lparr>owner = 2, for_write = False, is_locked = True\<rparr>]\<rparr>"

lemma two_readers_observed: "observed two_readers"
proof -
  let ?s = "\<lparr>lock_state = \<lparr>w_holder = None, r_holders = [1]\<rparr>, guards = [0 \<mapsto> \<lparr>owner = 1, for_write = False, is_locked = True\<rparr>]\<rparr>"
  have "observed ?s"
    by (rule observed.step [OF observed.start, of "NewGuard 0 1 False"]) (simp_all add: guarded_new_def guard_ops rw_ops)
  then show ?thesis
    by (rule observed.step [of _ "NewGuard 1 2 False"]) (simp_all add: two_readers_def guard_ops rw_ops)
qed

theorem guards_hold_their_lock_witness:
  "w_holder (lock_state two_readers) = None \<and> 1 \<in> set (r_holders (lock_state two_readers)) \<and>
    guard_step (NewGuard 2 3 True) two_readers = None \<and> guard_step (UnlockGuard 0) two_readers \<noteq> None"
proof -
  note p = guards_hold_their_lock [OF two_readers_observed]
  have g: "guards two_readers 0 = Some \<lparr>owner = 1, for_write = False, is_locked = True\<rparr>" by (simp add: two_readers_def)
  have "w_holder (lock_state two_readers) = None \<and> 1 \<in> set (r_holders (lock_state two_readers))"
    using p [THEN conjunct1, rule_format, of 0 "\<lparr>owner = 1, for_write = False, is_locked = True\<rparr>"] g by simp
  moreover have "guard_step (UnlockGuard 0) two_readers \<noteq> None"
    using p [THEN conjunct2, THEN conjunct2, THEN conjunct2, rule_format, of 0] g by (simp del: guard_step.simps)
  moreover have "guard_step (NewGuard 2 3 True) two_readers = None" by (simp add: two_readers_def guard_ops rw_ops)
  ultimately show ?thesis by blast
qed

text \<open>
  C36: \<open>RWMutex\<close> does not look at what the pthread calls return.  When a thread that holds it for writing creates a
  second guard of it, the call fails with \<open>EDEADLK\<close>, the guard counts itself locked all the same, and its end unlocks
  the mutex under the first guard: another thread gets in for writing while the first guard still says that it is
  locked, and if no one does the end of the first guard is undefined.
\<close>

theorem nested_guard_loses_lock:
  assumes "observed s" "guards s i = Some g" "for_write g" "is_locked g" "guards s j = None" "t \<noteq> owner g"
  shows "\<exists>s1 s2 s3. guard_step (NewGuard j (owner g) w) s = Some (Inr s1) \<and> guard_step (DeleteGuard j) s1 = Some (Inr s2) \<and>
    guards s2 = guards s \<and> guard_step (DeleteGuard i) s2 = Some (Inl (UndefinedBehaviour ''unlock'')) \<and>
    guard_step (NewGuard j t True) s2 = Some (Inr s3) \<and>
    guards s3 i = Some g \<and> guards s3 j = Some \<lparr>owner = t, for_write = True, is_locked = True\<rparr>"
proof -
  have ij: "i \<noteq> j" using assms(2,5) by auto
  have "locked s i = Some (owner g, True)" using assms(2-4) by (simp add: locked_def)
  then have w: "w_holder (lock_state s) = Some (owner g)"
    using agrees_unwrite [OF observed_agrees [OF assms(1)]] by blast
  then have r: "r_holders (lock_state s) = []" using observed_agrees [OF assms(1)] by (simp add: lock_agrees_def)
  let ?h = "\<lparr>owner = owner g, for_write = w, is_locked = True\<rparr>"
  define s1 where "s1 = s\<lparr>guards := (guards s)(j \<mapsto> ?h)\<rparr>"
  define s2 where "s2 = s\<lparr>lock_state := \<lparr>w_holder = None, r_holders = []\<rparr>\<rparr>"
  define s3 where "s3 = s2\<lparr>lock_state := \<lparr>w_holder = Some t, r_holders = []\<rparr>,
    guards := (guards s)(j \<mapsto> \<lparr>owner = t, for_write = True, is_locked = True\<rparr>)\<rparr>"
  have free: "(guards s)(j := None) = guards s" using assms(5) by auto
  have "guard_step (NewGuard j (owner g) w) s = Some (Inr s1)"
    using assms(5) w by (simp add: guard_ops rw_ops s1_def)
  moreover have "guard_step (DeleteGuard j) s1 = Some (Inr s2)"
    using w r free by (simp add: on_guard_def guard_ops rw_ops s1_def s2_def)
  moreover have "guard_step (DeleteGuard i) s2 = Some (Inl (UndefinedBehaviour ''unlock''))"
    using assms(2-4) by (simp add: on_guard_def guard_ops rw_ops s2_def)
  moreover have "guard_step (NewGuard j t True) s2 = Some (Inr s3)"
    using assms(5) by (simp add: guard_ops rw_ops s2_def s3_def)
  moreover have "guards s2 = guards s" "guards s3 i = Some g" "guards s3 j = Some \<lparr>owner = t, for_write = True, is_locked = True\<rparr>"
    using assms(2) ij by (simp_all add: s2_def s3_def)
  ultimately show ?thesis by blast
qed

definition one_writer :: guarded where
  "one_writer = \<lparr>lock_state = \<lparr>w_holder = Some 1, r_holders = []\<rparr>, guards = [0 \<mapsto> \<lparr>owner = 1, for_write = True, is_locked = True\<rparr>]\<rparr>"

lemma one_writer_observed: "observed one_writer"
  by (rule observed.step [OF observed.start, of "NewGuard 0 1 True"])
    (simp_all add: guarded_new_def guard_ops rw_ops one_writer_def)

theorem nested_guard_loses_lock_witness:
  "\<exists>s1 s2 s3. guard_step (NewGuard 1 1 False) one_writer = Some (Inr s1) \<and> guard_step (DeleteGuard 1) s1 = Some (Inr s2) \<and>
    guard_step (NewGuard 1 2 True) s2 = Some (Inr s3) \<and> guards s3 0 = Some \<lparr>owner = 1, for_write = True, is_locked = True\<rparr> \<and>
    guards s3 1 = Some \<lparr>owner = 2, for_write = True, is_locked = True\<rparr>"
proof -
  have "guards one_writer 0 = Some \<lparr>owner = 1, for_write = True, is_locked = True\<rparr>" "guards one_writer 1 = None"
    by (simp_all add: one_writer_def)
  from nested_guard_loses_lock [OF one_writer_observed this(1) _ _ this(2), of 2 False] show ?thesis
    by (auto simp del: guard_step.simps)
qed

text \<open>A guard of a \<open>Mutex\<close>: its thread gets the mutex or waits, holds it while the guard is locked, and gives it back.\<close>

lemma scoped_lock_cycle:
  "ScopedLock_new t m = (if m = None then Some (Inr (Some t, True)) else None)"
  "ScopedLock_lock t (Some t, True) = Some (Inr (Some t, True))"
  "ScopedLock_unlock t (Some t, True) = Some (Inr (None, False))"
  "ScopedLock_unlock t (m, False) = Some (Inr (m, False))"
  "ScopedLock_lock t (m, False) = ScopedLock_new t m"
  by (auto simp: ScopedLock_new_def ScopedLock_lock_def ScopedLock_unlock_def with_lock_def Mutex_lock_def
      Mutex_unlock_def insisting_def pthread_mutex_lock_def pthread_mutex_unlock_def split: option.split)

end
