(* ===== verification/Timer.thy ===== *)
theory Timer
  imports KV_Prelude
begin

text \<open>
  The timers of \<open>fiber/timer.cpp\<close>.  A timer is an object on a heap, named by its address; the manager keeps the
  addresses in a \<open>std::set\<close> ordered by the time of the next run and, for equal times, by address, here the list
  of its elements in that order.  Times are 64-bit words (milliseconds since the machine started) and
  wrap around.  The clock is an argument, read once per operation, as is the address of a new object.
\<close>

datatype 'c callback = Call 'c | OnTimer nat 'c

record 'c timer =
  t_recurring :: bool
  t_ms :: "64 word"
  t_next :: "64 word"
  t_cb :: "'c callback option"

record 'c timers =
  timer_heap :: "nat \<Rightarrow> 'c timer option"
  tm_set :: "nat list"
  tm_tickled :: bool
  tm_previouseTime :: "64 word"

definition TimerManager_new :: "64 word \<Rightarrow> 'c timers" where
  "TimerManager_new now = \<lparr>timer_heap = (\<lambda>_. None), tm_set = [], tm_tickled = False, tm_previouseTime = now\<rparr>"

text \<open>\<open>OnTimer\<close>: the callback of a condition timer runs only while its condition object is alive.\<close>

fun run_callback :: "(nat \<Rightarrow> bool) \<Rightarrow> 'c callback \<Rightarrow> 'c option" where
  "run_callback alive (Call c) = Some c"
| "run_callback alive (OnTimer weak_cond c) = (if alive weak_cond then Some c else None)"

section \<open>The set\<close>

definition timer_at :: "'c timers \<Rightarrow> nat \<Rightarrow> 'c timer" where
  "timer_at s p = the (timer_heap s p)"

definition next_at :: "'c timers \<Rightarrow> nat \<Rightarrow> 64 word" where
  "next_at s p = t_next (timer_at s p)"

text \<open>\<open>Comparator\<close>, on a time and an address; no null pointer is ever put into the set.\<close>

definition timer_less :: "64 word \<times> nat \<Rightarrow> 64 word \<times> nat \<Rightarrow> bool" where
  "timer_less a b \<longleftrightarrow> fst a < fst b \<or> (\<not> fst b < fst a \<and> snd a < snd b)"

definition less_at :: "'c timers \<Rightarrow> nat \<Rightarrow> nat \<Rightarrow> bool" where
  "less_at s p q \<longleftrightarrow> timer_less (next_at s p, p) (next_at s q, q)"

fun set_insert :: "'c timers \<Rightarrow> nat \<Rightarrow> nat list \<Rightarrow> nat list" where
  "set_insert s p [] = [p]"
| "set_insert s p (q # l) =
     (if less_at s p q then p # q # l else if less_at s q p then q # set_insert s p l else q # l)"

definition set_find :: "'c timers \<Rightarrow> nat \<Rightarrow> nat list \<Rightarrow> nat option" where
  "set_find s p l = (case dropWhile (\<lambda>q. less_at s q p) l of
       [] \<Rightarrow> None | q # _ \<Rightarrow> if less_at s p q then None else Some q)"

definition upd_timer :: "nat \<Rightarrow> ('c timer \<Rightarrow> 'c timer) \<Rightarrow> 'c timers \<Rightarrow> 'c timers" where
  "upd_timer p f s = s\<lparr>timer_heap := (timer_heap s)(p \<mapsto> f (timer_at s p))\<rparr>"

definition insert_timer :: "nat \<Rightarrow> 'c timers \<Rightarrow> 'c timers" where
  "insert_timer p s = s\<lparr>tm_set := set_insert s p (tm_set s)\<rparr>"

definition erase_timer :: "nat \<Rightarrow> 'c timers \<Rightarrow> 'c timers" where
  "erase_timer p s = s\<lparr>tm_set := remove1 p (tm_set s)\<rparr>"

section \<open>Operations\<close>

text \<open>The flag in the result: \<open>OnTimerInsertedAtFront\<close> is called.\<close>

definition addTimer_locked :: "nat \<Rightarrow> 'c timers \<Rightarrow> 'c timers \<times> bool" where
  "addTimer_locked val s =
     (let s = insert_timer val s; at_front = (hd (tm_set s) = val \<and> \<not> tm_tickled s)
      in (if at_front then s\<lparr>tm_tickled := True\<rparr> else s, at_front))"

definition addTimer :: "nat \<Rightarrow> 64 word \<Rightarrow> 64 word \<Rightarrow> 'c callback \<Rightarrow> bool \<Rightarrow> 'c timers \<Rightarrow> 'c timers \<times> bool" where
  "addTimer p now ms cb recurring s =
     addTimer_locked p (s\<lparr>timer_heap := (timer_heap s)(p \<mapsto>
       \<lparr>t_recurring = recurring, t_ms = ms, t_next = now + ms, t_cb = Some cb\<rparr>)\<rparr>)"

definition addConditionTimer :: "nat \<Rightarrow> 64 word \<Rightarrow> 64 word \<Rightarrow> 'c \<Rightarrow> nat \<Rightarrow> bool \<Rightarrow> 'c timers \<Rightarrow> 'c timers \<times> bool" where
  "addConditionTimer p now ms cb weak_cond recurring s = addTimer p now ms (OnTimer weak_cond cb) recurring s"

definition timer_cancel :: "nat \<Rightarrow> 'c timers \<Rightarrow> exn + ('c timers \<times> bool)" where
  "timer_cancel p s =
     (if t_cb (timer_at s p) \<noteq> None then
        let s = upd_timer p (\<lambda>t. t\<lparr>t_cb := None\<rparr>) s in
        (case set_find s p (tm_set s) of
           None \<Rightarrow> Inl (UndefinedBehaviour ''erase(end())'')
         | Some q \<Rightarrow> Inr (erase_timer q s, True))
      else Inr (s, False))"

definition timer_refresh :: "nat \<Rightarrow> 64 word \<Rightarrow> 'c timers \<Rightarrow> 'c timers \<times> bool" where
  "timer_refresh p now s =
     (if t_cb (timer_at s p) = None then (s, False)
      else case set_find s p (tm_set s) of
        None \<Rightarrow> (s, False)
      | Some q \<Rightarrow> (insert_timer p (upd_timer p (\<lambda>t. t\<lparr>t_next := now + t_ms t\<rparr>) (erase_timer q s)), True))"

definition timer_reset :: "nat \<Rightarrow> 64 word \<Rightarrow> 64 word \<Rightarrow> bool \<Rightarrow> 'c timers \<Rightarrow> 'c timers \<times> bool" where
  "timer_reset p now ms from_now s =
     (if ms = t_ms (timer_at s p) \<and> \<not> from_now then (s, True)
      else if t_cb (timer_at s p) = None then (s, True)
      else case set_find s p (tm_set s) of
        None \<Rightarrow> (s, False)
      | Some q \<Rightarrow>
          let start = (if from_now then now else next_at s p - t_ms (timer_at s p))
          in (fst (addTimer_locked p (upd_timer p (\<lambda>t. t\<lparr>t_ms := ms, t_next := start + ms\<rparr>) (erase_timer q s))), True))"

text \<open>The milliseconds to the next timer, all ones when there is none.\<close>

definition getNextTimer :: "64 word \<Rightarrow> 'c timers \<Rightarrow> 'c timers \<times> 64 word" where
  "getNextTimer now_ms s =
     (s\<lparr>tm_tickled := False\<rparr>,
      case tm_set s of [] \<Rightarrow> - 1
      | p # _ \<Rightarrow> if now_ms \<ge> next_at s p then 0 else next_at s p - now_ms)"

definition hasTimer :: "'c timers \<Rightarrow> bool" where
  "hasTimer s \<longleftrightarrow> tm_set s \<noteq> []"

definition detectClockRolllover :: "64 word \<Rightarrow> 'c timers \<Rightarrow> 'c timers \<times> bool" where
  "detectClockRolllover now_ms s =
     (s\<lparr>tm_previouseTime := now_ms\<rparr>, now_ms < tm_previouseTime s \<and> now_ms < tm_previouseTime s - 60 * 60 * 1000)"

text \<open>The loop over the timers that are due: their callbacks in order; recurring timers go back into the set.\<close>

fun rearm :: "64 word \<Rightarrow> nat list \<Rightarrow> 'c timers \<Rightarrow> 'c timers \<times> 'c callback option list" where
  "rearm now_ms [] s = (s, [])"
| "rearm now_ms (p # expired) s =
     (let cb = t_cb (timer_at s p);
        s' = (if t_recurring (timer_at s p) then insert_timer p (upd_timer p (\<lambda>t. t\<lparr>t_next := now_ms + t_ms t\<rparr>) s)
              else upd_timer p (\<lambda>t. t\<lparr>t_cb := None\<rparr>) s)
      in case rearm now_ms expired s' of (s, cbs) \<Rightarrow> (s, cb # cbs))"

text \<open>\<open>now_timer\<close> is the address of the timer made for the search.\<close>

definition listExpiredCb :: "nat \<Rightarrow> 64 word \<Rightarrow> 'c timers \<Rightarrow> 'c timers \<times> 'c callback option list" where
  "listExpiredCb now_timer now_ms s =
     (if tm_set s = [] then (s, [])
      else case detectClockRolllover now_ms s of (s, rollover) \<Rightarrow>
        if \<not> rollover \<and> next_at s (hd (tm_set s)) > now_ms then (s, [])
        else
          let below = takeWhile (\<lambda>p. timer_less (next_at s p, p) (now_ms, now_timer)) (tm_set s);
              it = (if rollover then length (tm_set s)
                    else length below + length (takeWhile (\<lambda>p. next_at s p = now_ms) (drop (length below) (tm_set s))))
          in rearm now_ms (take it (tm_set s)) (s\<lparr>tm_set := drop it (tm_set s)\<rparr>))"

section \<open>The set is ordered and holds the timers that have a callback\<close>

lemma timer_less_linear: "a \<noteq> b \<Longrightarrow> timer_less a b \<or> timer_less b a"
  by (cases a; cases b) (auto simp: timer_less_def)

lemma timer_less_trans: "timer_less a b \<Longrightarrow> timer_less b c \<Longrightarrow> timer_less a c"
  by (auto simp: timer_less_def)

lemma timer_less_irrefl [simp]: "\<not> timer_less a a"
  by (simp add: timer_less_def)

lemma timer_less_asym: "timer_less a b \<Longrightarrow> \<not> timer_less b a"
  by (auto simp: timer_less_def)

lemma less_at_irrefl [simp]: "\<not> less_at s p p"
  by (simp add: less_at_def)

lemma less_at_linear: "p \<noteq> q \<Longrightarrow> \<not> less_at s p q \<longleftrightarrow> less_at s q p"
  using timer_less_linear [of "(next_at s p, p)" "(next_at s q, q)"]
    timer_less_asym [of "(next_at s p, p)" "(next_at s q, q)"]
  by (auto simp: less_at_def)

lemma less_at_asym: "less_at s p q \<Longrightarrow> \<not> less_at s q p"
  unfolding less_at_def by (rule timer_less_asym)

lemma less_at_trans: "less_at s p q \<Longrightarrow> less_at s q r \<Longrightarrow> less_at s p r"
  unfolding less_at_def by (rule timer_less_trans)

definition set_wf :: "'c timers \<Rightarrow> nat list \<Rightarrow> bool" where
  "set_wf s l \<longleftrightarrow> sorted_wrt (less_at s) l"

lemma set_wf_Cons: "set_wf s (p # l) \<longleftrightarrow> (\<forall>q \<in> set l. less_at s p q) \<and> set_wf s l"
  by (simp add: set_wf_def)

lemma set_wf_distinct: "set_wf s l \<Longrightarrow> distinct l"
  unfolding set_wf_def by (induction l) auto

lemma set_wf_cong: "(\<And>p. p \<in> set l \<Longrightarrow> next_at t p = next_at s p) \<Longrightarrow> set_wf t l = set_wf s l"
  by (induction l) (auto simp: set_wf_Cons less_at_def set_wf_def)

lemma set_insert_set [simp]: "set (set_insert s p l) = insert p (set l)"
proof (induction s p l rule: set_insert.induct)
  case (2 s p q l)
  have "\<not> less_at s p q \<Longrightarrow> \<not> less_at s q p \<Longrightarrow> p = q" using less_at_linear by metis
  then show ?case using 2 by auto
qed auto

lemma set_insert_wf: "set_wf s l \<Longrightarrow> set_wf s (set_insert s p l)"
proof (induction s p l rule: set_insert.induct)
  case (2 s p q l)
  then show ?case by (auto simp: set_wf_Cons dest: less_at_trans)
qed (simp add: set_wf_def)

lemma set_find_mem: "set_wf s l \<Longrightarrow> set_find s p l = (if p \<in> set l then Some p else None)"
proof (induction l)
  case (Cons q l)
  consider "p = q" | "less_at s q p" | "p \<noteq> q" "less_at s p q" using less_at_linear by blast
  then show ?case
  proof cases
    case 2
    then have "set_find s p (q # l) = set_find s p l" by (simp add: set_find_def)
    moreover have "p \<noteq> q" using 2 by auto
    ultimately show ?thesis using Cons by (simp add: set_wf_Cons)
  next
    case 3
    then have "p \<notin> set l" using Cons.prems less_at_trans less_at_irrefl unfolding set_wf_Cons by blast
    moreover have "\<not> less_at s q p" using 3 less_at_asym by blast
    ultimately show ?thesis using 3 by (auto simp: set_find_def)
  qed (simp add: set_find_def)
qed (simp add: set_find_def)

definition timers_ok :: "'c timers \<Rightarrow> bool" where
  "timers_ok s \<longleftrightarrow> set_wf s (tm_set s) \<and>
     (\<forall>p. p \<in> set (tm_set s) \<longleftrightarrow> (\<exists>t. timer_heap s p = Some t \<and> t_cb t \<noteq> None))"

lemma timers_okD:
  assumes "timers_ok s"
  shows "set_wf s (tm_set s)" "distinct (tm_set s)"
    "p \<in> set (tm_set s) \<Longrightarrow> \<exists>t. timer_heap s p = Some t \<and> t_cb t \<noteq> None"
    "timer_heap s p = Some t \<Longrightarrow> t_cb t \<noteq> None \<Longrightarrow> p \<in> set (tm_set s)"
  using assms set_wf_distinct unfolding timers_ok_def by blast+

lemma heap_upd [simp]:
  "timer_heap (upd_timer p f s) = (timer_heap s)(p \<mapsto> f (timer_at s p))"
  "tm_set (upd_timer p f s) = tm_set s" "tm_tickled (upd_timer p f s) = tm_tickled s"
  "tm_previouseTime (upd_timer p f s) = tm_previouseTime s"
  "timer_at (upd_timer p f s) q = (if q = p then f (timer_at s p) else timer_at s q)"
  "next_at (upd_timer p f s) q = (if q = p then t_next (f (timer_at s p)) else next_at s q)"
  by (simp_all add: upd_timer_def timer_at_def next_at_def)

lemma heap_insert [simp]:
  "timer_heap (insert_timer p s) = timer_heap s" "tm_set (insert_timer p s) = set_insert s p (tm_set s)"
  "timer_at (insert_timer p s) q = timer_at s q" "next_at (insert_timer p s) q = next_at s q"
  "timer_heap (erase_timer p s) = timer_heap s" "tm_set (erase_timer p s) = remove1 p (tm_set s)"
  "timer_at (erase_timer p s) q = timer_at s q" "next_at (erase_timer p s) q = next_at s q"
  by (simp_all add: insert_timer_def erase_timer_def timer_at_def next_at_def)

lemma at_timers_upd [simp]:
  "timer_at (s\<lparr>tm_set := l\<rparr>) q = timer_at s q" "next_at (s\<lparr>tm_set := l\<rparr>) q = next_at s q"
  "timer_at (s\<lparr>tm_tickled := b\<rparr>) q = timer_at s q" "next_at (s\<lparr>tm_tickled := b\<rparr>) q = next_at s q"
  "timer_at (s\<lparr>tm_previouseTime := w\<rparr>) q = timer_at s q" "next_at (s\<lparr>tm_previouseTime := w\<rparr>) q = next_at s q"
  by (simp_all add: timer_at_def next_at_def)

lemma set_wf_same [simp]:
  "set_wf (insert_timer p s) l = set_wf s l" "set_wf (erase_timer p s) l = set_wf s l"
  "set_wf (s\<lparr>tm_set := m\<rparr>) l = set_wf s l" "set_wf (s\<lparr>tm_tickled := b\<rparr>) l = set_wf s l"
  "set_wf (s\<lparr>tm_previouseTime := w\<rparr>) l = set_wf s l"
  by (rule set_wf_cong, simp)+

lemma set_wf_upd [simp]: "p \<notin> set l \<Longrightarrow> set_wf (upd_timer p f s) l = set_wf s l"
  by (rule set_wf_cong) auto

lemma set_wf_remove1: "set_wf s l \<Longrightarrow> set_wf s (remove1 p l)"
  by (induction l) (auto simp: set_wf_Cons dest: in_set_remove1 [THEN iffD1, rotated] notin_set_remove1 set_remove1_subset [THEN subsetD])

lemma timers_okI:
  assumes "set_wf s (tm_set s)" "\<And>p t. p \<in> set (tm_set s) \<Longrightarrow> \<exists>t. timer_heap s p = Some t \<and> t_cb t \<noteq> None"
    "\<And>p t. timer_heap s p = Some t \<Longrightarrow> t_cb t \<noteq> None \<Longrightarrow> p \<in> set (tm_set s)"
  shows "timers_ok s"
  using assms unfolding timers_ok_def by blast

text \<open>In the middle of an operation one timer is out of the set.\<close>

definition timers_but :: "nat \<Rightarrow> 'c timers \<Rightarrow> bool" where
  "timers_but p s \<longleftrightarrow> set_wf s (tm_set s) \<and> p \<notin> set (tm_set s) \<and>
     (\<forall>q. q \<noteq> p \<longrightarrow> (q \<in> set (tm_set s) \<longleftrightarrow> (\<exists>t. timer_heap s q = Some t \<and> t_cb t \<noteq> None)))"

lemma timers_but_upd:
  assumes "timers_but p s"
  shows "set_wf (upd_timer p f s) (tm_set s)"
  using assms by (simp add: timers_but_def)

lemma but_insert:
  assumes "timers_but p s" "t_cb (f (timer_at s p)) \<noteq> None"
  shows "timers_ok (insert_timer p (upd_timer p f s))"
proof -
  have "set_wf (insert_timer p (upd_timer p f s)) (set_insert (upd_timer p f s) p (tm_set s))"
    using set_insert_wf [OF timers_but_upd [OF assms(1)]] by simp
  then show ?thesis using assms by (auto simp: timers_ok_def timers_but_def)
qed

lemma but_drop:
  assumes "timers_but p s" "t_cb (f (timer_at s p)) = None"
  shows "timers_ok (upd_timer p f s)"
  using assms timers_but_upd [OF assms(1)] by (auto simp: timers_ok_def timers_but_def)

lemma ok_new: "timers_ok s \<Longrightarrow> timer_heap s p = None \<Longrightarrow> timers_but p s"
  by (auto simp: timers_ok_def timers_but_def)

lemma ok_erase: "timers_ok s \<Longrightarrow> timers_but p (erase_timer p s)"
proof -
  assume ok: "timers_ok s"
  have "set_wf (erase_timer p s) (remove1 p (tm_set s))"
    using set_wf_remove1 [OF timers_okD(1) [OF ok]] by simp
  then show ?thesis using ok timers_okD(2) [OF ok] by (auto simp: timers_but_def timers_ok_def)
qed

lemma ok_tickled [simp]: "timers_ok (s\<lparr>tm_tickled := b\<rparr>) = timers_ok s"
  by (simp add: timers_ok_def)

lemma addTimer_locked_ok: "timers_ok (insert_timer p s) \<Longrightarrow> timers_ok (fst (addTimer_locked p s))"
  by (simp add: addTimer_locked_def Let_def)

lemma TimerManager_new_ok: "timers_ok (TimerManager_new now)"
  by (simp add: timers_ok_def TimerManager_new_def set_wf_def)

lemma addTimer_ok:
  assumes "timers_ok s" "timer_heap s p = None"
  shows "timers_ok (fst (addTimer p now ms cb rec s))"
proof -
  let ?t = "\<lparr>t_recurring = rec, t_ms = ms, t_next = now + ms, t_cb = Some cb\<rparr>"
  have eq: "s\<lparr>timer_heap := (timer_heap s)(p \<mapsto> ?t)\<rparr> = upd_timer p (\<lambda>_. ?t) s" by (simp add: upd_timer_def)
  have "timers_ok (insert_timer p (upd_timer p (\<lambda>_. ?t) s))" by (rule but_insert [OF ok_new [OF assms]]) simp
  then show ?thesis unfolding addTimer_def eq by (rule addTimer_locked_ok)
qed

lemma find_ok: "timers_ok s \<Longrightarrow> set_find s p (tm_set s) = (if p \<in> set (tm_set s) then Some p else None)"
  by (rule set_find_mem [OF timers_okD(1)])

lemma timer_cancel_ok:
  assumes "timers_ok s" "timer_heap s p = Some t"
  shows "\<exists>s'. timer_cancel p s = Inr (s', t_cb t \<noteq> None) \<and> timers_ok s' \<and> tm_set s' = remove1 p (tm_set s) \<and>
    timer_heap s' = (timer_heap s)(p \<mapsto> t\<lparr>t_cb := None\<rparr>)"
proof (cases "t_cb t = None")
  case True
  then have "p \<notin> set (tm_set s)" using timers_okD(3) [OF assms(1), of p] assms(2) by auto
  moreover have "t\<lparr>t_cb := None\<rparr> = t" using True by simp
  ultimately show ?thesis using True assms by (simp add: timer_cancel_def timer_at_def remove1_idem fun_upd_idem)
next
  case False
  let ?u = "upd_timer p (\<lambda>t. t\<lparr>t_cb := None\<rparr>)"
  have p: "p \<in> set (tm_set s)" using timers_okD(4) [OF assms False] .
  have at: "timer_at s p = t" using assms(2) by (simp add: timer_at_def)
  have "set_wf (?u s) (tm_set s)" using set_wf_cong [of "tm_set s" "?u s" s] timers_okD(1) [OF assms(1)]
    by (auto simp: next_at_def)
  then have "set_find (?u s) p (tm_set s) = Some p" using p by (simp add: set_find_mem)
  then have "timer_cancel p s = Inr (erase_timer p (?u s), True)" using False at by (simp add: timer_cancel_def Let_def)
  moreover have "erase_timer p (?u s) = ?u (erase_timer p s)" by (simp add: erase_timer_def upd_timer_def timer_at_def)
  moreover have "timers_ok (?u (erase_timer p s))" using but_drop [OF ok_erase [OF assms(1)]] by simp
  ultimately show ?thesis using False at by simp
qed

lemma timer_refresh_ok: "timers_ok s \<Longrightarrow> timers_ok (fst (timer_refresh p now s))"
  using timers_okD(3) [of s p] but_insert [OF ok_erase [of s p]]
  by (auto simp: timer_refresh_def find_ok)

lemma timer_reset_ok: "timers_ok s \<Longrightarrow> timers_ok (fst (timer_reset p now ms from_now s))"
  using but_insert [OF ok_erase [of s p]] by (auto simp: timer_reset_def find_ok Let_def intro!: addTimer_locked_ok)

section \<open>What is due\<close>

lemma next_mono: "less_at s p q \<Longrightarrow> next_at s p \<le> next_at s q"
  by (auto simp: less_at_def timer_less_def)

lemma set_wf_filter_take:
  "set_wf s l \<Longrightarrow> takeWhile (\<lambda>p. next_at s p \<le> now) l = filter (\<lambda>p. next_at s p \<le> now) l"
proof (induction l)
  case (Cons p l)
  show ?case
  proof (cases "next_at s p \<le> now")
    case False
    then have "\<forall>q \<in> set l. \<not> next_at s q \<le> now" using Cons.prems next_mono unfolding set_wf_Cons by (meson order.trans)
    then show ?thesis using False by (simp add: filter_empty_conv)
  qed (use Cons in \<open>simp add: set_wf_Cons\<close>)
qed simp

lemma due_position:
  fixes now :: "64 word" and nt :: nat
  assumes "set_wf s l"
  defines "below \<equiv> takeWhile (\<lambda>p. timer_less (next_at s p, p) (now, nt)) l"
  shows "take (length below + length (takeWhile (\<lambda>p. next_at s p = now) (drop (length below) l))) l =
    filter (\<lambda>p. next_at s p \<le> now) l"
proof -
  have "take (length (takeWhile (\<lambda>p. timer_less (next_at s p, p) (now, nt)) l) + length (takeWhile (\<lambda>p. next_at s p = now)
      (drop (length (takeWhile (\<lambda>p. timer_less (next_at s p, p) (now, nt)) l)) l))) l =
      takeWhile (\<lambda>p. next_at s p \<le> now) l"
    using assms(1)
  proof (induction l)
    case (Cons p l)
    show ?case
    proof (cases "timer_less (next_at s p, p) (now, nt)")
      case True
      then show ?thesis using Cons by (auto simp: set_wf_Cons timer_less_def)
    next
      case False
      then have "now \<le> next_at s p" by (auto simp: timer_less_def)
      moreover from this have "\<And>q. q \<in> set l \<Longrightarrow> now \<le> next_at s q"
        using Cons.prems next_mono unfolding set_wf_Cons by (meson order.trans)
      ultimately have "takeWhile (\<lambda>p. next_at s p = now) (p # l) = takeWhile (\<lambda>p. next_at s p \<le> now) (p # l)"
        by (intro takeWhile_cong) (auto simp: order.antisym)
      moreover have "takeWhile (\<lambda>p. timer_less (next_at s p, p) (now, nt)) (p # l) = []" using False by simp
      ultimately show ?thesis by (simp only: list.size add_0 drop_0) (metis takeWhile_eq_take)
    qed
  qed simp
  then show ?thesis unfolding below_def set_wf_filter_take [OF assms(1)] .
qed

text \<open>The timers in \<open>E\<close> were taken out of the set and wait for the loop.\<close>

definition taken_out :: "nat list \<Rightarrow> 'c timers \<Rightarrow> bool" where
  "taken_out E s \<longleftrightarrow> set_wf s (tm_set s) \<and> distinct E \<and> set E \<inter> set (tm_set s) = {} \<and>
     (\<forall>q. q \<in> set E \<union> set (tm_set s) \<longleftrightarrow> (\<exists>t. timer_heap s q = Some t \<and> t_cb t \<noteq> None))"

lemma rearm_ok:
  assumes "taken_out E s"
  shows "\<exists>s'. rearm now E s = (s', map (\<lambda>p. t_cb (timer_at s p)) E) \<and> timers_ok s' \<and>
    set (tm_set s') = set (tm_set s) \<union> {p \<in> set E. t_recurring (timer_at s p)} \<and>
    (\<forall>p. p \<notin> set E \<longrightarrow> timer_heap s' p = timer_heap s p) \<and>
    (\<forall>p \<in> set E. timer_at s' p = (if t_recurring (timer_at s p)
       then (timer_at s p)\<lparr>t_next := now + t_ms (timer_at s p)\<rparr> else (timer_at s p)\<lparr>t_cb := None\<rparr>))"
  using assms
proof (induction now E s rule: rearm.induct)
  case (1 now s)
  then show ?case by (auto simp: taken_out_def timers_ok_def)
next
  case (2 now p E s)
  let ?t = "timer_at s p"
  define s1 where "s1 = (if t_recurring ?t then insert_timer p (upd_timer p (\<lambda>t. t\<lparr>t_next := now + t_ms t\<rparr>) s)
      else upd_timer p (\<lambda>t. t\<lparr>t_cb := None\<rparr>) s)"
  have p: "p \<notin> set E" "p \<notin> set (tm_set s)" "\<exists>t. timer_heap s p = Some t \<and> t_cb t \<noteq> None"
    using "2.prems" by (auto simp: taken_out_def)
  then have cb: "t_cb ?t \<noteq> None" by (auto simp: timer_at_def)
  have wf: "set_wf s (tm_set s)" using "2.prems" by (simp add: taken_out_def)
  have wf1: "set_wf s1 (tm_set s1)"
  proof (cases "t_recurring ?t")
    case True
    let ?u = "upd_timer p (\<lambda>t. t\<lparr>t_next := now + t_ms t\<rparr>) s"
    have "set_wf ?u (tm_set s)" using wf p(2) by simp
    from set_insert_wf [OF this, of p] show ?thesis using True by (simp add: s1_def)
  qed (use wf p(2) in \<open>simp add: s1_def\<close>)
  have facts: "set (tm_set s1) = set (tm_set s) \<union> (if t_recurring ?t then {p} else {})"
    "\<And>q. q \<noteq> p \<Longrightarrow> timer_heap s1 q = timer_heap s q" "\<And>q. q \<noteq> p \<Longrightarrow> timer_at s1 q = timer_at s q"
    "timer_at s1 p = (if t_recurring ?t then ?t\<lparr>t_next := now + t_ms ?t\<rparr> else ?t\<lparr>t_cb := None\<rparr>)"
    "timer_heap s1 p = Some (timer_at s1 p)"
    by (simp_all add: s1_def)
  have "taken_out E s1"
    unfolding taken_out_def
  proof (intro conjI allI)
    show "set_wf s1 (tm_set s1)" by (rule wf1)
    show "distinct E" "set E \<inter> set (tm_set s1) = {}" using "2.prems" p(1) by (auto simp: taken_out_def facts(1))
    fix q
    show "q \<in> set E \<union> set (tm_set s1) \<longleftrightarrow> (\<exists>t. timer_heap s1 q = Some t \<and> t_cb t \<noteq> None)"
    proof (cases "q = p")
      case True
      then show ?thesis using p(1,2) cb by (simp add: facts(1,4,5))
    next
      case False
      then have "q \<in> set E \<union> set (tm_set s1) \<longleftrightarrow> q \<in> set (p # E) \<union> set (tm_set s)" by (auto simp: facts(1))
      also have "\<dots> \<longleftrightarrow> (\<exists>t. timer_heap s q = Some t \<and> t_cb t \<noteq> None)"
        using "2.prems" unfolding taken_out_def by blast
      finally show ?thesis unfolding facts(2) [OF False] .
    qed
  qed
  from "2.IH" [OF refl s1_def this] obtain s' where s': "rearm now E s1 = (s', map (\<lambda>p. t_cb (timer_at s1 p)) E)"
    "timers_ok s'" "set (tm_set s') = set (tm_set s1) \<union> {p \<in> set E. t_recurring (timer_at s1 p)}"
    "\<forall>p. p \<notin> set E \<longrightarrow> timer_heap s' p = timer_heap s1 p"
    "\<forall>p \<in> set E. timer_at s' p = (if t_recurring (timer_at s1 p)
       then (timer_at s1 p)\<lparr>t_next := now + t_ms (timer_at s1 p)\<rparr> else (timer_at s1 p)\<lparr>t_cb := None\<rparr>)" by blast
  have same: "\<And>q. q \<in> set E \<Longrightarrow> timer_at s1 q = timer_at s q" using p(1) by (intro facts(3)) auto
  have "timer_at s' p = timer_at s1 p" using s'(4) p(1) by (simp add: timer_at_def)
  moreover have "map (\<lambda>p. t_cb (timer_at s1 p)) E = map (\<lambda>p. t_cb (timer_at s p)) E" using same by simp
  moreover have "{q \<in> set E. t_recurring (timer_at s1 q)} = {q \<in> set E. t_recurring (timer_at s q)}" using same by auto
  ultimately show ?case
    using s' same facts p(1) by (intro exI [of _ s']) (auto simp: s1_def [symmetric] Let_def)
qed

text \<open>The clock went back by more than an hour, as the code computes it.\<close>

definition rolled_back :: "64 word \<Rightarrow> 64 word \<Rightarrow> bool" where
  "rolled_back now prev \<longleftrightarrow> now < prev \<and> now < prev - 3600000"

definition due :: "64 word \<Rightarrow> 'c timers \<Rightarrow> nat list" where
  "due now s = (if rolled_back now (tm_previouseTime s) then tm_set s
     else filter (\<lambda>p. next_at s p \<le> now) (tm_set s))"

lemma hd_not_due:
  assumes "set_wf s l" "l \<noteq> []" "next_at s (hd l) > now"
  shows "filter (\<lambda>p. next_at s p \<le> now) l = []"
  using set_wf_filter_take [OF assms(1), of now] assms(2,3) by (cases l) (auto simp: not_le [symmetric])

lemma listExpiredCb_rearm:
  assumes "timers_ok s" "tm_set s \<noteq> []"
  shows "listExpiredCb nt now s = rearm now (due now s)
    (s\<lparr>tm_previouseTime := now, tm_set := drop (length (due now s)) (tm_set s)\<rparr>)"
    "due now s = take (length (due now s)) (tm_set s)"
proof -
  let ?l = "tm_set s" and ?f = "filter (\<lambda>p. next_at s p \<le> now) (tm_set s)"
  have wf: "set_wf s ?l" by (rule timers_okD(1) [OF assms(1)])
  have "?f = take (length ?f) ?l" using set_wf_filter_take [OF wf, of now] by (metis takeWhile_eq_take)
  then show t: "due now s = take (length (due now s)) ?l" by (simp add: due_def)
  have d: "detectClockRolllover now s = (s\<lparr>tm_previouseTime := now\<rparr>, rolled_back now (tm_previouseTime s))"
    by (simp add: detectClockRolllover_def rolled_back_def)
  consider (rolled) "rolled_back now (tm_previouseTime s)" | (early) "\<not> rolled_back now (tm_previouseTime s)" "next_at s (hd ?l) > now"
    | (some) "\<not> rolled_back now (tm_previouseTime s)" "\<not> next_at s (hd ?l) > now" by blast
  then show "listExpiredCb nt now s = rearm now (due now s)
      (s\<lparr>tm_previouseTime := now, tm_set := drop (length (due now s)) ?l\<rparr>)"
  proof cases
    case rolled
    then show ?thesis using assms(2)
      by (simp add: listExpiredCb_def d due_def)
  next
    case early
    then show ?thesis using assms(2) hd_not_due [OF wf assms(2) early(2)]
      by (simp add: listExpiredCb_def d due_def)
  next
    case some
    let ?b = "takeWhile (\<lambda>p. timer_less (next_at s p, p) (now, nt)) ?l"
    define it where "it = length ?b + length (takeWhile (\<lambda>p. next_at s p = now) (drop (length ?b) ?l))"
    have E: "take it ?l = due now s" using due_position [OF wf] some(1) by (simp add: due_def it_def)
    have "it \<le> length ?l"
      using length_takeWhile_le [of "\<lambda>p. next_at s p = now" "drop (length ?b) ?l"] length_takeWhile_le [of _ ?l]
      by (simp add: it_def le_diff_conv2 add.commute)
    then have "length (take it ?l) = it" by simp
    then have "it = length (due now s)" unfolding E by simp
    moreover have "listExpiredCb nt now s = rearm now (take it ?l) (s\<lparr>tm_previouseTime := now, tm_set := drop it ?l\<rparr>)"
      using assms(2) some by (simp add: listExpiredCb_def d Let_def it_def)
    ultimately show ?thesis unfolding E by simp
  qed
qed

text \<open>
  \<open>ListExpiredCb\<close> returns the callbacks of exactly the timers that are due, the earliest first: those whose time
  has come, or all when the clock seems to have gone back an hour.  Afterwards the set holds the others, and the
  recurring ones again, due one period from now; every other timer has lost its callback, so that cancelling it does
  nothing.
\<close>

theorem timers_expire:
  assumes "timers_ok s"
  shows "\<exists>s'. listExpiredCb nt now s = (s', map (\<lambda>p. t_cb (timer_at s p)) (due now s)) \<and> timers_ok s' \<and>
    sorted (map (next_at s) (due now s)) \<and>
    set (tm_set s') = set (tm_set s) - set (due now s) \<union> {p \<in> set (due now s). t_recurring (timer_at s p)} \<and>
    (\<forall>p \<in> set (due now s). if t_recurring (timer_at s p) then next_at s' p = now + t_ms (timer_at s p)
       else t_cb (timer_at s' p) = None) \<and>
    (\<forall>p. p \<notin> set (due now s) \<longrightarrow> timer_heap s' p = timer_heap s p)"
proof (cases "tm_set s = []")
  case True
  then show ?thesis using assms by (intro exI [of _ s]) (simp add: listExpiredCb_def due_def)
next
  case False
  let ?E = "due now s" and ?R = "drop (length (due now s)) (tm_set s)"
  let ?s = "s\<lparr>tm_previouseTime := now, tm_set := ?R\<rparr>"
  note r = listExpiredCb_rearm(1) [OF assms False, of nt now] listExpiredCb_rearm(2) [OF assms False, of now]
  have split: "tm_set s = ?E @ ?R" using r(2) by (metis append_take_drop_id)
  have wf: "set_wf s (?E @ ?R)" "distinct (?E @ ?R)" using timers_okD(1,2) [OF assms] split by simp_all
  have same: "timer_at ?s q = timer_at s q" "next_at ?s q = next_at s q" "timer_heap ?s = timer_heap s" for q
    by (simp_all add: timer_at_def next_at_def)
  have out: "taken_out ?E ?s"
    unfolding taken_out_def
  proof (intro conjI allI)
    show "set_wf ?s (tm_set ?s)" using wf(1) set_wf_cong [of ?R ?s s] same by (simp add: set_wf_def sorted_wrt_append)
    show "distinct ?E" "set ?E \<inter> set (tm_set ?s) = {}" using wf(2) by auto
    fix q
    have "set (tm_set s) = set ?E \<union> set ?R" using split by (metis set_append)
    then have "q \<in> set ?E \<union> set (tm_set ?s) \<longleftrightarrow> q \<in> set (tm_set s)" by simp
    also have "\<dots> \<longleftrightarrow> (\<exists>t. timer_heap s q = Some t \<and> t_cb t \<noteq> None)" using assms unfolding timers_ok_def by blast
    finally show "q \<in> set ?E \<union> set (tm_set ?s) \<longleftrightarrow> (\<exists>t. timer_heap ?s q = Some t \<and> t_cb t \<noteq> None)"
      unfolding same(3) .
  qed
  obtain s' where s': "rearm now ?E ?s = (s', map (\<lambda>p. t_cb (timer_at s p)) ?E)" "timers_ok s'"
    "set (tm_set s') = set ?R \<union> {p \<in> set ?E. t_recurring (timer_at s p)}"
    "\<And>p. p \<notin> set ?E \<Longrightarrow> timer_heap s' p = timer_heap s p"
    "\<And>p. p \<in> set ?E \<Longrightarrow> timer_at s' p = (if t_recurring (timer_at s p)
       then (timer_at s p)\<lparr>t_next := now + t_ms (timer_at s p)\<rparr> else (timer_at s p)\<lparr>t_cb := None\<rparr>)"
    using rearm_ok [OF out, of now] unfolding same by auto
  have "set (tm_set s) = set ?E \<union> set ?R" using split by (metis set_append)
  then have "set ?R = set (tm_set s) - set ?E" using wf(2) by auto
  moreover have "sorted (map (next_at s) ?E)"
    using wf(1) next_mono by (auto simp: set_wf_def sorted_wrt_append sorted_wrt_map intro: sorted_wrt_mono_rel)
  ultimately show ?thesis using s' r(1) by (intro exI [of _ s']) (simp add: next_at_def)
qed

definition demo_timers :: "nat timers" where
  "demo_timers = fst (addTimer 2 10 5 (Call 7) True (fst (addTimer 3 10 90 (Call 8) False (TimerManager_new 10))))"

lemma demo_timers_ok: "timers_ok demo_timers"
  unfolding demo_timers_def
  by (intro addTimer_ok TimerManager_new_ok)
    (simp_all add: addTimer_def addTimer_locked_def Let_def TimerManager_new_def insert_timer_def)

lemma demo_timers: "tm_set demo_timers = [2, 3]" "next_at demo_timers 2 = 15" "next_at demo_timers 3 = 100"
  "tm_previouseTime demo_timers = 10" "timer_at demo_timers 2 = \<lparr>t_recurring = True, t_ms = 5, t_next = 15, t_cb = Some (Call 7)\<rparr>"
  "timer_at demo_timers 3 = \<lparr>t_recurring = False, t_ms = 90, t_next = 100, t_cb = Some (Call 8)\<rparr>"
  by (simp_all add: demo_timers_def addTimer_def addTimer_locked_def Let_def TimerManager_new_def insert_timer_def
      less_at_def timer_less_def next_at_def timer_at_def)

theorem timers_expire_witness:
  "\<exists>s'. listExpiredCb 9 20 demo_timers = (s', [Some (Call 7)]) \<and> set (tm_set s') = {2, 3} \<and> next_at s' 2 = 25"
  using timers_expire [OF demo_timers_ok, of 9 20] by (auto simp: due_def rolled_back_def demo_timers)

text \<open>
  During the first hour the subtraction in the test for a clock that went back wraps around.  Then a time read a
  moment earlier than the one another thread has stored makes every timer expire, whatever it waits for.
\<close>

theorem early_clock_fires_all:
  assumes "timers_ok s" "now < tm_previouseTime s" "tm_previouseTime s < 3600000"
  shows "snd (listExpiredCb nt now s) = map (\<lambda>p. t_cb (timer_at s p)) (tm_set s)"
proof -
  have "now < tm_previouseTime s - 3600000"
  proof -
    have "unat (tm_previouseTime s - 3600000) = 2 ^ 64 - 3600000 + unat (tm_previouseTime s)"
      using assms(3) by (simp add: unat_sub_if' word_less_nat_alt)
    moreover have "unat now < 3600000" using assms(2,3) by (simp add: word_less_nat_alt)
    ultimately show ?thesis by (simp add: word_less_nat_alt)
  qed
  then have "due now s = tm_set s" using assms(2) by (simp add: due_def rolled_back_def)
  then show ?thesis using timers_expire [OF assms(1), of nt now] by auto
qed

theorem early_clock_fires_all_witness:
  "snd (listExpiredCb 9 9 demo_timers) = [Some (Call 7), Some (Call 8)]"
  using early_clock_fires_all [OF demo_timers_ok, of 9 9] by (simp add: demo_timers)

end
