(* ===== verification/Io_Manager.thy ===== *)
theory Io_Manager
  imports KV_Prelude "HOL-Library.Multiset"
begin

unbundle bit_operations_syntax

text \<open>
  Fibers, the scheduler's queue and the event table of the I/O manager: \<open>fiber/fiber.cpp\<close>,
  \<open>fiber/scheduler.cpp\<close>, \<open>fiber/iomanager.cpp\<close>.

  A fiber is its state and what it holds; the switch of contexts itself is a system matter.  The operations on the
  queue and on the table run under a mutex each.  The results of \<open>epoll_ctl\<close> are parameters.  \<open>CondPanic\<close> ends
  the process, and its message is built before the condition is looked at.
\<close>

section \<open>Fibers\<close>

datatype fiber_state = READY | RUNNING | TERMINATED

primrec fiber_state_number :: "fiber_state \<Rightarrow> nat" where
  "fiber_state_number READY = 0"
| "fiber_state_number RUNNING = 1"
| "fiber_state_number TERMINATED = 2"

record 'c fiber =
  f_state :: fiber_state
  f_cb :: "'c option"
  f_stack :: bool

definition Fiber_main :: "'c fiber" where
  "Fiber_main = \<lparr>f_state = RUNNING, f_cb = None, f_stack = False\<rparr>"

definition Fiber_new :: "'c \<Rightarrow> 'c fiber" where
  "Fiber_new cb = \<lparr>f_state = READY, f_cb = Some cb, f_stack = True\<rparr>"

definition fiber_resume :: "'c fiber \<Rightarrow> exn + 'c fiber" where
  "fiber_resume f = bindE (assertE ''state error'' (f_state f \<noteq> TERMINATED \<and> f_state f \<noteq> RUNNING)) (\<lambda>_.
     Inr (f\<lparr>f_state := RUNNING\<rparr>))"

definition fiber_yield :: "'c fiber \<Rightarrow> exn + 'c fiber" where
  "fiber_yield f = bindE (assertE ''state error'' (f_state f = TERMINATED \<or> f_state f = RUNNING)) (\<lambda>_.
     Inr (if f_state f \<noteq> TERMINATED then f\<lparr>f_state := READY\<rparr> else f))"

text \<open>The end of \<open>MainFunc\<close>, after the callback has returned.\<close>

definition fiber_finish :: "'c fiber \<Rightarrow> exn + 'c fiber" where
  "fiber_finish f = fiber_yield (f\<lparr>f_cb := None, f_state := TERMINATED\<rparr>)"

definition fiber_reset :: "'c \<Rightarrow> 'c fiber \<Rightarrow> exn + 'c fiber" where
  "fiber_reset cb f = bindE (assertE ''stack is nullptr'' (f_stack f)) (\<lambda>_.
     bindE (assertE ''state isn't TERMINATED'' (f_state f = TERMINATED)) (\<lambda>_.
     Inr (f\<lparr>f_cb := Some cb, f_state := READY\<rparr>)))"

definition fiber_delete :: "'c fiber \<Rightarrow> exn + unit" where
  "fiber_delete f =
     (if f_stack f then assertE ''fiber state should be term'' (f_state f = TERMINATED)
      else bindE (assertE ''main fiber no callback'' (f_cb f = None)) (\<lambda>_.
           assertE ''main fiber state should be running'' (f_state f = RUNNING)))"

text \<open>The life of a fiber with a stack of its own; the callback returns while the fiber runs.\<close>

inductive fiber_step :: "'c fiber \<Rightarrow> 'c fiber \<Rightarrow> bool" where
  resumed: "fiber_resume f = Inr f' \<Longrightarrow> fiber_step f f'"
| yielded: "fiber_yield f = Inr f' \<Longrightarrow> fiber_step f f'"
| finished: "f_state f = RUNNING \<Longrightarrow> fiber_finish f = Inr f' \<Longrightarrow> fiber_step f f'"
| restarted: "fiber_reset cb f = Inr f' \<Longrightarrow> fiber_step f f'"

inductive_simps fiber_step_iff: "fiber_step f f'"

definition fiber_ok :: "'c fiber \<Rightarrow> bool" where
  "fiber_ok f \<longleftrightarrow> f_stack f \<and> (f_cb f = None \<longleftrightarrow> f_state f = TERMINATED)"

lemma fiber_step_ok: "fiber_step f f' \<Longrightarrow> fiber_ok f \<Longrightarrow> fiber_ok f'"
  by (auto simp: fiber_step_iff fiber_ok_def fiber_resume_def fiber_yield_def fiber_finish_def fiber_reset_def
      bindE_Inr_iff assertE_Inr_iff split: if_splits)

text \<open>A fiber can be deleted exactly when its callback has returned.\<close>

lemma fiber_delete_iff:
  assumes "fiber_step\<^sup>*\<^sup>* (Fiber_new cb) f"
  shows "fiber_delete f = Inr () \<longleftrightarrow> f_cb f = None"
proof -
  have "fiber_ok (Fiber_new cb)" by (simp add: Fiber_new_def fiber_ok_def)
  with assms have "fiber_ok f" by (induction rule: rtranclp_induct) (blast intro: fiber_step_ok)+
  then show ?thesis by (auto simp: fiber_delete_def fiber_ok_def assertE_Inr_iff)
qed

section \<open>The scheduler's queue\<close>

record 'c task =
  task_fiber :: "nat option"
  task_cb :: "'c option"
  task_thread :: int

text \<open>The second component: the queue was empty, so the threads are notified.\<close>

definition schedulerNoLock :: "'c task \<Rightarrow> 'c task list \<Rightarrow> 'c task list \<times> bool" where
  "schedulerNoLock t tasks =
     (if task_fiber t \<noteq> None \<or> task_cb t \<noteq> None then tasks @ [t] else tasks, tasks = [])"

text \<open>
  The search of \<open>run\<close> for a task of thread \<open>tid\<close>: the task, the queue that is left, and whether the
  other threads are notified.
\<close>

fun pick_task :: "(nat \<Rightarrow> fiber_state) \<Rightarrow> int \<Rightarrow> 'c task list \<Rightarrow> exn + ('c task option \<times> 'c task list \<times> bool)" where
  "pick_task st tid [] = Inr (None, [], False)"
| "pick_task st tid (t # ts) =
     (if task_thread t \<noteq> -1 \<and> task_thread t \<noteq> tid
      then bindE (pick_task st tid ts) (\<lambda>(r, rest, _). Inr (r, t # rest, True))
      else bindE (assertE ''task is nullptr'' (task_fiber t \<noteq> None \<or> task_cb t \<noteq> None)) (\<lambda>_.
           bindE (case task_fiber t of None \<Rightarrow> Inr () | Some f \<Rightarrow> assertE ''fiber task state error'' (st f = READY)) (\<lambda>_.
           Inr (Some t, ts, ts \<noteq> []))))"

definition sched_stopping :: "bool \<Rightarrow> 'c task list \<Rightarrow> nat \<Rightarrow> bool" where
  "sched_stopping isStopped tasks activeThreadCnt \<longleftrightarrow> isStopped \<and> tasks = [] \<and> activeThreadCnt = 0"

definition mine :: "int \<Rightarrow> 'c task \<Rightarrow> bool" where
  "mine tid t \<longleftrightarrow> task_thread t = -1 \<or> task_thread t = tid"

lemma pick_task_result:
  assumes "\<forall>t \<in> set tasks. task_fiber t \<noteq> None \<or> task_cb t \<noteq> None"
    "\<forall>t \<in> set tasks. \<forall>f. task_fiber t = Some f \<longrightarrow> st f = READY"
  shows "pick_task st tid tasks = Inr (find (mine tid) tasks,
    takeWhile (\<lambda>t. \<not> mine tid t) tasks @ tl (dropWhile (\<lambda>t. \<not> mine tid t) tasks),
    takeWhile (\<lambda>t. \<not> mine tid t) tasks @ tl (dropWhile (\<lambda>t. \<not> mine tid t) tasks) \<noteq> [])"
  using assms
proof (induction st tid tasks rule: pick_task.induct)
  case (2 st tid t ts)
  show ?case
  proof (cases "mine tid t")
    case True
    then have "\<not> (task_thread t \<noteq> -1 \<and> task_thread t \<noteq> tid)" by (auto simp: mine_def)
    then show ?thesis using True "2.prems" by (auto split: option.split)
  next
    case False
    then have "task_thread t \<noteq> -1 \<and> task_thread t \<noteq> tid" by (auto simp: mine_def)
    then show ?thesis using False 2 by simp
  qed
qed simp

section \<open>The event table\<close>

type_synonym event = "32 word"

abbreviation NONE :: event where "NONE \<equiv> 0"
abbreviation READ :: event where "READ \<equiv> 1"
abbreviation WRITE :: event where "WRITE \<equiv> 4"

record 'c event_ctx =
  ec_scheduler :: bool
  ec_fiber :: "nat option"
  ec_cb :: "'c option"

record 'c fd_ctx =
  fc_read :: "'c event_ctx"
  fc_write :: "'c event_ctx"
  fc_fd :: nat
  fc_events :: event

record 'c iom =
  fdContexts :: "'c fd_ctx list"
  pendingEventCnt :: "64 word"
  sched_tasks :: "'c task list"

definition no_ctx :: "'c event_ctx" where
  "no_ctx = \<lparr>ec_scheduler = False, ec_fiber = None, ec_cb = None\<rparr>"

definition getEveContext :: "event \<Rightarrow> 'c fd_ctx \<Rightarrow> exn + 'c event_ctx" where
  "getEveContext ev c = (if ev = READ then Inr (fc_read c) else if ev = WRITE then Inr (fc_write c)
     else Inl (AssertFail ''getContext error: unknow event''))"

definition set_ctx :: "event \<Rightarrow> 'c event_ctx \<Rightarrow> 'c fd_ctx \<Rightarrow> 'c fd_ctx" where
  "set_ctx ev x c = (if ev = READ then c\<lparr>fc_read := x\<rparr> else c\<lparr>fc_write := x\<rparr>)"

definition new_fd_ctx :: "nat \<Rightarrow> 'c fd_ctx" where
  "new_fd_ctx i = \<lparr>fc_read = no_ctx, fc_write = no_ctx, fc_fd = i, fc_events = NONE\<rparr>"

definition contextResize :: "nat \<Rightarrow> 'c iom \<Rightarrow> 'c iom" where
  "contextResize n s =
     s\<lparr>fdContexts := take n (fdContexts s) @ map new_fd_ctx [length (fdContexts s)..<n]\<rparr>"

definition IOManager_new :: "'c iom" where
  "IOManager_new = contextResize 32 \<lparr>fdContexts = [], pendingEventCnt = 0, sched_tasks = []\<rparr>"

definition ctx_at :: "int \<Rightarrow> 'c iom \<Rightarrow> exn + 'c fd_ctx" where
  "ctx_at fd s = at_index ''fdContexts_'' (fdContexts s) fd"

definition upd_ctx :: "int \<Rightarrow> 'c fd_ctx \<Rightarrow> 'c iom \<Rightarrow> 'c iom" where
  "upd_ctx fd c s = s\<lparr>fdContexts := (fdContexts s)[nat fd := c]\<rparr>"

definition schedule_waiter :: "'c event_ctx \<Rightarrow> 'c iom \<Rightarrow> 'c iom" where
  "schedule_waiter x s =
     (let t = (if ec_cb x \<noteq> None then \<lparr>task_fiber = None, task_cb = ec_cb x, task_thread = -1\<rparr>
               else \<lparr>task_fiber = ec_fiber x, task_cb = None, task_thread = -1\<rparr>)
      in s\<lparr>sched_tasks := fst (schedulerNoLock t (sched_tasks s))\<rparr>)"

definition triggerEvent :: "int \<Rightarrow> event \<Rightarrow> 'c iom \<Rightarrow> exn + 'c iom" where
  "triggerEvent fd ev s =
     bindE (ctx_at fd s) (\<lambda>c.
     bindE (assertE ''event hasn't been registed'' (fc_events c AND ev \<noteq> 0)) (\<lambda>_.
     let c = c\<lparr>fc_events := fc_events c AND NOT ev\<rparr> in
     bindE (getEveContext ev c) (\<lambda>x.
     if \<not> ec_scheduler x then Inl (UndefinedBehaviour ''null scheduler'')
     else Inr (schedule_waiter x (upd_ctx fd (set_ctx ev no_ctx c) s)))))"

text \<open>
  The message of the first check of \<open>addEvent\<close>: a string literal of 21 characters plus an integer, which is the
  literal from that character on.
\<close>

definition addEvent_message :: "int \<Rightarrow> exn + string" where
  "addEvent_message fd =
     (let s = ''addevent error, fd = '' in
      if 0 \<le> fd \<and> fd \<le> int (length s) then Inr (drop (nat fd) s) else Inl (UndefinedBehaviour ''string literal + fd''))"

text \<open>
  \<open>cur\<close> is the running fiber and its state, \<open>in_scheduler\<close> whether the thread has a scheduler, \<open>ret\<close> what
  \<open>epoll_ctl\<close> returns.
\<close>

definition addEvent ::
  "nat \<times> fiber_state \<Rightarrow> bool \<Rightarrow> int \<Rightarrow> int \<Rightarrow> event \<Rightarrow> 'c option \<Rightarrow> 'c iom \<Rightarrow> exn + ('c iom \<times> int)" where
  "addEvent cur in_scheduler ret fd ev cb s =
     (let s = (if int (length (fdContexts s)) > fd then s else contextResize (nat (fd * 3 div 2)) s) in
      bindE (ctx_at fd s) (\<lambda>c.
      bindE (addEvent_message fd) (\<lambda>msg.
      bindE (assertE msg (fc_events c AND ev = 0)) (\<lambda>_.
      if ret \<noteq> 0 then Inr (s, -1)
      else
        let s = s\<lparr>pendingEventCnt := pendingEventCnt s + 1\<rparr>; c = c\<lparr>fc_events := fc_events c OR ev\<rparr> in
        bindE (getEveContext ev c) (\<lambda>x.
        bindE (assertE ''event_ctx is nullptr'' (\<not> ec_scheduler x \<and> ec_fiber x = None \<and> ec_cb x = None)) (\<lambda>_.
        bindE (case cb of Some f \<Rightarrow> Inr \<lparr>ec_scheduler = in_scheduler, ec_fiber = None, ec_cb = Some f\<rparr>
               | None \<Rightarrow> bindE (assertE (drop (fiber_state_number (snd cur)) ''state='') (snd cur = RUNNING)) (\<lambda>_.
                   Inr \<lparr>ec_scheduler = in_scheduler, ec_fiber = Some (fst cur), ec_cb = None\<rparr>)) (\<lambda>x.
        Inr (upd_ctx fd (set_ctx ev x c) s, 0))))))))"

definition delEvent :: "int \<Rightarrow> int \<Rightarrow> event \<Rightarrow> 'c iom \<Rightarrow> exn + ('c iom \<times> bool)" where
  "delEvent ret fd ev s =
     (if int (length (fdContexts s)) \<le> fd then Inr (s, False)
      else bindE (ctx_at fd s) (\<lambda>c.
        if fc_events c AND ev = 0 then Inr (s, False)
        else if ret \<noteq> 0 then Inr (s, False)
        else
          let s = s\<lparr>pendingEventCnt := pendingEventCnt s - 1\<rparr>; c = c\<lparr>fc_events := fc_events c AND NOT ev\<rparr> in
          bindE (getEveContext ev c) (\<lambda>_. Inr (upd_ctx fd (set_ctx ev no_ctx c) s, True))))"

definition trigger_and_count :: "int \<Rightarrow> event \<Rightarrow> 'c iom \<Rightarrow> exn + 'c iom" where
  "trigger_and_count fd ev s =
     bindE (triggerEvent fd ev s) (\<lambda>s. Inr (s\<lparr>pendingEventCnt := pendingEventCnt s - 1\<rparr>))"

definition cancelEvent :: "int \<Rightarrow> int \<Rightarrow> event \<Rightarrow> 'c iom \<Rightarrow> exn + ('c iom \<times> bool)" where
  "cancelEvent ret fd ev s =
     (if int (length (fdContexts s)) \<le> fd then Inr (s, False)
      else bindE (ctx_at fd s) (\<lambda>c.
        if fc_events c AND ev = 0 then Inr (s, False)
        else if ret \<noteq> 0 then Inr (s, False)
        else bindE (trigger_and_count fd ev s) (\<lambda>s. Inr (s, True))))"

definition cancelAll :: "int \<Rightarrow> int \<Rightarrow> 'c iom \<Rightarrow> exn + ('c iom \<times> bool)" where
  "cancelAll ret fd s =
     (if int (length (fdContexts s)) \<le> fd then Inr (s, False)
      else bindE (ctx_at fd s) (\<lambda>c.
        if fc_events c = 0 then Inr (s, False)
        else if ret \<noteq> 0 then Inr (s, False)
        else
          bindE (if fc_events c AND READ \<noteq> 0 then trigger_and_count fd READ s else Inr s) (\<lambda>s.
          bindE (ctx_at fd s) (\<lambda>c.
          bindE (if fc_events c AND WRITE \<noteq> 0 then trigger_and_count fd WRITE s else Inr s) (\<lambda>s.
          bindE (ctx_at fd s) (\<lambda>c.
          bindE (assertE ''fd not totally clear'' (fc_events c = 0)) (\<lambda>_. Inr (s, True)))))))) "

section \<open>The idle fiber\<close>

abbreviation EPOLLIN :: event where "EPOLLIN \<equiv> 1"
abbreviation EPOLLOUT :: event where "EPOLLOUT \<equiv> 4"
abbreviation EPOLLERR :: event where "EPOLLERR \<equiv> 8"
abbreviation EPOLLHUP :: event where "EPOLLHUP \<equiv> 16"

text \<open>What \<open>idle\<close> does with one event that \<open>epoll_wait\<close> reported for a descriptor of the table.\<close>

definition idle_event :: "int \<Rightarrow> int \<Rightarrow> event \<Rightarrow> 'c iom \<Rightarrow> exn + 'c iom" where
  "idle_event ret2 fd events s =
     bindE (ctx_at fd s) (\<lambda>c.
     let events = (if events AND (EPOLLERR OR EPOLLHUP) \<noteq> 0 then events OR ((EPOLLIN OR EPOLLOUT) AND fc_events c) else events);
       real_events = (if events AND EPOLLIN \<noteq> 0 then READ else NONE) OR (if events AND EPOLLOUT \<noteq> 0 then WRITE else NONE) in
     if fc_events c AND real_events = NONE then Inr s
     else if ret2 \<noteq> 0 then Inr s
     else
       bindE (if real_events AND READ \<noteq> 0 then trigger_and_count fd READ s else Inr s) (\<lambda>s.
       if real_events AND WRITE \<noteq> 0 then trigger_and_count fd WRITE s else Inr s))"

text \<open>The time handed to \<open>epoll_wait\<close>; a negative one waits for ever.\<close>

definition idle_timeout :: "64 word \<Rightarrow> int" where
  "idle_timeout next_timeout =
     sint (ucast (if next_timeout \<noteq> - 1 then word_of_int (min (sint (ucast next_timeout :: 32 word)) 5000) else (5000 :: 64 word)) :: 32 word)"

definition iom_stopping :: "64 word \<Rightarrow> bool \<Rightarrow> nat \<Rightarrow> 'c iom \<Rightarrow> bool" where
  "iom_stopping timeout isStopped activeThreadCnt s \<longleftrightarrow>
     timeout = - 1 \<and> pendingEventCnt s = 0 \<and> sched_stopping isStopped (sched_tasks s) activeThreadCnt"

section \<open>Waiters\<close>

text \<open>
  A registered event has one waiter: a callback, or the fiber that was running.  Its task is what the
  scheduler gets when the event is triggered.
\<close>

definition waiter :: "'c event_ctx \<Rightarrow> 'c task" where
  "waiter x = (if ec_cb x \<noteq> None then \<lparr>task_fiber = None, task_cb = ec_cb x, task_thread = -1\<rparr>
     else \<lparr>task_fiber = ec_fiber x, task_cb = None, task_thread = -1\<rparr>)"

definition ctx_waiters :: "'c fd_ctx \<Rightarrow> 'c task list" where
  "ctx_waiters c = (if fc_events c AND READ \<noteq> 0 then [waiter (fc_read c)] else []) @
     (if fc_events c AND WRITE \<noteq> 0 then [waiter (fc_write c)] else [])"

definition waiting :: "'c iom \<Rightarrow> 'c task multiset" where
  "waiting s = mset (concat (map ctx_waiters (fdContexts s)))"

definition half_ok :: "bool \<Rightarrow> 'c event_ctx \<Rightarrow> bool" where
  "half_ok reg x \<longleftrightarrow> (if reg then (ec_cb x = None) \<noteq> (ec_fiber x = None) else x = no_ctx)"

definition ctx_ok :: "'c fd_ctx \<Rightarrow> bool" where
  "ctx_ok c \<longleftrightarrow> fc_events c \<in> {0, 1, 4, 5} \<and> half_ok (fc_events c AND READ \<noteq> 0) (fc_read c) \<and>
     half_ok (fc_events c AND WRITE \<noteq> 0) (fc_write c)"

definition iom_ok :: "'c iom \<Rightarrow> bool" where
  "iom_ok s \<longleftrightarrow> (\<forall>c \<in> set (fdContexts s). ctx_ok c) \<and> map fc_fd (fdContexts s) = [0..<length (fdContexts s)] \<and>
     pendingEventCnt s = word_of_nat (size (waiting s))"

text \<open>One descriptor's context is replaced: what waits changes by that context's waiters.\<close>

lemma waiting_update:
  assumes "i < length (fdContexts s)"
  shows "mset (concat (map ctx_waiters ((fdContexts s)[i := c]))) + mset (ctx_waiters (fdContexts s ! i)) =
    waiting s + mset (ctx_waiters c)"
proof -
  have "fdContexts s = take i (fdContexts s) @ (fdContexts s ! i) # drop (Suc i) (fdContexts s)"
    using assms by (rule id_take_nth_drop)
  then have "waiting s = mset (concat (map ctx_waiters (take i (fdContexts s) @ (fdContexts s ! i) # drop (Suc i) (fdContexts s))))"
    by (simp add: waiting_def)
  then show ?thesis using assms by (simp add: upd_conv_take_nth_drop)
qed

lemma upd_ctx_count: "upd_ctx fd c (s\<lparr>pendingEventCnt := n\<rparr>) = upd_ctx fd c s\<lparr>pendingEventCnt := n\<rparr>"
  by (cases s) (simp add: upd_ctx_def)

lemma iom_ok_at:
  assumes "iom_ok s" "ctx_at fd s = Inr c"
  shows "ctx_ok c" "nat fd < length (fdContexts s)" "fdContexts s ! nat fd = c" "fc_fd c = nat fd" "0 \<le> fd"
proof -
  have i: "nat fd < length (fdContexts s)" "fdContexts s ! nat fd = c" "0 \<le> fd"
    using assms(2) by (auto simp: ctx_at_def at_index_Inr_iff)
  then show "nat fd < length (fdContexts s)" "fdContexts s ! nat fd = c" "0 \<le> fd" by auto
  show "ctx_ok c" using i assms(1) nth_mem by (fastforce simp: iom_ok_def)
  have "map fc_fd (fdContexts s) ! nat fd = nat fd" using i assms(1) by (simp add: iom_ok_def)
  then show "fc_fd c = nat fd" using i by simp
qed

text \<open>The effect on the invariant of writing back a context with \<open>d\<close> more and \<open>l\<close> fewer waiters.\<close>

lemma iom_ok_update:
  assumes "iom_ok s" "ctx_at fd s = Inr c" "ctx_ok c'" "fc_fd c' = fc_fd c"
    "mset (ctx_waiters c') + l = mset (ctx_waiters c) + d"
    "n + word_of_nat (size l) = pendingEventCnt s + word_of_nat (size d)"
  shows "iom_ok (upd_ctx fd c' s\<lparr>pendingEventCnt := n\<rparr>)"
    "waiting (upd_ctx fd c' s\<lparr>pendingEventCnt := n\<rparr>) + l = waiting s + d"
proof -
  note at = iom_ok_at [OF assms(1,2)]
  let ?s = "upd_ctx fd c' s\<lparr>pendingEventCnt := n\<rparr>"
  have "waiting ?s + mset (ctx_waiters c) = waiting s + mset (ctx_waiters c')"
    using waiting_update [OF at(2), of c'] at(3) by (simp add: waiting_def upd_ctx_def)
  then have "waiting ?s + l + mset (ctx_waiters c) = waiting s + d + mset (ctx_waiters c)"
    using assms(5) by (metis add.assoc add.commute)
  then show w: "waiting ?s + l = waiting s + d" by simp
  then have "size (waiting ?s) + size l = size (waiting s) + size d" by (metis size_union)
  then have "(word_of_nat (size (waiting ?s)) + word_of_nat (size l) :: 64 word) =
      word_of_nat (size (waiting s)) + word_of_nat (size d)"
    by (metis of_nat_add)
  then have "n = word_of_nat (size (waiting ?s))"
    using assms(1,6) by (simp add: iom_ok_def) (metis add_right_cancel)
  moreover have "\<forall>x \<in> set (fdContexts ?s). ctx_ok x"
    using assms(1,3) set_update_subset_insert [of "fdContexts s" "nat fd" c'] by (auto simp: iom_ok_def upd_ctx_def)
  moreover have "map fc_fd (fdContexts ?s) = [0..<length (fdContexts ?s)]"
    using assms(1,4) at by (simp add: iom_ok_def upd_ctx_def map_update list_update_same_conv)
  ultimately show "iom_ok ?s" by (simp add: iom_ok_def)
qed

definition ctx_half :: "event \<Rightarrow> 'c fd_ctx \<Rightarrow> 'c event_ctx" where
  "ctx_half ev c = (if ev = READ then fc_read c else fc_write c)"

lemma getEveContext_Inr_iff:
  "getEveContext ev c = Inr x \<longleftrightarrow> (ev = READ \<or> ev = WRITE) \<and> x = ctx_half ev c"
  by (auto simp: getEveContext_def ctx_half_def)

lemma clear_ctx:
  assumes "ctx_ok c" "fc_events c AND ev \<noteq> 0" "ev = READ \<or> ev = WRITE"
  shows "ctx_ok (set_ctx ev no_ctx (c\<lparr>fc_events := fc_events c AND NOT ev\<rparr>))"
    "mset (ctx_waiters (set_ctx ev no_ctx (c\<lparr>fc_events := fc_events c AND NOT ev\<rparr>))) + {#waiter (ctx_half ev c)#} =
      mset (ctx_waiters c) + {#}"
  using assms by (auto simp: ctx_ok_def half_ok_def set_ctx_def ctx_waiters_def ctx_half_def)

lemma fill_ctx:
  assumes "ctx_ok c" "fc_events c AND ev = 0" "ev = READ \<or> ev = WRITE" "(ec_cb x = None) \<noteq> (ec_fiber x = None)"
  shows "ctx_ok (set_ctx ev x (c\<lparr>fc_events := fc_events c OR ev\<rparr>))"
    "mset (ctx_waiters (set_ctx ev x (c\<lparr>fc_events := fc_events c OR ev\<rparr>))) + {#} = mset (ctx_waiters c) + {#waiter x#}"
  using assms by (auto simp: ctx_ok_def half_ok_def set_ctx_def ctx_waiters_def)

lemma set_ctx_fd [simp]: "fc_fd (set_ctx ev x c) = fc_fd c"
  by (simp add: set_ctx_def)

lemma waiting_tasks [simp]: "waiting (s\<lparr>sched_tasks := w\<rparr>) = waiting s"
  by (simp add: waiting_def)

lemma iom_ok_tasks [simp]: "iom_ok (s\<lparr>sched_tasks := w\<rparr>) = iom_ok s"
  by (simp add: iom_ok_def)

lemma schedule_waiter_tasks:
  "schedule_waiter x s = s\<lparr>sched_tasks := sched_tasks s @ (if ec_cb x = None \<and> ec_fiber x = None then [] else [waiter x])\<rparr>"
  by (simp add: schedule_waiter_def schedulerNoLock_def waiter_def)

text \<open>Triggering an event moves its waiter to the end of the scheduler's queue.\<close>

lemma trigger_and_count_Inr:
  assumes ok: "iom_ok s" and run: "trigger_and_count fd ev s = Inr s'"
  shows "iom_ok s'" "\<exists>t. sched_tasks s' = sched_tasks s @ [t] \<and> waiting s = add_mset t (waiting s')"
proof -
  from run obtain c where at: "ctx_at fd s = Inr c" and reg: "fc_events c AND ev \<noteq> 0" and ev: "ev = READ \<or> ev = WRITE"
    and s': "s' = schedule_waiter (ctx_half ev c)
      (upd_ctx fd (set_ctx ev no_ctx (c\<lparr>fc_events := fc_events c AND NOT ev\<rparr>)) s)\<lparr>pendingEventCnt := pendingEventCnt s - 1\<rparr>"
    by (auto simp: trigger_and_count_def triggerEvent_def bindE_Inr_iff assertE_Inr_iff getEveContext_Inr_iff
        ctx_half_def schedule_waiter_tasks upd_ctx_def Let_def split: if_splits)
  let ?c = "set_ctx ev no_ctx (c\<lparr>fc_events := fc_events c AND NOT ev\<rparr>)"
  let ?s = "upd_ctx fd ?c s\<lparr>pendingEventCnt := pendingEventCnt s - 1\<rparr>"
  note at' = iom_ok_at [OF ok at]
  have half: "half_ok True (ctx_half ev c)"
    using at'(1) reg ev by (auto simp: ctx_ok_def ctx_half_def)
  note u = iom_ok_update [OF ok at clear_ctx(1) [OF at'(1) reg ev] _ clear_ctx(2) [OF at'(1) reg ev],
      of "pendingEventCnt s - 1"]
  have "s' = ?s\<lparr>sched_tasks := sched_tasks s @ [waiter (ctx_half ev c)]\<rparr>"
    using half s' by (auto simp: schedule_waiter_tasks half_ok_def upd_ctx_def)
  then have "iom_ok s' = iom_ok ?s" "waiting s' = waiting ?s" "sched_tasks s' = sched_tasks s @ [waiter (ctx_half ev c)]"
    by simp_all
  then show "iom_ok s'" "\<exists>t. sched_tasks s' = sched_tasks s @ [t] \<and> waiting s = add_mset t (waiting s')"
    using u by auto
qed

definition moved :: "'c iom \<Rightarrow> 'c iom \<Rightarrow> bool" where
  "moved s s' \<longleftrightarrow> iom_ok s' \<and> (\<exists>w. sched_tasks s' = sched_tasks s @ w \<and> waiting s = waiting s' + mset w)"

lemma moved_refl [simp]: "moved s s \<longleftrightarrow> iom_ok s"
  by (simp add: moved_def)

lemma moved_trans: "moved s s' \<Longrightarrow> moved s' s'' \<Longrightarrow> moved s s''"
  by (fastforce simp: moved_def)

lemma moved_trigger: "iom_ok s \<Longrightarrow> trigger_and_count fd ev s = Inr s' \<Longrightarrow> moved s s'"
  using trigger_and_count_Inr [of s fd ev s'] by (fastforce simp: moved_def)

lemma moved_ok: "moved s s' \<Longrightarrow> iom_ok s'"
  by (simp add: moved_def)

lemma moved_when:
  "iom_ok s \<Longrightarrow> (if b then trigger_and_count fd ev s else Inr s) = Inr s' \<Longrightarrow> moved s s'"
  by (auto intro: moved_trigger split: if_splits)

lemma moved_both:
  assumes "iom_ok s" "(if b then trigger_and_count fd ev s else Inr s) = Inr s1"
    "(if b' then trigger_and_count fd ev' s1 else Inr s1) = Inr s2"
  shows "moved s s2"
  using moved_when [OF assms(1,2)] moved_when [OF moved_ok assms(3)] moved_trans by blast

lemma cancelEvent_moves: "iom_ok s \<Longrightarrow> cancelEvent ret fd ev s = Inr (s', b) \<Longrightarrow> moved s s'"
  by (auto simp: cancelEvent_def bindE_Inr_iff intro: moved_trigger split: if_splits)

lemma bindE_InrE: "bindE m f = Inr b \<Longrightarrow> (\<And>a. m = Inr a \<Longrightarrow> f a = Inr b \<Longrightarrow> P) \<Longrightarrow> P"
  by (auto simp: bindE_Inr_iff)

lemma if_InrE: "(if c then Inr x else m) = Inr y \<Longrightarrow> (x = y \<Longrightarrow> P) \<Longrightarrow> (m = Inr y \<Longrightarrow> P) \<Longrightarrow> P"
  by (auto split: if_splits)

lemma cancelAll_moves:
  assumes "iom_ok s" "cancelAll ret fd s = Inr (s', b)"
  shows "moved s s'"
  using assms(2) unfolding cancelAll_def
  by (elim bindE_InrE if_InrE)
    ((simp only: sum.inject prod.inject, elim conjE, hypsubst, rule moved_both [OF assms(1)]; assumption)
      | use assms(1) in simp)+

lemma idle_event_moves:
  assumes "iom_ok s" "idle_event ret2 fd events s = Inr s'"
  shows "moved s s'"
  using assms(2) unfolding idle_event_def Let_def
  by (elim bindE_InrE if_InrE) (use assms(1) in \<open>simp; fail\<close> | rule moved_both [OF assms(1)]; assumption)+

text \<open>Deleting an event drops its waiter without waking it.\<close>

definition dropped_waiter :: "int \<Rightarrow> event \<Rightarrow> 'c iom \<Rightarrow> 'c task" where
  "dropped_waiter fd ev s = waiter (ctx_half ev (fdContexts s ! nat fd))"

lemma delEvent_drops:
  assumes ok: "iom_ok s" and run: "delEvent ret fd ev s = Inr (s', b)"
  shows "iom_ok s'" "sched_tasks s' = sched_tasks s"
    "waiting s = waiting s' + (if b then {#dropped_waiter fd ev s#} else {#})"
proof -
  have "iom_ok s' \<and> sched_tasks s' = sched_tasks s \<and> waiting s = waiting s' + (if b then {#dropped_waiter fd ev s#} else {#})"
  proof (cases b)
    case True
    then obtain c where at: "ctx_at fd s = Inr c" and reg: "fc_events c AND ev \<noteq> 0" and ev: "ev = READ \<or> ev = WRITE"
      and s': "s' = upd_ctx fd (set_ctx ev no_ctx (c\<lparr>fc_events := fc_events c AND NOT ev\<rparr>)) s\<lparr>pendingEventCnt := pendingEventCnt s - 1\<rparr>"
      using run by (auto simp: delEvent_def bindE_Inr_iff getEveContext_Inr_iff upd_ctx_def Let_def split: if_splits)
    note at' = iom_ok_at [OF ok at]
    note u = iom_ok_update [OF ok at clear_ctx(1) [OF at'(1) reg ev] _ clear_ctx(2) [OF at'(1) reg ev],
        of "pendingEventCnt s - 1"]
    have "dropped_waiter fd ev s = waiter (ctx_half ev c)" using at' by (simp add: dropped_waiter_def)
    then show ?thesis using u True s' by (simp add: upd_ctx_def)
  next
    case False
    then have "s' = s" using run by (auto simp: delEvent_def bindE_Inr_iff Let_def split: if_splits)
    then show ?thesis using False ok by simp
  qed
  then show "iom_ok s'" "sched_tasks s' = sched_tasks s"
    "waiting s = waiting s' + (if b then {#dropped_waiter fd ev s#} else {#})" by blast+
qed

text \<open>Growing the table adds contexts that nobody waits on.\<close>

lemma new_fd_ctx_simps [simp]: "ctx_waiters (new_fd_ctx i) = []" "ctx_ok (new_fd_ctx i)" "fc_fd (new_fd_ctx i) = i"
  by (simp_all add: new_fd_ctx_def ctx_waiters_def ctx_ok_def half_ok_def)

lemma contextResize_grows:
  assumes "iom_ok s" "length (fdContexts s) \<le> n"
  shows "iom_ok (contextResize n s)" "waiting (contextResize n s) = waiting s" "sched_tasks (contextResize n s) = sched_tasks s"
proof -
  show w: "waiting (contextResize n s) = waiting s"
    using assms(2) by (simp add: waiting_def contextResize_def)
  have "[0..<length (fdContexts s)] @ [length (fdContexts s)..<n] = [0..<n]"
    using assms(2) by (metis le_add_diff_inverse upt_add_eq_append zero_le)
  then show "iom_ok (contextResize n s)"
    using assms w by (auto simp: iom_ok_def contextResize_def o_def)
qed (simp add: contextResize_def)

lemma IOManager_new_ok:
  "iom_ok (IOManager_new :: 'c iom)" "waiting (IOManager_new :: 'c iom) = {#}" "sched_tasks (IOManager_new :: 'c iom) = []"
proof -
  let ?s = "\<lparr>fdContexts = [], pendingEventCnt = 0, sched_tasks = []\<rparr> :: 'c iom"
  have "iom_ok ?s" "waiting ?s = {#}" by (simp_all add: iom_ok_def waiting_def)
  then show "iom_ok (IOManager_new :: 'c iom)" "waiting (IOManager_new :: 'c iom) = {#}" "sched_tasks (IOManager_new :: 'c iom) = []"
    using contextResize_grows [of ?s 32] by (simp_all add: IOManager_new_def)
qed

text \<open>A successful \<open>addEvent\<close> adds one waiter.\<close>

definition added_waiter :: "nat \<Rightarrow> 'c option \<Rightarrow> 'c task" where
  "added_waiter cur cb = (case cb of Some f \<Rightarrow> \<lparr>task_fiber = None, task_cb = Some f, task_thread = -1\<rparr>
     | None \<Rightarrow> \<lparr>task_fiber = Some cur, task_cb = None, task_thread = -1\<rparr>)"

lemma addEvent_adds:
  assumes ok: "iom_ok s" and run: "addEvent cur in_s ret fd ev cb s = Inr (s', r)"
  shows "iom_ok s' \<and> sched_tasks s' = sched_tasks s \<and>
    waiting s' = waiting s + (if r = 0 then {#added_waiter (fst cur) cb#} else {#})"
proof -
  define s0 where "s0 = (if int (length (fdContexts s)) > fd then s else contextResize (nat (fd * 3 div 2)) s)"
  have ok': "iom_ok s0 \<and> waiting s0 = waiting s \<and> sched_tasks s0 = sched_tasks s"
    using ok contextResize_grows [of s "nat (fd * 3 div 2)"] by (auto simp: s0_def)
  from run obtain c where at: "ctx_at fd s0 = Inr c" and free: "fc_events c AND ev = 0"
    unfolding addEvent_def Let_def s0_def [symmetric] by (elim bindE_InrE) (simp add: assertE_Inr_iff)
  show ?thesis
  proof (cases "ret = 0")
    case True
    have ev: "ev = READ \<or> ev = WRITE"
      and s': "s' = upd_ctx fd (set_ctx ev \<lparr>ec_scheduler = in_s, ec_fiber = task_fiber (added_waiter (fst cur) cb), ec_cb = cb\<rparr>
        (c\<lparr>fc_events := fc_events c OR ev\<rparr>)) (s0\<lparr>pendingEventCnt := pendingEventCnt s0 + 1\<rparr>)" and r: "r = 0"
      using run at True unfolding addEvent_def Let_def s0_def [symmetric]
      by (auto simp: bindE_Inr_iff getEveContext_Inr_iff added_waiter_def split: option.splits simp del: if_split)
    note at' = iom_ok_at [OF conjunct1 [OF ok'] at]
    let ?x = "\<lparr>ec_scheduler = in_s, ec_fiber = task_fiber (added_waiter (fst cur) cb), ec_cb = cb\<rparr>"
    have x: "(ec_cb ?x = None) \<noteq> (ec_fiber ?x = None)" "waiter ?x = added_waiter (fst cur) cb"
      by (auto simp: added_waiter_def waiter_def split: option.split)
    note u = iom_ok_update [OF conjunct1 [OF ok'] at fill_ctx(1) [OF at'(1) free ev x(1)] _ fill_ctx(2) [OF at'(1) free ev x(1)],
        of "pendingEventCnt s0 + 1"]
    show ?thesis using u s' r ok' x by (simp add: upd_ctx_count) (simp add: upd_ctx_def)
  next
    case False
    then have "s' = s0" "r = - 1"
      using run unfolding addEvent_def Let_def s0_def [symmetric] by (auto simp: bindE_Inr_iff simp del: if_split)
    then show ?thesis using ok' by simp
  qed
qed


section \<open>Sequences of operations\<close>

datatype 'c io_op =
    Add "nat \<times> fiber_state" bool int int event "'c option"
  | Del int int event
  | Cancel int int event
  | CancelAll int int
  | Ready int int event

text \<open>One operation: the new state, the waiters it registered and those it dropped.\<close>

fun io_do :: "'c io_op \<Rightarrow> 'c iom \<Rightarrow> exn + ('c iom \<times> 'c task list \<times> 'c task list)" where
  "io_do (Add cur in_s ret fd ev cb) s = bindE (addEvent cur in_s ret fd ev cb s) (\<lambda>(s', r).
     Inr (s', if r = 0 then [added_waiter (fst cur) cb] else [], []))"
| "io_do (Del ret fd ev) s = bindE (delEvent ret fd ev s) (\<lambda>(s', b).
     Inr (s', [], if b then [dropped_waiter fd ev s] else []))"
| "io_do (Cancel ret fd ev) s = bindE (cancelEvent ret fd ev s) (\<lambda>(s', b). Inr (s', [], []))"
| "io_do (CancelAll ret fd) s = bindE (cancelAll ret fd s) (\<lambda>(s', b). Inr (s', [], []))"
| "io_do (Ready ret2 fd events) s = bindE (idle_event ret2 fd events s) (\<lambda>s'. Inr (s', [], []))"

fun io_run :: "'c io_op list \<Rightarrow> 'c iom \<Rightarrow> exn + ('c iom \<times> 'c task list \<times> 'c task list)" where
  "io_run [] s = Inr (s, [], [])"
| "io_run (x # xs) s = bindE (io_do x s) (\<lambda>(s1, a1, d1). bindE (io_run xs s1) (\<lambda>(s2, a2, d2).
     Inr (s2, a1 @ a2, d1 @ d2)))"

definition accounted :: "'c iom \<Rightarrow> 'c iom \<Rightarrow> 'c task list \<Rightarrow> 'c task list \<Rightarrow> bool" where
  "accounted s s' added dropped \<longleftrightarrow> iom_ok s' \<and> (\<exists>w. sched_tasks s' = sched_tasks s @ w \<and>
     waiting s + mset added = waiting s' + mset dropped + mset w)"

lemma accounted_moved: "moved s s' \<Longrightarrow> accounted s s' [] []"
  by (auto simp: moved_def accounted_def)

lemma accounted_trans:
  assumes "accounted s s1 a1 d1" "accounted s1 s2 a2 d2"
  shows "accounted s s2 (a1 @ a2) (d1 @ d2)"
proof -
  obtain w1 where w1: "sched_tasks s1 = sched_tasks s @ w1" "waiting s + mset a1 = waiting s1 + mset d1 + mset w1"
    using assms(1) by (auto simp: accounted_def)
  obtain w2 where w2: "sched_tasks s2 = sched_tasks s1 @ w2" "waiting s1 + mset a2 = waiting s2 + mset d2 + mset w2"
    using assms(2) by (auto simp: accounted_def)
  have "waiting s + mset (a1 @ a2) = (waiting s + mset a1) + mset a2" by simp
  also have "\<dots> = (waiting s1 + mset a2) + (mset d1 + mset w1)" by (simp only: w1(2) ac_simps)
  also have "\<dots> = waiting s2 + mset (d1 @ d2) + mset (w1 @ w2)" by (simp only: w2(2) mset_append ac_simps)
  finally have "waiting s + mset (a1 @ a2) = waiting s2 + mset (d1 @ d2) + mset (w1 @ w2)" .
  moreover have "sched_tasks s2 = sched_tasks s @ w1 @ w2" using w1(1) w2(1) by simp
  ultimately show ?thesis using assms(2) unfolding accounted_def by blast
qed

lemma io_do_accounted:
  assumes "iom_ok s" "io_do x s = Inr (s', a, d)"
  shows "accounted s s' a d"
proof (cases x)
  case (Add cur in_s ret fd ev cb)
  then obtain r where "addEvent cur in_s ret fd ev cb s = Inr (s', r)"
    "a = (if r = 0 then [added_waiter (fst cur) cb] else [])" "d = []"
    using assms(2) by (auto simp: bindE_Inr_iff)
  with addEvent_adds [OF assms(1)] show ?thesis by (fastforce simp: accounted_def)
next
  case (Del ret fd ev)
  then obtain b where "delEvent ret fd ev s = Inr (s', b)" "a = []" "d = (if b then [dropped_waiter fd ev s] else [])"
    using assms(2) by (auto simp: bindE_Inr_iff)
  with delEvent_drops [OF assms(1), of ret fd ev s' b] show ?thesis by (auto simp: accounted_def)
next
  case (Cancel ret fd ev)
  with assms show ?thesis by (auto simp: bindE_Inr_iff intro: accounted_moved cancelEvent_moves)
next
  case (CancelAll ret fd)
  with assms show ?thesis by (auto simp: bindE_Inr_iff intro: accounted_moved cancelAll_moves)
next
  case (Ready ret fd ev)
  with assms show ?thesis by (auto simp: bindE_Inr_iff intro: accounted_moved idle_event_moves)
qed

lemma io_run_accounted: "iom_ok s \<Longrightarrow> io_run xs s = Inr (s', a, d) \<Longrightarrow> accounted s s' a d"
proof (induction xs arbitrary: s a d)
  case Nil
  then show ?case by (simp add: accounted_def)
next
  case (Cons x xs)
  then obtain s1 a1 d1 a2 d2 where "io_do x s = Inr (s1, a1, d1)" "io_run xs s1 = Inr (s', a2, d2)" "a = a1 @ a2" "d = d1 @ d2"
    by (auto simp: bindE_Inr_iff)
  moreover from this have "accounted s s1 a1 d1" using Cons.prems(1) io_do_accounted by blast
  ultimately show ?case using Cons.IH accounted_trans by (fastforce simp: accounted_def)
qed



definition run_summary :: "'c io_op list \<Rightarrow> (event \<times> 'c task list \<times> 'c task list \<times> 'c task list) option" where
  "run_summary xs = (case io_run xs IOManager_new of Inl _ \<Rightarrow> None
     | Inr (s, a, d) \<Rightarrow> (case ctx_at 3 s of Inl _ \<Rightarrow> None | Inr c \<Rightarrow> Some (fc_events c, sched_tasks s, a, d)))"

lemma run_summary_Some:
  "run_summary xs = Some (e, q, a, d) \<longleftrightarrow>
    (\<exists>s c. io_run xs IOManager_new = Inr (s, a, d) \<and> ctx_at 3 s = Inr c \<and> fc_events c = e \<and> sched_tasks s = q)"
  by (auto simp: run_summary_def split: sum.splits)


section \<open>The limits of the table\<close>

text \<open>
  Registering an event on a descriptor above 21 is undefined behaviour, whatever the state of the table: the
  message of the duplicate check is computed as a string literal plus the descriptor, before the check.
\<close>

theorem addEvent_large_fd:
  fixes s :: "'c iom"
  assumes "fd > 21"
  shows "addEvent cur in_s ret fd ev cb s = Inl (UndefinedBehaviour ''string literal + fd'')"
proof -
  define s0 where "s0 = (if int (length (fdContexts s)) > fd then s else contextResize (nat (fd * 3 div 2)) s)"
  have "fd < int (length (fdContexts s0))" using assms by (auto simp: s0_def contextResize_def)
  then obtain c where "ctx_at fd s0 = Inr c" using assms by (auto simp: ctx_at_def)
  then show ?thesis using assms by (simp add: addEvent_def Let_def s0_def [symmetric] addEvent_message_def)
qed

theorem addEvent_large_fd_witness:
  "addEvent (0, RUNNING) True 0 40 READ (Some ()) IOManager_new = Inl (UndefinedBehaviour ''string literal + fd'')"
  by (rule addEvent_large_fd) simp

text \<open>
  When both directions of a descriptor are reported and one of them has been removed before the idle fiber
  looks at the table, the process panics, although the table is in order.
\<close>

theorem stale_report_panics:
  assumes "iom_ok s" "ctx_at fd s = Inr c" "fc_events c = WRITE" "events AND EPOLLIN \<noteq> 0" "events AND EPOLLOUT \<noteq> 0"
  shows "idle_event 0 fd events s = Inl (AssertFail ''event hasn't been registed'')"
proof -
  have "(events OR x) AND EPOLLIN \<noteq> 0" "(events OR x) AND EPOLLOUT \<noteq> 0" for x
    using assms(4,5) by (simp_all add: bit.conj_disj_distrib2 or_eq_0_iff)
  then show ?thesis
    using assms(2-5) by (simp add: idle_event_def trigger_and_count_def triggerEvent_def assertE_def)
qed

theorem stale_report_panics_witness:
  "\<exists>s c. iom_ok (s :: string iom) \<and> ctx_at 3 s = Inr c \<and> fc_events c = WRITE \<and>
    idle_event 0 3 (EPOLLIN OR EPOLLOUT) s = Inl (AssertFail ''event hasn't been registed'')"
proof -
  let ?xs = "[Add (7, RUNNING) True 0 3 READ (Some ''r''), Add (7, RUNNING) True 0 3 WRITE (Some ''w''), Del 0 3 READ]"
  have "run_summary ?xs = Some (WRITE, [], [\<lparr>task_fiber = None, task_cb = Some ''r'', task_thread = -1\<rparr>,
        \<lparr>task_fiber = None, task_cb = Some ''w'', task_thread = -1\<rparr>], [\<lparr>task_fiber = None, task_cb = Some ''r'', task_thread = -1\<rparr>])"
    by code_simp
  then obtain s a d c where run: "io_run ?xs IOManager_new = Inr (s, a, d)" and at: "ctx_at 3 s = Inr c" and ev: "fc_events c = WRITE"
    by (auto simp: run_summary_Some)
  have ok: "iom_ok s" using io_run_accounted [OF IOManager_new_ok(1) run] by (simp add: accounted_def)
  from stale_report_panics [OF ok at ev, of "EPOLLIN OR EPOLLOUT"] show ?thesis using ok at ev by auto
qed

text \<open>A woken fiber that has not yet yielded makes the worker that picks it panic.\<close>

lemma early_wakeup_panics:
  assumes "mine tid t" "task_fiber t = Some f" "st f = RUNNING"
  shows "pick_task st tid (t # ts) = Inl (AssertFail ''fiber task state error'')"
  using assms by (auto simp: mine_def assertE_def)

text \<open>The wait is bounded by five seconds, and can only be for ever when the next timer is more than 24 days away.\<close>

lemma idle_timeout_none: "idle_timeout (- 1) = 5000"
  by (simp add: idle_timeout_def)

lemma idle_timeout_far: "idle_timeout (2 ^ 31) < 0"
  by (simp add: idle_timeout_def)

end
