(* ===== verification/Idle_Loop.thy ===== *)
theory Idle_Loop
  imports Timer Io_Manager
begin




definition clamp_timeout :: "64 word \<Rightarrow> 64 word" where
  "clamp_timeout next_timeout =
     (if next_timeout \<noteq> - 1 then word_of_int (min (sint (ucast next_timeout :: 32 word)) 5000) else 5000)"


lemma idle_timeout_clamp: "idle_timeout next = sint (ucast (clamp_timeout next) :: 32 word)"
  by (simp add: idle_timeout_def clamp_timeout_def)




section \<open>Lemmas\<close>





section \<open>Properties\<close>














end
