(* ===== verification/Scheduler.thy ===== *)
theory Scheduler
  imports Io_Manager
begin

text \<open>
  A turn of a worker of the scheduler: the loop of \<open>Scheduler::run\<close> in \<open>fiber/scheduler.cpp\<close>.

  Fibers are objects on a heap.  What a fiber does until it gives the thread back is a parameter: a function on the
  whole state, for it may schedule tasks, and whether its callback returned.  The worker's local \<open>cbFiber\<close> is empty
  at the start of every turn, because every turn empties it, so a callback always gets a new fiber.
\<close>

record 'c sched =
  sc_fibers :: "nat \<Rightarrow> 'c fiber option"
  sc_next :: nat
  sc_tasks :: "'c task list"
  activeThreadCnt :: int
  idleThreadCnt :: int


definition fiber_at :: "'c sched \<Rightarrow> nat \<Rightarrow> 'c fiber" where
  "fiber_at s p = the (sc_fibers s p)"

definition set_fiber :: "nat \<Rightarrow> 'c fiber \<Rightarrow> 'c sched \<Rightarrow> 'c sched" where
  "set_fiber p f s = s\<lparr>sc_fibers := (sc_fibers s)(p \<mapsto> f)\<rparr>"




section \<open>Turns that do not panic\<close>



lemma set_fiber_simps [simp]:
  "fiber_at (set_fiber p f s) q = (if q = p then f else fiber_at s q)" "sc_tasks (set_fiber p f s) = sc_tasks s"
  "activeThreadCnt (set_fiber p f s) = activeThreadCnt s" "idleThreadCnt (set_fiber p f s) = idleThreadCnt s"
  by (auto simp: set_fiber_def fiber_at_def)

lemma fiber_at_cong [simp]:
  "fiber_at (s\<lparr>sc_tasks := q\<rparr>) = fiber_at s" "fiber_at (s\<lparr>activeThreadCnt := n\<rparr>) = fiber_at s"
  "fiber_at (s\<lparr>idleThreadCnt := n\<rparr>) = fiber_at s" "fiber_at (s\<lparr>sc_next := i\<rparr>) = fiber_at s"
  by (auto simp: fiber_at_def fun_eq_iff)






end
