(* ===== verification/Scheduler_Life.thy ===== *)
theory Scheduler_Life
  imports Scheduler
begin

text \<open>
  Starting and stopping the scheduler: \<open>Scheduler\<close>, its constructor, \<open>start\<close>, \<open>stop\<close>, \<open>idle\<close> and destructor
  in \<open>fiber/scheduler.cpp\<close>, and the threads of \<open>fiber/thread.cpp\<close>.  Whether \<open>pthread_create\<close> succeeds, whether a
  worker's loop ends, and whether a thread has written its id when it is asked for are parameters; \<open>None\<close> means that
  a join still waits.
\<close>

section \<open>Threads\<close>

record thread =
  th_name :: string
  th_id :: "int option"
  thread_handle :: bool

text \<open>\<open>created\<close>: what \<open>pthread_create\<close> came to.  The id is written by the new thread.\<close>

definition Thread_new :: "bool \<Rightarrow> string \<Rightarrow> exn + thread" where
  "Thread_new created name =
     (let name = (if name = [] then ''UNKNOW'' else name)
      in if \<not> created then Inl (RuntimeError ''pthread_create'')
         else Inr \<lparr>th_name = name, th_id = None, thread_handle = True\<rparr>)"

text \<open>The first statements of \<open>Thread::run\<close>: the thread's own variables \<open>cur_thread_name\<close> and \<open>id_\<close>.\<close>

definition Thread_run :: "int \<Rightarrow> thread \<Rightarrow> thread \<times> string" where
  "Thread_run tid t = (t\<lparr>th_id := Some tid\<rparr>, th_name t)"

text \<open>\<open>GetName\<close> after \<open>SetName\<close>: the thread object's name, when there is one, and the thread's own variable.\<close>

definition Thread_SetName :: "string \<Rightarrow> thread option \<times> string \<Rightarrow> thread option \<times> string" where
  "Thread_SetName name cur =
     (if name = [] then cur else (map_option (\<lambda>t. t\<lparr>th_name := name\<rparr>) (fst cur), name))"

definition Thread_join :: "bool \<Rightarrow> int \<Rightarrow> thread \<Rightarrow> (exn + thread) option" where
  "Thread_join ends rt t =
     (if thread_handle t then
        if \<not> ends then None
        else if rt \<noteq> 0 then Some (Inl (RuntimeError ''pthread_join''))
        else Some (Inr (t\<lparr>thread_handle := False\<rparr>))
      else Some (Inr t))"

section \<open>The scheduler\<close>

record scheduler =
  isUseCaller :: bool
  sch_name :: string
  rootFiber :: "string fiber option"
  rootThread :: int
  threadIds :: "int option list"
  threadCnt :: nat
  threadPool :: "thread option list"
  isStopped :: bool

text \<open>
  The constructor: \<open>cur_is_null\<close> says that the calling thread has no scheduler yet, \<open>tid\<close> is its id.  With
  \<open>use_caller\<close> the thread gets the new scheduler as its own.
\<close>

definition Scheduler_new :: "nat \<Rightarrow> bool \<Rightarrow> string \<Rightarrow> bool \<Rightarrow> int \<Rightarrow> exn + scheduler" where
  "Scheduler_new threads use_caller name cur_is_null tid =
     bindE (assertE ''threads <= 0'' (threads > 0)) (\<lambda>_.
     let s = \<lparr>isUseCaller = use_caller, sch_name = name, rootFiber = None, rootThread = 0, threadIds = [],
              threadCnt = 0, threadPool = [], isStopped = False\<rparr>
     in if use_caller then
          bindE (assertE ''GetThis err:cur scheduler is not nullptr'' cur_is_null) (\<lambda>_.
          Inr (s\<lparr>rootFiber := Some (Fiber_new ''run''), rootThread := tid, threadIds := [Some tid], threadCnt := threads - 1\<rparr>))
        else Inr (s\<lparr>rootThread := -1, threadCnt := threads\<rparr>))"

definition Scheduler_delete :: "scheduler \<Rightarrow> exn + unit" where
  "Scheduler_delete s = assertE ''isstopped is false'' (isStopped s)"

text \<open>The loop of \<open>start\<close>: the pool has one slot per thread; \<open>seen i\<close> is what \<open>getId\<close> reads right after the creation.\<close>

fun start_loop :: "(nat \<Rightarrow> bool) \<Rightarrow> (nat \<Rightarrow> int option) \<Rightarrow> nat list \<Rightarrow> scheduler \<Rightarrow> scheduler proc" where
  "start_loop created seen [] s = (s, None)"
| "start_loop created seen (i # ks) s =
     (case Thread_new (created i) (sch_name s @ ''_'' @ dec_string i) of
        Inl e \<Rightarrow> (s, Some e)
      | Inr t \<Rightarrow> start_loop created seen ks
          (s\<lparr>threadPool := (threadPool s)[i := Some t], threadIds := threadIds s @ [seen i]\<rparr>))"

definition Scheduler_start :: "(nat \<Rightarrow> bool) \<Rightarrow> (nat \<Rightarrow> int option) \<Rightarrow> scheduler \<Rightarrow> scheduler proc" where
  "Scheduler_start created seen s =
     (if isStopped s then (s, None)
      else if threadPool s \<noteq> [] then (s, Some (AssertFail ''thread pool is not empty''))
      else start_loop created seen [0..<threadCnt s] (s\<lparr>threadPool := replicate (threadCnt s) None\<rparr>))"

text \<open>
  \<open>stop\<close>.  \<open>stopping\<close> is the value of the virtual function, \<open>cur_is_this\<close> whether the calling thread has this
  scheduler, \<open>root_ends\<close> and \<open>ends i\<close> whether the loop of the root fiber and of thread \<open>i\<close> comes to its end.
\<close>

fun join_all :: "(nat \<Rightarrow> bool) \<Rightarrow> nat \<Rightarrow> thread option list \<Rightarrow> (exn + thread list) option" where
  "join_all ends i [] = Some (Inr [])"
| "join_all ends i (None # ts) = Some (Inl (UndefinedBehaviour ''null thread''))"
| "join_all ends i (Some t # ts) =
     (case Thread_join (ends i) 0 t of
        None \<Rightarrow> None
      | Some (Inl e) \<Rightarrow> Some (Inl e)
      | Some (Inr t) \<Rightarrow> map_option (\<lambda>r. bindE r (\<lambda>ts. Inr (t # ts))) (join_all ends (Suc i) ts))"

definition Scheduler_stop :: "bool \<Rightarrow> bool \<Rightarrow> bool \<Rightarrow> (nat \<Rightarrow> bool) \<Rightarrow> scheduler \<Rightarrow> (exn + scheduler \<times> thread list) option" where
  "Scheduler_stop stopping cur_is_this root_ends ends s =
     (if stopping then Some (Inr (s, []))
      else let s = s\<lparr>isStopped := True\<rparr> in
        if isUseCaller s \<and> \<not> cur_is_this then Some (Inl (AssertFail ''cur thread is not caller thread''))
        else if \<not> isUseCaller s \<and> cur_is_this then Some (Inl (AssertFail ''cur thread is caller thread''))
        else case (case rootFiber s of
                     None \<Rightarrow> Some (Inr s)
                   | Some f \<Rightarrow> if \<not> root_ends then None
                       else Some (bindE (fiber_resume f) (\<lambda>f. bindE (fiber_finish f) (\<lambda>f. Inr (s\<lparr>rootFiber := Some f\<rparr>))))) of
               None \<Rightarrow> None
             | Some (Inl e) \<Rightarrow> Some (Inl e)
             | Some (Inr s) \<Rightarrow>
                 map_option (\<lambda>r. bindE r (\<lambda>joined. Inr (s\<lparr>threadPool := []\<rparr>, joined))) (join_all ends 0 (threadPool s)))"

text \<open>The idle fiber of a plain scheduler: one turn, and whether it goes on.\<close>

definition Scheduler_stopping :: "'c task list \<Rightarrow> nat \<Rightarrow> scheduler \<Rightarrow> bool" where
  "Scheduler_stopping tasks active s = sched_stopping (isStopped s) tasks active"

definition Scheduler_idle :: "'c task list \<Rightarrow> nat \<Rightarrow> scheduler \<Rightarrow> string fiber \<Rightarrow> exn + string fiber \<times> bool" where
  "Scheduler_idle tasks active s f =
     (if \<not> Scheduler_stopping tasks active s then bindE (fiber_yield f) (\<lambda>f. Inr (f, True))
      else bindE (fiber_finish f) (\<lambda>f. Inr (f, False)))"

section \<open>Lemmas\<close>

definition pool_thread :: "scheduler \<Rightarrow> nat \<Rightarrow> thread" where
  "pool_thread s i = \<lparr>th_name = sch_name s @ ''_'' @ dec_string i, th_id = None, thread_handle = True\<rparr>"

lemma start_loop_all:
  "\<forall>i \<in> set ks. created i \<and> i < length (threadPool s) \<Longrightarrow> distinct ks \<Longrightarrow>
   \<exists>s'. start_loop created seen ks s = (s', None) \<and>
     s' = s\<lparr>threadPool := threadPool s', threadIds := threadIds s @ map seen ks\<rparr> \<and> length (threadPool s') = length (threadPool s) \<and>
     (\<forall>j < length (threadPool s). threadPool s' ! j = (if j \<in> set ks then Some (pool_thread s j) else threadPool s ! j))"
proof (induction ks arbitrary: s)
  case (Cons i ks)
  let ?s = "s\<lparr>threadPool := (threadPool s)[i := Some (pool_thread s i)], threadIds := threadIds s @ [seen i]\<rparr>"
  have same: "pool_thread ?s = pool_thread s" by (simp add: fun_eq_iff pool_thread_def)
  obtain s' where s': "start_loop created seen ks ?s = (s', None)"
    "s' = ?s\<lparr>threadPool := threadPool s', threadIds := threadIds ?s @ map seen ks\<rparr>" "length (threadPool s') = length (threadPool s)"
    "\<forall>j < length (threadPool s). threadPool s' ! j = (if j \<in> set ks then Some (pool_thread s j) else threadPool ?s ! j)"
    using Cons.IH [of ?s] Cons.prems unfolding same by auto
  have "start_loop created seen (i # ks) s = (s', None)"
    using s'(1) Cons.prems(1) by (simp add: Thread_new_def pool_thread_def)
  moreover have "s' = s\<lparr>threadPool := threadPool s', threadIds := threadIds s @ map seen (i # ks)\<rparr>" by (subst s'(2)) simp
  ultimately show ?case using s'(3,4) Cons.prems by (auto simp: nth_list_update)
qed simp

lemma start_loop_fails:
  assumes "i \<in> set ks" "\<not> created i"
  shows "\<exists>s'. start_loop created seen ks s = (s', Some (RuntimeError ''pthread_create'')) \<and> isStopped s' = isStopped s"
  using assms(1)
proof (induction ks arbitrary: s)
  case (Cons j ks)
  show ?case
  proof (cases "created j")
    case True
    then have "i \<in> set ks" using Cons.prems assms(2) by auto
    then show ?thesis
      using Cons.IH [of "s\<lparr>threadPool := (threadPool s)[j := Some (pool_thread s j)], threadIds := threadIds s @ [seen j]\<rparr>"] True
      by (simp add: Thread_new_def pool_thread_def)
  qed (auto simp: Thread_new_def)
qed simp

lemma join_all_ends:
  "\<forall>j < length ts. ends (i + j) \<Longrightarrow>
   join_all ends i (map Some ts) = Some (Inr (map (\<lambda>t. t\<lparr>thread_handle := False\<rparr>) ts))"
proof (induction ts arbitrary: i)
  case (Cons t ts)
  then have "ends i" "\<forall>j < length ts. ends (Suc i + j)" by (force, metis Suc_less_eq add_Suc_shift length_Cons)
  then show ?case using Cons.IH [of "Suc i"] by (auto simp: Thread_join_def)
qed simp

section \<open>Properties\<close>

text \<open>
  A scheduler that is started and stopped from the thread that made it: \<open>start\<close> creates every worker (one fewer
  than asked for when the caller works too) under its own name, \<open>stop\<close> joins each of them once, drains the caller's own loop,
  and leaves a stopped scheduler with an empty pool; it can then be destroyed, and cannot be started again.  Before
  that, destroying it fails.
\<close>

theorem scheduler_lifecycle:
  assumes "threads > 0" "\<forall>i < threads. created i \<and> ends i"
  shows "\<exists>s s1 s2 joined. Scheduler_new threads use_caller name True tid = Inr s \<and>
    Scheduler_delete s = Inl (AssertFail ''isstopped is false'') \<and>
    Scheduler_start created seen s = (s1, None) \<and> length (threadIds s1) = threads \<and>
    Scheduler_stop False use_caller True ends s1 = Some (Inr (s2, joined)) \<and>
    map th_name joined = map (\<lambda>i. name @ ''_'' @ dec_string i) [0..<threads - (if use_caller then 1 else 0)] \<and>
    (\<forall>t \<in> set joined. \<not> thread_handle t) \<and> threadPool s2 = [] \<and> Scheduler_delete s2 = Inr () \<and>
    Scheduler_start created seen s2 = (s2, None)"
proof -
  let ?n = "threads - (if use_caller then 1 else 0)"
  define s where "s = \<lparr>isUseCaller = use_caller, sch_name = name,
    rootFiber = (if use_caller then Some (Fiber_new ''run'') else None), rootThread = (if use_caller then tid else -1),
    threadIds = (if use_caller then [Some tid] else []), threadCnt = ?n, threadPool = [], isStopped = False\<rparr>"
  have new: "Scheduler_new threads use_caller name True tid = Inr s" using assms(1) by (simp add: Scheduler_new_def s_def)
  let ?s = "s\<lparr>threadPool := replicate ?n None\<rparr>"
  have "\<forall>i \<in> set [0..<?n]. created i \<and> i < length (threadPool ?s)" using assms(2) by auto
  then obtain s1 where s1: "start_loop created seen [0..<?n] ?s = (s1, None)"
    "s1 = ?s\<lparr>threadPool := threadPool s1, threadIds := threadIds ?s @ map seen [0..<?n]\<rparr>" "length (threadPool s1) = ?n"
    "\<forall>j < ?n. threadPool s1 ! j = Some (pool_thread ?s j)"
    using start_loop_all [of "[0..<?n]" created ?s seen] by auto
  have start: "Scheduler_start created seen s = (s1, None)" using s1(1) by (simp add: Scheduler_start_def s_def)
  have pool: "threadPool s1 = map Some (map (pool_thread ?s) [0..<?n])"
    using s1(3,4) by (intro nth_equalityI) auto
  have frame: "isUseCaller s1 = use_caller" "rootFiber s1 = (if use_caller then Some (Fiber_new ''run'') else None)"
    "threadIds s1 = (if use_caller then [Some tid] else []) @ map seen [0..<?n]" "sch_name s1 = name"
    by (subst s1(2), simp add: s_def)+
  let ?j = "map (\<lambda>t. t\<lparr>thread_handle := False\<rparr>) (map (pool_thread ?s) [0..<?n])"
  have join: "join_all ends 0 (threadPool s1) = Some (Inr ?j)"
    unfolding pool using assms(2) by (intro join_all_ends) auto
  obtain f where f: "fiber_resume (Fiber_new ''run'') = Inr f" "\<exists>f'. fiber_finish f = Inr f'"
    by (simp add: fiber_resume_def fiber_finish_def fiber_yield_def Fiber_new_def)
  then obtain f' where f': "fiber_finish f = Inr f'" by blast
  define s2 where "s2 = s1\<lparr>isStopped := True, rootFiber := (if use_caller then Some f' else None), threadPool := []\<rparr>"
  have stop: "Scheduler_stop False use_caller True ends s1 = Some (Inr (s2, ?j))"
    using frame join f(1) f' by (simp add: Scheduler_stop_def s2_def Let_def)
  have "length (threadIds s1) = threads" using frame(3) assms(1) by simp
  moreover have "map th_name ?j = map (\<lambda>i. name @ ''_'' @ dec_string i) [0..<?n]"
    by (simp add: pool_thread_def s_def)
  moreover have "\<forall>t \<in> set ?j. \<not> thread_handle t" by auto
  moreover have "Scheduler_delete s = Inl (AssertFail ''isstopped is false'')"
    by (simp add: Scheduler_delete_def assertE_def s_def)
  moreover have "threadPool s2 = [] \<and> Scheduler_delete s2 = Inr () \<and> Scheduler_start created seen s2 = (s2, None)"
    by (simp add: s2_def Scheduler_delete_def Scheduler_start_def)
  ultimately show ?thesis using new start stop by blast
qed

theorem scheduler_lifecycle_witness:
  "\<exists>s s1 s2 joined. Scheduler_new 3 True ''io'' True 40 = Inr s \<and> Scheduler_start (\<lambda>_. True) (\<lambda>_. None) s = (s1, None) \<and>
    Scheduler_stop False True True (\<lambda>_. True) s1 = Some (Inr (s2, joined)) \<and> map th_name joined = [''io_0'', ''io_1''] \<and>
    Scheduler_delete s2 = Inr ()"
proof -
  have "map (\<lambda>i. ''io'' @ ''_'' @ dec_string i) [0..<3 - 1] = [''io_0'', ''io_1'']" by code_simp
  then show ?thesis
    using scheduler_lifecycle [of 3 "\<lambda>_. True" "\<lambda>_. True" True "''io''" 40 "\<lambda>_. None"] by fastforce
qed

text \<open>
  When a thread cannot be created, \<open>start\<close> throws and leaves the scheduler running; its destructor then fails
  its assertion.  The constructor of \<open>IOManager\<close> calls \<open>start\<close>, so the exception never reaches the caller: the
  destructor of the base class ends the process on the way out.
\<close>

theorem failed_start_aborts:
  assumes "\<not> isStopped s" "threadPool s = []" "i < threadCnt s" "\<not> created i"
  shows "\<exists>s'. Scheduler_start created seen s = (s', Some (RuntimeError ''pthread_create'')) \<and>
    Scheduler_delete s' = Inl (AssertFail ''isstopped is false'')"
proof -
  have "i \<in> set [0..<threadCnt s]" using assms(3) by simp
  from start_loop_fails [of i "[0..<threadCnt s]" created seen "s\<lparr>threadPool := replicate (threadCnt s) None\<rparr>"]
  show ?thesis using assms \<open>i \<in> set [0..<threadCnt s]\<close> by (auto simp: Scheduler_start_def Scheduler_delete_def assertE_def)
qed

theorem failed_start_aborts_witness:
  "\<exists>s s'. Scheduler_new 2 False ''io'' True 40 = Inr s \<and>
    Scheduler_start (\<lambda>i. i = 0) (\<lambda>_. None) s = (s', Some (RuntimeError ''pthread_create'')) \<and>
    Scheduler_delete s' = Inl (AssertFail ''isstopped is false'')"
proof -
  obtain s where s: "Scheduler_new 2 False ''io'' True 40 = Inr s" "\<not> isStopped s" "threadPool s = []" "threadCnt s = 2"
    by (simp add: Scheduler_new_def)
  from failed_start_aborts [of s 1 "\<lambda>i. i = 0" "\<lambda>_. None"] s show ?thesis by auto
qed

end
