(* ===== verification/Socket_Hooks.thy ===== *)
theory Socket_Hooks
  imports Io_Manager
begin

unbundle bit_operations_syntax

text \<open>
  Descriptors and the hooked system calls: \<open>fiber/fd_manager.cpp\<close> and \<open>fiber/hook.cpp\<close>.

  The system calls behind the hooks are parameters: their results are arguments of the routines, and the
  kernel's file flags are read and written by the routines \<open>sys_getfl\<close>, \<open>sys_setfl\<close> and \<open>sys_fionbio\<close> of a
  record over an unknown kernel state.  A wait is described by what \<open>addEvent\<close> returned and by whether the timer
  fired before the fiber ran again.
\<close>

section \<open>Descriptors\<close>

record fd_info =
  m_isInit :: bool
  m_isSocket :: bool
  m_sysNonblock :: bool
  m_userNonblock :: bool
  m_isClosed :: bool
  m_fd :: int
  m_recvTimeout :: "64 word"
  m_sendTimeout :: "64 word"

record 'os sys =
  sys_fstat :: "'os \<Rightarrow> int \<Rightarrow> bool option"
  sys_getfl :: "'os \<Rightarrow> int \<Rightarrow> 32 word"
  sys_setfl :: "int \<Rightarrow> 32 word \<Rightarrow> 'os \<Rightarrow> 'os \<times> int"
  sys_fionbio :: "int \<Rightarrow> bool \<Rightarrow> 'os \<Rightarrow> 'os \<times> int"

abbreviation O_NONBLOCK :: "32 word" where "O_NONBLOCK \<equiv> 2048"

text \<open>The constructor with \<open>init\<close>; \<open>sys_fstat\<close> is \<open>None\<close> on failure and tells a socket otherwise.\<close>

definition FdCtx_new :: "'os sys \<Rightarrow> int \<Rightarrow> 'os \<Rightarrow> fd_info \<times> 'os" where
  "FdCtx_new sys fd os =
     (let st = sys_fstat sys os fd; sock = (st = Some True);
        flags = sys_getfl sys os fd;
        os' = (if sock \<and> flags AND O_NONBLOCK = 0 then fst (sys_setfl sys fd (flags OR O_NONBLOCK) os) else os)
      in (\<lparr>m_isInit = (st \<noteq> None), m_isSocket = sock, m_sysNonblock = sock, m_userNonblock = False, m_isClosed = False,
          m_fd = fd, m_recvTimeout = - 1, m_sendTimeout = - 1\<rparr>, os'))"

datatype timeout_kind = SO_RCVTIMEO | SO_SNDTIMEO

definition setTimeout :: "timeout_kind \<Rightarrow> 64 word \<Rightarrow> fd_info \<Rightarrow> fd_info" where
  "setTimeout k v c = (if k = SO_RCVTIMEO then c\<lparr>m_recvTimeout := v\<rparr> else c\<lparr>m_sendTimeout := v\<rparr>)"

definition getTimeout :: "timeout_kind \<Rightarrow> fd_info \<Rightarrow> 64 word" where
  "getTimeout k c = (if k = SO_RCVTIMEO then m_recvTimeout c else m_sendTimeout c)"

type_synonym fd_table = "fd_info option list"

definition FdManager_new :: fd_table where
  "FdManager_new = replicate 64 None"

definition FdManager_get :: "'os sys \<Rightarrow> int \<Rightarrow> bool \<Rightarrow> fd_table \<times> 'os \<Rightarrow> exn + (fd_info option \<times> fd_table \<times> 'os)" where
  "FdManager_get sys fd auto_create s =
     (let (tab, os) = s in
      if fd = -1 then Inr (None, tab, os)
      else
        bindE (if int (length tab) \<le> fd then Inr None else at_index ''m_datas'' tab fd) (\<lambda>c.
        if c \<noteq> None \<or> \<not> auto_create then Inr (c, tab, os)
        else
          let (x, os') = FdCtx_new sys fd os;
            tab' = (if fd \<ge> int (length tab)
              then tab @ replicate (nat (fd * 3 div 2) - length tab) None else tab) in
          bindE (upd_index ''m_datas'' tab' fd (Some x)) (\<lambda>tab''. Inr (Some x, tab'', os'))))"

definition FdManager_del :: "int \<Rightarrow> fd_table \<Rightarrow> exn + fd_table" where
  "FdManager_del fd tab = (if int (length tab) \<le> fd then Inr tab else upd_index ''m_datas'' tab fd None)"

text \<open>What \<open>get(fd)\<close> without creation answers; the table and the kernel do not change.\<close>

definition fd_lookup :: "fd_table \<Rightarrow> int \<Rightarrow> fd_info option" where
  "fd_lookup tab fd = (if 0 \<le> fd \<and> fd < int (length tab) then tab ! nat fd else None)"

lemma get_is_lookup: "fd \<ge> -1 \<Longrightarrow> FdManager_get sys fd False (tab, os) = Inr (fd_lookup tab fd, tab, os)"
  by (auto simp: FdManager_get_def fd_lookup_def)

definition fd_tab_ok :: "fd_table \<Rightarrow> bool" where
  "fd_tab_ok tab \<longleftrightarrow> 64 \<le> length tab \<and> (\<forall>fd c. fd_lookup tab fd = Some c \<longrightarrow> m_fd c = fd \<and> \<not> m_isClosed c \<and> m_sysNonblock c = m_isSocket c)"

lemma fd_lookup_new [simp]: "fd_lookup FdManager_new fd = None"
  using nth_replicate [of "nat fd" 64 "None :: fd_info option"] by (auto simp: fd_lookup_def FdManager_new_def)

lemma fd_lookup_update:
  "0 \<le> fd \<Longrightarrow> fd < int (length tab) \<Longrightarrow> fd_lookup (tab[nat fd := c]) fd' = (if fd' = fd then c else fd_lookup tab fd')"
  by (auto simp: fd_lookup_def nth_list_update)

lemma fd_lookup_grow [simp]: "fd_lookup (tab @ replicate n None) fd = fd_lookup tab fd"
  by (auto simp: fd_lookup_def nth_append)

text \<open>\<open>get\<close> with creation: an unknown descriptor is examined and entered, a known one is left alone.\<close>

lemma FdManager_get_create:
  assumes "fd \<ge> 0" "64 \<le> length tab"
  shows "\<exists>tab'. 64 \<le> length tab' \<and> FdManager_get sys fd True (tab, os) =
    (case fd_lookup tab fd of
       Some c \<Rightarrow> Inr (Some c, tab, os)
     | None \<Rightarrow> Inr (Some (fst (FdCtx_new sys fd os)), tab', snd (FdCtx_new sys fd os))) \<and>
    fd_lookup tab' fd = Some (fst (FdCtx_new sys fd os)) \<and>
    (\<forall>fd'. fd' \<noteq> fd \<longrightarrow> fd_lookup tab' fd' = fd_lookup tab fd')"
proof -
  define t where "t = (if fd \<ge> int (length tab) then tab @ replicate (nat (fd * 3 div 2) - length tab) None else tab)"
  have grown: "fd_lookup t fd' = fd_lookup tab fd'" for fd' by (simp add: t_def)
  have len: "fd < int (length t)" using assms by (auto simp: t_def)
  let ?x = "fst (FdCtx_new sys fd os)"
  have "fd_lookup tab fd = None \<Longrightarrow> FdManager_get sys fd True (tab, os) = Inr (Some ?x, t[nat fd := Some ?x], snd (FdCtx_new sys fd os))"
    using assms len by (auto simp: FdManager_get_def fd_lookup_def t_def case_prod_beta split: if_splits)
  moreover have "fd_lookup tab fd = Some c \<Longrightarrow> FdManager_get sys fd True (tab, os) = Inr (Some c, tab, os)" for c
    using assms by (auto simp: FdManager_get_def fd_lookup_def split: if_splits)
  moreover have "64 \<le> length (t[nat fd := Some ?x])" using assms(2) by (simp add: t_def) arith
  ultimately show ?thesis
    using assms len by (intro exI [of _ "t[nat fd := Some ?x]"]) (auto simp: fd_lookup_update grown split: option.split)
qed

lemma FdManager_del_lookup:
  assumes "fd \<ge> 0"
  shows "\<exists>tab'. FdManager_del fd tab = Inr tab' \<and> length tab' = length tab \<and>
    (\<forall>fd'. fd_lookup tab' fd' = (if fd' = fd then None else fd_lookup tab fd'))"
proof (cases "fd < int (length tab)")
  case True
  then show ?thesis using assms by (auto simp: FdManager_del_def fd_lookup_update)
next
  case False
  then show ?thesis using assms by (auto simp: FdManager_del_def fd_lookup_def)
qed

definition fd_modify :: "int \<Rightarrow> (fd_info \<Rightarrow> fd_info) \<Rightarrow> fd_table \<Rightarrow> fd_table" where
  "fd_modify fd f tab = (case fd_lookup tab fd of None \<Rightarrow> tab | Some c \<Rightarrow> tab[nat fd := Some (f c)])"

lemma fd_lookup_modify: "fd_lookup (fd_modify fd f tab) fd' = (if fd' = fd then map_option f (fd_lookup tab fd) else fd_lookup tab fd')"
  by (auto simp: fd_modify_def fd_lookup_def nth_list_update split: option.split)

lemma length_fd_modify [simp]: "length (fd_modify fd f tab) = length tab"
  by (simp add: fd_modify_def split: option.split)

section \<open>The hooked calls on descriptors\<close>

text \<open>\<open>socket\<close> and \<open>accept\<close>: \<open>fd\<close> is what the system call returned.\<close>

definition socket_hook :: "'os sys \<Rightarrow> bool \<Rightarrow> int \<Rightarrow> fd_table \<times> 'os \<Rightarrow> exn + (int \<times> fd_table \<times> 'os)" where
  "socket_hook sys enabled fd s =
     (if \<not> enabled then Inr (fd, s) else if fd = -1 then Inr (fd, s)
      else bindE (FdManager_get sys fd True s) (\<lambda>(_, s). Inr (fd, s)))"

definition accept_hook :: "'os sys \<Rightarrow> int \<Rightarrow> fd_table \<times> 'os \<Rightarrow> exn + (int \<times> fd_table \<times> 'os)" where
  "accept_hook sys fd s =
     (if fd \<ge> 0 then bindE (FdManager_get sys fd True s) (\<lambda>(_, s). Inr (fd, s)) else Inr (fd, s))"

datatype fcntl_cmd = F_SETFL "32 word" | F_GETFL | F_OTHER

text \<open>\<open>other\<close> is what the system call returns for a command that is passed through.\<close>

definition fcntl_hook :: "'os sys \<Rightarrow> int \<Rightarrow> int \<Rightarrow> fcntl_cmd \<Rightarrow> fd_table \<times> 'os \<Rightarrow> exn + (int \<times> fd_table \<times> 'os)" where
  "fcntl_hook sys other fd cmd s =
     (case cmd of
        F_SETFL arg \<Rightarrow>
          bindE (FdManager_get sys fd False s) (\<lambda>(ctx, tab, os).
          case ctx of
            Some c \<Rightarrow>
              if m_isClosed c \<or> \<not> m_isSocket c then (let (os, r) = sys_setfl sys fd arg os in Inr (r, tab, os))
              else
                let tab = fd_modify fd (\<lambda>c. c\<lparr>m_userNonblock := (arg AND O_NONBLOCK \<noteq> 0)\<rparr>) tab;
                  arg = (if m_sysNonblock c then arg OR O_NONBLOCK else arg AND NOT O_NONBLOCK);
                  (os, r) = sys_setfl sys fd arg os
                in Inr (r, tab, os)
          | None \<Rightarrow> let (os, r) = sys_setfl sys fd arg os in Inr (r, tab, os))
      | F_GETFL \<Rightarrow>
          let arg = sys_getfl sys (snd s) fd in
          bindE (FdManager_get sys fd False s) (\<lambda>(ctx, s).
          Inr (sint (case ctx of
             Some c \<Rightarrow> if m_isClosed c \<or> \<not> m_isSocket c then arg
               else if m_userNonblock c then arg OR O_NONBLOCK else arg AND NOT O_NONBLOCK
           | None \<Rightarrow> arg), s))
      | F_OTHER \<Rightarrow> Inr (other, s))"

text \<open>\<open>ioctl\<close> with the request \<open>FIONBIO\<close> and the argument \<open>on\<close>.\<close>

definition ioctl_fionbio_hook :: "'os sys \<Rightarrow> int \<Rightarrow> bool \<Rightarrow> fd_table \<times> 'os \<Rightarrow> exn + (int \<times> fd_table \<times> 'os)" where
  "ioctl_fionbio_hook sys fd on s =
     bindE (FdManager_get sys fd False s) (\<lambda>(ctx, tab, os).
     let tab = (case ctx of
         Some c \<Rightarrow> if m_isClosed c \<or> \<not> m_isSocket c then tab else fd_modify fd (\<lambda>c. c\<lparr>m_userNonblock := on\<rparr>) tab
       | None \<Rightarrow> tab);
       (os, r) = sys_fionbio sys fd on os
     in Inr (r, tab, os))"

text \<open>
  \<open>setsockopt\<close> with level \<open>SOL_SOCKET\<close> and a time out; the seconds and microseconds are C's long integers, whose
  division truncates towards zero.
\<close>

definition timeval_ms :: "int \<Rightarrow> int \<Rightarrow> 64 word" where
  "timeval_ms tv_sec tv_usec = word_of_int (tv_sec * 1000 + sgn tv_usec * (\<bar>tv_usec\<bar> div 1000))"

definition setsockopt_timeout_hook :: "'os sys \<Rightarrow> bool \<Rightarrow> int \<Rightarrow> timeout_kind \<Rightarrow> int \<times> int \<Rightarrow> fd_table \<times> 'os \<Rightarrow> exn + (fd_table \<times> 'os)" where
  "setsockopt_timeout_hook sys enabled fd k v s =
     (if \<not> enabled then Inr s
      else bindE (FdManager_get sys fd False s) (\<lambda>(ctx, tab, os).
        Inr (if ctx \<noteq> None then fd_modify fd (setTimeout k (timeval_ms (fst v) (snd v))) tab else tab, os)))"

text \<open>\<open>close\<close>: everybody waiting on the descriptor is woken; \<open>ret\<close> is what \<open>epoll_ctl\<close> returns.\<close>

definition close_hook :: "'os sys \<Rightarrow> bool \<Rightarrow> bool \<Rightarrow> int \<Rightarrow> int \<Rightarrow> (fd_table \<times> 'os) \<times> 'c iom \<Rightarrow> exn + ((fd_table \<times> 'os) \<times> 'c iom)" where
  "close_hook sys enabled has_iom ret fd s =
     (if \<not> enabled then Inr s
      else bindE (FdManager_get sys fd False (fst s)) (\<lambda>(ctx, tab, os).
        if ctx = None then Inr ((tab, os), snd s)
        else
          bindE (if has_iom then bindE (cancelAll ret fd (snd s)) (\<lambda>(m, _). Inr m) else Inr (snd s)) (\<lambda>m.
          bindE (FdManager_del fd tab) (\<lambda>tab. Inr ((tab, os), m)))))"

section \<open>Sleeping\<close>

text \<open>The times handed to \<open>addTimer\<close>: an unsigned product of 32 bits, a quotient, and an \<open>int\<close> that is widened.\<close>

definition sleep_ms :: "32 word \<Rightarrow> 64 word" where
  "sleep_ms seconds = ucast (seconds * 1000)"

definition usleep_ms :: "32 word \<Rightarrow> 64 word" where
  "usleep_ms usec = ucast (usec div 1000)"

definition nanosleep_ms :: "int \<Rightarrow> int \<Rightarrow> 64 word" where
  "nanosleep_ms tv_sec tv_nsec = scast (word_of_int (tv_sec * 1000 + tv_nsec div 1000 div 1000) :: 32 word)"

section \<open>Reading and writing\<close>

abbreviation EINTR :: nat where "EINTR \<equiv> 4"
abbreviation EBADF :: nat where "EBADF \<equiv> 9"
abbreviation EAGAIN :: nat where "EAGAIN \<equiv> 11"
abbreviation ETIMEDOUT :: nat where "ETIMEDOUT \<equiv> 110"
abbreviation EINPROGRESS :: nat where "EINPROGRESS \<equiv> 115"

text \<open>What a system call returned, with \<open>errno\<close>.\<close>

type_synonym outcome = "int \<times> nat"

text \<open>What happened to one wait: \<open>addEvent\<close>'s answer with \<open>errno\<close>, and whether the timer's condition ran before the fiber.\<close>

record wait_outcome =
  w_ret :: int
  w_errno :: nat
  w_expired :: bool

datatype io_action = TimerAdd "64 word" | TimerCancel | Yield event

text \<open>The loop on interrupted calls.\<close>

fun uninterrupted :: "outcome list \<Rightarrow> (outcome \<times> outcome list) option" where
  "uninterrupted [] = None"
| "uninterrupted ((n, e) # rs) = (if n = -1 \<and> e = EINTR then uninterrupted rs else Some ((n, e), rs))"

text \<open>
  From the label \<open>retry\<close> on.  \<open>None\<close>: the outcomes given are used up and the fiber still waits.
\<close>

fun io_retry :: "event \<Rightarrow> 64 word \<Rightarrow> outcome list \<Rightarrow> wait_outcome list \<Rightarrow> (outcome \<times> io_action list) option" where
  "io_retry ev to calls [] =
     (case uninterrupted calls of None \<Rightarrow> None
      | Some ((n, e), _) \<Rightarrow> if n = -1 \<and> e = EAGAIN then None else Some ((n, e), []))"
| "io_retry ev to calls (w # ws) =
     (case uninterrupted calls of None \<Rightarrow> None
      | Some ((n, e), calls) \<Rightarrow>
          if n = -1 \<and> e = EAGAIN then
            let armed = (to \<noteq> - 1); pre = (if armed then [TimerAdd to] else []); post = (if armed then [TimerCancel] else []) in
            if w_ret w \<noteq> 0 then Some ((-1, w_errno w), pre @ post)
            else if armed \<and> w_expired w then Some ((-1, ETIMEDOUT), pre @ [Yield ev] @ post)
            else map_option (\<lambda>(r, acts). (r, pre @ [Yield ev] @ post @ acts)) (io_retry ev to calls ws)
          else Some ((n, e), []))"

definition first_call :: "outcome list \<Rightarrow> (outcome \<times> io_action list) option" where
  "first_call calls = (case calls of [] \<Rightarrow> None | r # _ \<Rightarrow> Some (r, []))"

definition do_io :: "bool \<Rightarrow> fd_info option \<Rightarrow> event \<Rightarrow> timeout_kind \<Rightarrow> outcome list \<Rightarrow> wait_outcome list \<Rightarrow> (outcome \<times> io_action list) option" where
  "do_io enabled ctx ev k calls waits =
     (if \<not> enabled then first_call calls
      else case ctx of None \<Rightarrow> first_call calls
        | Some c \<Rightarrow>
            if m_isClosed c then Some ((-1, EBADF), [])
            else if \<not> m_isSocket c \<or> m_userNonblock c then first_call calls
            else io_retry ev (getTimeout k c) calls waits)"

text \<open>
  \<open>connect_with_timeout\<close>: \<open>call\<close> is the outcome of \<open>connect\<close>, \<open>w\<close> of the wait, \<open>opt\<close> of reading \<open>SO_ERROR\<close>: the
  return value, \<open>errno\<close> and the socket's error.
\<close>

definition connect_with_timeout ::
  "bool \<Rightarrow> fd_info option \<Rightarrow> 64 word \<Rightarrow> outcome \<Rightarrow> wait_outcome \<Rightarrow> int \<times> nat \<times> nat \<Rightarrow> outcome \<times> io_action list" where
  "connect_with_timeout enabled ctx timeout_ms call w opt =
     (if \<not> enabled then (call, [])
      else case ctx of None \<Rightarrow> ((-1, EBADF), [])
        | Some c \<Rightarrow>
            if m_isClosed c then ((-1, EBADF), [])
            else if \<not> m_isSocket c \<or> m_userNonblock c then (call, [])
            else if fst call = 0 then (call, [])
            else if fst call \<noteq> -1 \<or> snd call \<noteq> EINPROGRESS then (call, [])
            else
              let armed = (timeout_ms \<noteq> - 1); pre = (if armed then [TimerAdd timeout_ms] else []);
                post = (if armed then [TimerCancel] else []);
                (ret, err, so_error) = opt in
              if w_ret w = 0 \<and> armed \<and> w_expired w then ((-1, ETIMEDOUT), pre @ [Yield WRITE] @ post)
              else (if ret = -1 then (-1, err) else if so_error = 0 then (0, err) else (-1, so_error),
                    if w_ret w = 0 then pre @ [Yield WRITE] @ post else pre @ post))"

section \<open>What a hooked call answers\<close>

definition final :: "outcome \<Rightarrow> bool" where
  "final r \<longleftrightarrow> \<not> (fst r = -1 \<and> (snd r = EINTR \<or> snd r = EAGAIN))"

lemma uninterrupted_Some:
  "uninterrupted rs = Some (r, rest) \<Longrightarrow> \<exists>pre. rs = pre @ r # rest \<and> (\<forall>x \<in> set pre. x = (-1, EINTR)) \<and> r \<noteq> (-1, EINTR)"
proof (induction rs rule: uninterrupted.induct)
  case (2 n e rs)
  show ?case
  proof (cases "n = -1 \<and> e = EINTR")
    case True
    then obtain pre where "rs = pre @ r # rest" "\<forall>x \<in> set pre. x = (-1, EINTR)" "r \<noteq> (-1, EINTR)" using 2 by auto
    then show ?thesis using True by (intro exI [of _ "(-1, EINTR) # pre"]) auto
  next
    case False
    then show ?thesis using "2.prems" by (intro exI [of _ "[]"]) auto
  qed
qed simp

definition balanced :: "io_action list \<Rightarrow> bool" where
  "balanced acts \<longleftrightarrow> length (filter (\<lambda>a. \<exists>t. a = TimerAdd t) acts) = length (filter (\<lambda>a. a = TimerCancel) acts)"

lemma balanced_simps [simp]: "balanced []" "balanced (TimerAdd t # TimerCancel # acts) = balanced acts"
  "balanced (TimerAdd t # Yield ev # TimerCancel # acts) = balanced acts" "balanced (Yield ev # acts) = balanced acts"
  by (simp_all add: balanced_def)

lemma io_retry_result:
  assumes "io_retry ev to calls ws = Some (r, acts)"
  shows "(r \<in> set calls \<and> final r \<or> r = (-1, ETIMEDOUT) \<and> to \<noteq> -1 \<or> (\<exists>w \<in> set ws. w_ret w \<noteq> 0 \<and> r = (-1, w_errno w))) \<and> balanced acts"
  using assms
proof (induction ev to calls ws arbitrary: acts rule: io_retry.induct)
  case (1 ev to calls)
  then obtain n e rest where u: "uninterrupted calls = Some ((n, e), rest)" by (auto split: option.splits)
  with 1 uninterrupted_Some [OF u] show ?case by (auto simp: final_def split: if_splits)
next
  case (2 ev to calls w ws)
  then obtain n e rest where u: "uninterrupted calls = Some ((n, e), rest)" by (auto split: option.splits)
  then obtain pre where calls: "calls = pre @ (n, e) # rest" "(n, e) \<noteq> (-1, EINTR)" using uninterrupted_Some by blast
  show ?case
  proof (cases "n = -1 \<and> e = EAGAIN \<and> w_ret w = 0 \<and> \<not> (to \<noteq> -1 \<and> w_expired w)")
    case True
    then obtain acts' where rec: "io_retry ev to rest ws = Some (r, acts')"
      and acts: "acts = (if to \<noteq> -1 then [TimerAdd to, Yield ev, TimerCancel] else [Yield ev]) @ acts'"
      using "2.prems" u by (auto simp: Let_def split: if_splits)
    with "2.IH" [OF u refl refl] True show ?thesis using calls(1) by auto
  next
    case False
    with "2.prems" u calls show ?thesis by (auto simp: final_def Let_def split: if_splits)
  qed
qed

lemma uninterrupted_skip: "r \<noteq> (-1, EINTR) \<Longrightarrow> uninterrupted (replicate k (-1, EINTR) @ r # rs) = Some (r, rs)"
  by (induction k) (cases r, auto)+

text \<open>The rounds of waiting: each call that is not ready is followed by one wait.\<close>

definition attempts :: "nat list \<Rightarrow> outcome list" where
  "attempts ks = concat (map (\<lambda>k. replicate k (-1, EINTR) @ [(-1, EAGAIN)]) ks)"

lemma attempts_simps [simp]: "attempts [] = []" "attempts (k # ks) = replicate k (-1, EINTR) @ (-1, EAGAIN) # attempts ks"
  by (simp_all add: attempts_def)

lemma io_retry_waits:
  assumes "\<forall>w \<in> set ws. w_ret w = 0 \<and> \<not> (to \<noteq> -1 \<and> w_expired w)" "final r"
    "calls = attempts ks @ replicate j (-1, EINTR) @ r # rest"
    "length ks \<le> length ws"
  shows "\<exists>acts. io_retry ev to calls ws = Some (r, acts) \<and> length (filter (\<lambda>a. a = Yield ev) acts) = length ks"
  using assms
proof (induction ks arbitrary: ws calls)
  case Nil
  then have "r \<noteq> (-1, EINTR)" by (auto simp: final_def)
  then have "uninterrupted calls = Some (r, rest)" using Nil uninterrupted_skip [of r j rest] by simp
  then show ?case using Nil by (cases ws; cases r) (auto simp: final_def)
next
  case (Cons k ks)
  then obtain w ws' where ws: "ws = w # ws'" by (cases ws) auto
  let ?rest = "attempts ks @ replicate j (-1, EINTR) @ r # rest"
  obtain acts where "io_retry ev to ?rest ws' = Some (r, acts)" "length (filter (\<lambda>a. a = Yield ev) acts) = length ks"
    using Cons.IH [of ws' ?rest] Cons.prems ws by auto
  moreover have "uninterrupted calls = Some ((-1, EAGAIN), ?rest)"
    using Cons.prems(3) uninterrupted_skip [of "(-1, EAGAIN)" k ?rest] by simp
  ultimately show ?case using Cons.prems(1) ws by (auto simp: Let_def)
qed

text \<open>
  C26: A hooked call on a blocking socket.  When it returns, the result is one that the system call gave and that is
  neither "interrupted" nor "not ready", or the time-out of a socket that has one, or the failure of registering the
  event; and every timer it set has been cancelled.  It does return when some attempt is ready and no wait before it
  fails or times out: then the result is that attempt's, after one yield for every attempt that was not ready.
\<close>

theorem hooked_io_result:
  assumes "m_isSocket c" "\<not> m_userNonblock c" "\<not> m_isClosed c"
  shows "(\<forall>r acts. do_io True (Some c) ev k calls waits = Some (r, acts) \<longrightarrow>
      (r \<in> set calls \<and> final r \<or> r = (-1, ETIMEDOUT) \<and> getTimeout k c \<noteq> -1 \<or> (\<exists>w \<in> set waits. w_ret w \<noteq> 0 \<and> r = (-1, w_errno w))) \<and>
      balanced acts) \<and>
    (\<forall>ks j r rest. calls = attempts ks @ replicate j (-1, EINTR) @ r # rest \<longrightarrow> final r \<longrightarrow>
      length ks \<le> length waits \<longrightarrow> (\<forall>w \<in> set waits. w_ret w = 0 \<and> \<not> (getTimeout k c \<noteq> -1 \<and> w_expired w)) \<longrightarrow>
      (\<exists>acts. do_io True (Some c) ev k calls waits = Some (r, acts) \<and> length (filter (\<lambda>a. a = Yield ev) acts) = length ks))"
proof (intro conjI allI impI; (elim conjE)?)
  have io: "do_io True (Some c) ev k calls waits = io_retry ev (getTimeout k c) calls waits"
    using assms by (simp add: do_io_def)
  fix r acts
  assume "do_io True (Some c) ev k calls waits = Some (r, acts)"
  from io_retry_result [OF this [unfolded io]]
  show "r \<in> set calls \<and> final r \<or> r = (-1, ETIMEDOUT) \<and> getTimeout k c \<noteq> -1 \<or> (\<exists>w \<in> set waits. w_ret w \<noteq> 0 \<and> r = (-1, w_errno w))"
    "balanced acts" by blast+
next
  fix ks j r rest
  assume "calls = attempts ks @ replicate j (-1, EINTR) @ r # rest" "final r" "length ks \<le> length waits"
    "\<forall>w \<in> set waits. w_ret w = 0 \<and> \<not> (getTimeout k c \<noteq> -1 \<and> w_expired w)"
  then show "\<exists>acts. do_io True (Some c) ev k calls waits = Some (r, acts) \<and> length (filter (\<lambda>a. a = Yield ev) acts) = length ks"
    using io_retry_waits [of waits "getTimeout k c" r calls ks j rest ev] assms by (simp add: do_io_def)
qed

definition demo_socket :: fd_info where
  "demo_socket = \<lparr>m_isInit = True, m_isSocket = True, m_sysNonblock = True, m_userNonblock = False, m_isClosed = False,
     m_fd = 9, m_recvTimeout = 300, m_sendTimeout = - 1\<rparr>"

theorem hooked_io_result_witness:
  "\<exists>acts. do_io True (Some demo_socket) READ SO_RCVTIMEO [(-1, EINTR), (-1, EAGAIN), (5, 0)] [\<lparr>w_ret = 0, w_errno = 0, w_expired = False\<rparr>] =
     Some ((5, 0), acts) \<and> length (filter (\<lambda>a. a = Yield READ) acts) = 1 \<and> balanced acts"
proof -
  let ?calls = "[(-1, EINTR), (-1, EAGAIN), (5, 0)]" and ?waits = "[\<lparr>w_ret = 0, w_errno = 0, w_expired = False\<rparr>]"
  have "m_isSocket demo_socket" "\<not> m_userNonblock demo_socket" "\<not> m_isClosed demo_socket"
    by (simp_all add: demo_socket_def)
  note main = hooked_io_result [OF this, of READ SO_RCVTIMEO ?calls ?waits]
  have calls: "?calls = attempts [1] @ replicate 0 (-1, EINTR) @ (5, 0) # []" and final: "final (5, 0)"
    by (simp_all add: final_def)
  have "\<exists>acts. do_io True (Some demo_socket) READ SO_RCVTIMEO ?calls ?waits = Some ((5, 0), acts) \<and>
      length (filter (\<lambda>a. a = Yield READ) acts) = length [1 :: nat]"
    by (rule main [THEN conjunct2, rule_format, OF calls final]) simp_all
  then obtain acts where run: "do_io True (Some demo_socket) READ SO_RCVTIMEO ?calls ?waits = Some ((5, 0), acts)"
    and one: "length (filter (\<lambda>a. a = Yield READ) acts) = 1" by (elim exE conjE) (rule that, assumption, simp only: list.size One_nat_def add_0)
  have "balanced acts" by (rule main [THEN conjunct1, rule_format, OF run, THEN conjunct2])
  with run one show ?thesis by blast
qed

section \<open>Flags\<close>

lemma fd_lookup_range: "fd_lookup tab fd = Some c \<Longrightarrow> 0 \<le> fd \<and> fd < int (length tab)"
  by (auto simp: fd_lookup_def split: if_splits)

lemma and_or_not: "(x OR m) AND m = (m :: 32 word)" "x AND NOT m AND m = (0 :: 32 word)"
  by (rule bit_word_eqI; auto simp: bit_simps)+

lemma and_2049 [simp]: "(x AND - 2049) AND O_NONBLOCK = (0 :: 32 word)"
  by (simp add: and.assoc)

text \<open>
  C28: \<open>fcntl(F_SETFL)\<close> on a hooked socket keeps the kernel's descriptor nonblocking, and a later \<open>fcntl(F_GETFL)\<close>
  reports the nonblocking flag that the program last set and every other flag from the kernel.
\<close>

theorem fcntl_nonblock_roundtrip:
  assumes "fd_tab_ok tab" "fd_lookup tab fd = Some c" "m_isSocket c"
  shows "\<exists>tab'. fd_tab_ok tab' \<and>
    fcntl_hook sys o1 fd (F_SETFL arg) (tab, os) =
      Inr (snd (sys_setfl sys fd (arg OR O_NONBLOCK) os), tab', fst (sys_setfl sys fd (arg OR O_NONBLOCK) os)) \<and>
    (\<forall>os'. \<exists>flags. fcntl_hook sys o2 fd F_GETFL (tab', os') = Inr (sint flags, tab', os') \<and>
       flags AND O_NONBLOCK = (if arg AND O_NONBLOCK \<noteq> 0 then O_NONBLOCK else 0) \<and>
       flags AND NOT O_NONBLOCK = sys_getfl sys os' fd AND NOT O_NONBLOCK)"
proof -
  let ?f = "\<lambda>c. c\<lparr>m_userNonblock := (arg AND O_NONBLOCK \<noteq> 0)\<rparr>"
  have c: "m_sysNonblock c" "\<not> m_isClosed c" "fd \<ge> -1"
    using assms fd_lookup_range [OF assms(2)] by (auto simp: fd_tab_ok_def)
  have "fd_tab_ok (fd_modify fd ?f tab)"
    using assms(1) by (auto simp: fd_tab_ok_def fd_lookup_modify split: if_splits)
  moreover have "fcntl_hook sys o1 fd (F_SETFL arg) (tab, os) =
      Inr (snd (sys_setfl sys fd (arg OR O_NONBLOCK) os), fd_modify fd ?f tab, fst (sys_setfl sys fd (arg OR O_NONBLOCK) os))"
    using assms c by (simp add: fcntl_hook_def get_is_lookup case_prod_beta Let_def)
  moreover have "\<exists>flags. fcntl_hook sys o2 fd F_GETFL (fd_modify fd ?f tab, os') = Inr (sint flags, fd_modify fd ?f tab, os') \<and>
       flags AND O_NONBLOCK = (if arg AND O_NONBLOCK \<noteq> 0 then O_NONBLOCK else 0) \<and>
       flags AND NOT O_NONBLOCK = sys_getfl sys os' fd AND NOT O_NONBLOCK" for os'
    using assms c
    by (intro exI [of _ "if arg AND O_NONBLOCK \<noteq> 0 then sys_getfl sys os' fd OR O_NONBLOCK else sys_getfl sys os' fd AND NOT O_NONBLOCK"])
      (simp add: fcntl_hook_def get_is_lookup fd_lookup_modify and_or_not bit.conj_disj_distrib2)
  ultimately show ?thesis by blast
qed

text \<open>A kernel that keeps the flags of one descriptor.\<close>

definition flag_sys :: "(32 word) sys" where
  "flag_sys = \<lparr>sys_fstat = (\<lambda>_ fd. if fd = 9 then Some True else None), sys_getfl = (\<lambda>os _. os), sys_setfl = (\<lambda>_ v _. (v, 0)),
     sys_fionbio = (\<lambda>_ b os. (if b then os OR O_NONBLOCK else os AND NOT O_NONBLOCK, 0))\<rparr>"

lemma demo_tab_ok: "fd_tab_ok (FdManager_new[9 := Some demo_socket])"
  "fd_lookup (FdManager_new[9 := Some demo_socket]) 9 = Some demo_socket" "m_isSocket demo_socket"
proof -
  have "fd_lookup (FdManager_new[nat 9 := Some demo_socket]) fd = (if fd = 9 then Some demo_socket else None)" for fd
    using fd_lookup_update [of 9 FdManager_new] fd_lookup_new [of fd] by (simp add: FdManager_new_def)
  then show "fd_tab_ok (FdManager_new[9 := Some demo_socket])" "fd_lookup (FdManager_new[9 := Some demo_socket]) 9 = Some demo_socket"
    "m_isSocket demo_socket"
    by (simp_all add: fd_tab_ok_def demo_socket_def) (simp add: FdManager_new_def)
qed

theorem fcntl_nonblock_roundtrip_witness:
  "\<exists>tab'. fd_tab_ok tab' \<and>
    fcntl_hook flag_sys 0 9 (F_SETFL 2) (FdManager_new[9 := Some demo_socket], 2050) = Inr (0, tab', 2050) \<and>
    fcntl_hook flag_sys 0 9 F_GETFL (tab', 2050) = Inr (2, tab', 2050)"
proof -
  from fcntl_nonblock_roundtrip [OF demo_tab_ok, of flag_sys 0 2 2050 0]
  obtain tab' flags where "fd_tab_ok tab'"
    "fcntl_hook flag_sys 0 9 (F_SETFL 2) (FdManager_new[9 := Some demo_socket], 2050) = Inr (0, tab', 2050)"
    and g: "fcntl_hook flag_sys 0 9 F_GETFL (tab', 2050) = Inr (sint flags, tab', 2050)"
    "flags AND O_NONBLOCK = 0" "flags AND NOT O_NONBLOCK = 2"
    by (fastforce simp: flag_sys_def)
  moreover have "flags = (flags AND NOT O_NONBLOCK) OR (flags AND O_NONBLOCK)"
    by (rule bit_word_eqI) (auto simp: bit_simps)
  then have "flags = 2" using g(2,3) by simp
  ultimately show ?thesis by auto
qed

text \<open>
  \<open>ioctl(FIONBIO)\<close> with the argument 0 makes the kernel's descriptor blocking, as far as the kernel does what it is
  asked, while the table goes on taking it for nonblocking.
\<close>

theorem ioctl_makes_socket_blocking:
  assumes "fd_tab_ok tab" "fd_lookup tab fd = Some c" "m_isSocket c"
    "\<And>os. sys_getfl sys (fst (sys_fionbio sys fd False os)) fd AND O_NONBLOCK = 0"
  shows "\<exists>r tab' os' c'. ioctl_fionbio_hook sys fd False (tab, os) = Inr (r, tab', os') \<and>
    fd_lookup tab' fd = Some c' \<and> m_sysNonblock c' \<and> \<not> m_userNonblock c' \<and> sys_getfl sys os' fd AND O_NONBLOCK = 0"
proof -
  have "m_sysNonblock c" "\<not> m_isClosed c" "fd \<ge> -1"
    using assms(1-3) fd_lookup_range [OF assms(2)] by (auto simp: fd_tab_ok_def)
  then show ?thesis
    using assms by (simp add: ioctl_fionbio_hook_def get_is_lookup case_prod_beta fd_lookup_modify)
qed

theorem ioctl_makes_socket_blocking_witness:
  "\<exists>r tab' os' c'. ioctl_fionbio_hook flag_sys 9 False (FdManager_new[9 := Some demo_socket], 2050) = Inr (r, tab', os') \<and>
    fd_lookup tab' 9 = Some c' \<and> m_sysNonblock c' \<and> \<not> m_userNonblock c' \<and> sys_getfl flag_sys os' 9 AND O_NONBLOCK = 0"
  by (rule ioctl_makes_socket_blocking [OF demo_tab_ok]) (simp add: flag_sys_def)

section \<open>Connecting, closing, sleeping\<close>

text \<open>
  When the event cannot be registered, a connection that is still in progress is reported as made: the socket has
  no error yet.
\<close>

lemma unfinished_connect_succeeds:
  assumes "m_isSocket c" "\<not> m_userNonblock c" "\<not> m_isClosed c" "w_ret w \<noteq> 0" "ret \<noteq> -1"
  shows "fst (connect_with_timeout True (Some c) to (-1, EINPROGRESS) w (ret, err, 0)) = (0, err)"
  using assms by (simp add: connect_with_timeout_def Let_def)

text \<open>Closing a descriptor of the table forgets it and leaves nobody waiting on it.\<close>

lemma cancelAll_clears:
  assumes "iom_ok m" "cancelAll 0 fd m = Inr (m', b)" "fd < int (length (fdContexts m))"
  shows "\<exists>c. ctx_at fd m' = Inr c \<and> fc_events c = 0"
  using assms(2,3) unfolding cancelAll_def
  by (auto simp: bindE_Inr_iff assertE_Inr_iff split: if_split_asm)

theorem close_forgets:
  assumes "iom_ok m" "fd_lookup tab fd = Some c" "close_hook sys True True 0 fd ((tab, os), m) = Inr ((tab', os'), m')"
  shows "fd_lookup tab' fd = None" "iom_ok m'" "\<And>x. ctx_at fd m' = Inr x \<Longrightarrow> ctx_waiters x = []"
proof -
  have fd: "fd \<ge> 0" using fd_lookup_range [OF assms(2)] by simp
  then obtain b where c: "cancelAll 0 fd m = Inr (m', b)" and d: "FdManager_del fd tab = Inr tab'"
    using assms(2,3) by (auto simp: close_hook_def get_is_lookup bindE_Inr_iff)
  show "fd_lookup tab' fd = None" using FdManager_del_lookup [OF fd, of tab] d by auto
  show "iom_ok m'" using cancelAll_moves [OF assms(1) c] by (rule moved_ok)
  show "ctx_waiters x = []" if "ctx_at fd m' = Inr x" for x
  proof (cases "fd < int (length (fdContexts m))")
    case True
    then show ?thesis using cancelAll_clears [OF assms(1) c] that by (auto simp: ctx_waiters_def)
  next
    case False
    then show ?thesis using c that by (auto simp: cancelAll_def ctx_at_def at_index_Inr_iff)
  qed
qed

text \<open>Sleeps of up to 49 days are kept; the product of a longer one wraps, and so does the widened \<open>int\<close> after 24 days.\<close>

lemma sleep_ms_exact: "unat s < 4294968 \<Longrightarrow> unat (sleep_ms s) = unat s * 1000"
  using unsigned_less [of "s * 1000"]
  by (simp add: sleep_ms_def unsigned_ucast_eq take_bit_nat_eq_self_iff unat_word_ariths)

lemma sleep_ms_wraps: "sleep_ms 4294968 = 704"
  by (simp add: sleep_ms_def)

lemma nanosleep_ms_wraps: "nanosleep_ms 2147484 0 = - 2147483296"
  by (simp add: nanosleep_ms_def)

text \<open>A time-out of zero, which asks for none, becomes a timer of zero milliseconds.\<close>

lemma zero_timeout_expires:
  "do_io True (Some (setTimeout SO_RCVTIMEO (timeval_ms 0 0) demo_socket)) READ SO_RCVTIMEO [(-1, EAGAIN)]
     [\<lparr>w_ret = 0, w_errno = 0, w_expired = True\<rparr>] = Some ((-1, ETIMEDOUT), [TimerAdd 0, Yield READ, TimerCancel])"
  by (simp add: do_io_def demo_socket_def setTimeout_def getTimeout_def timeval_ms_def Let_def)

end
