(* ===== verification/Spec2Isabelle.thy ===== *)
theory Spec2Isabelle
  imports Kv_Rpc_Props Restart_Props Raft_Defects Client_Props Rpc_Header Thread_Pool Metrics Locks
    Idle_Loop Scheduler_Life Socket_Hooks
begin

text \<open>
  A verification development for KV-Raft-Storage, a replicated key-value store in C++.

  \<^bold>\<open>The program.\<close>  A cluster of servers holds the same key-value data.  A client (\<open>raftClerk\<close>) reads the
  addresses of the servers from a file the servers append to, numbers its requests and sends each to one server
  after another until one accepts.  The request travels through a small RPC framework (\<open>rpc\<close>).  A server
  (\<open>raftCore/kvServer.cpp\<close>) hands a write to its Raft node (\<open>raftCore/raft.cpp\<close>), which replicates a log of
  commands, keeps term, vote and log in a file (\<open>raftCore/Persister.cpp\<close>) and pushes committed commands into a
  queue.  The server's apply loop takes them out, skips requests it has seen, runs the others on a storage engine
  (\<open>storage/include\<close>, \<open>skipList/include\<close>) and wakes the handler that waits.  Reads are confirmed by a
  read index instead of a log entry.  The node's timers run on a coroutine library (\<open>fiber\<close>); the RPC server
  runs requests on a thread pool (\<open>common/include/threadPool.h\<close>).

  \<^bold>\<open>How the code is read.\<close>  One theory models one part, with the names of the source.  A class is a record, a
  method a function from the old state to the new one, run as one step when the method holds its mutex.  A method
  that waits or calls another server is split there, into the part before and the part after; what comes back is an
  argument.  Exceptions, failed assertions (\<open>myAssert\<close>, \<open>CondPanic\<close>, which end the process), undefined
  behaviour and loops that never end are the constructors of \<open>exn\<close> in \<open>KV_Prelude\<close>; a method that may fail returns
  \<open>exn + result\<close>.  Signed integers of the source that only count terms and indices are unbounded; times, sizes,
  ports, event sets and file flags are words of their width, so that their overflow is part of the theorems.

  \<^bold>\<open>The theories.\<close>

  \<^item> \<open>KV_Prelude\<close>: failures and their composition, sorted maps, byte strings and decimal numbers, list lemmas.
  \<^item> \<open>Raft_Types\<close> (messages of \<open>raftRPC.proto\<close>, \<open>ApplyMsg.h\<close>, \<open>Op\<close> of \<open>util.h\<close>), \<open>Persister\<close>,
    \<open>Raft_Node\<close> (every operation of \<open>raft.cpp\<close>); \<open>Raft_Log\<close>, \<open>Raft_Wf\<close>, \<open>Raft_Handlers\<close>,
    \<open>Raft_Leader\<close>: the loops and handlers in closed form and the invariant \<open>raft_wf\<close> of one node;
    \<open>Raft_Node_Props\<close>: what one node answers, persists, commits, applies and restores.
  \<^item> \<open>Raft_Cluster\<close> (several nodes, a network that loses, repeats and reorders, restarts at any moment),
    \<open>Raft_Votes\<close>, \<open>Raft_Election\<close> (the interface \<open>quorum_system\<close> and the counting argument),
    \<open>Raft_Safety\<close> (the invariant of elections, step by step), \<open>Raft_Props\<close>; \<open>Archive_Instance\<close> shows that the
    parameters of the node can be met; \<open>Raft_Defects\<close> holds evaluated runs that depart from the protocol.
  \<^item> \<open>Kv_Engine\<close>: the class \<open>KVEngine\<close> as a record of operations, its contract as the locales \<open>kv_engine\<close>
    and \<open>total_engine\<close>.  \<open>Skip_List\<close>, \<open>Skip_List_Proofs\<close> and \<open>Skiplist_Engine\<close> model \<open>skipList.h\<close> and
    \<open>skiplist_engine.h\<close> on a heap and prove the contract; \<open>Lru_Cache\<close> and \<open>Cached_Engine\<close> do the same for
    \<open>lru_cache.h\<close> and \<open>cached_kv_engine.h\<close> over any engine; \<open>Byte_Codec\<close>, \<open>Lsm_Table\<close>, \<open>Lsm_Engine\<close>,
    \<open>Lsm_Proofs\<close>, \<open>Lsm_Recovery\<close> (the log alone), \<open>Lsm_Restart\<close> (log, tables and manifest) and \<open>Lsm_Life\<close>
    (any sequence of operations, turns of the background worker and restarts) for \<open>lsm_tree_engine.h\<close>, with its files as byte strings; \<open>Storage_Props\<close> and \<open>Restart_Props\<close> state what follows.
  \<^item> \<open>Kv_Server\<close> (every operation of \<open>kvServer.cpp\<close> over any engine), \<open>Kv_Apply\<close> (the abstract state machine
    \<open>kv_exec\<close> and the refinement, inside the engine contract), \<open>Kv_Run\<close> (whole logs, restarts), \<open>Kv_Rpc\<close> (waiting
    handlers as steps), \<open>Kv_Demo\<close> (concrete parameters), \<open>Kv_Props\<close>, \<open>Kv_Rpc_Props\<close>.
  \<^item> \<open>Clerk\<close> (\<open>clerk.cpp\<close>), \<open>Config_File\<close> (\<open>mprpcconfig.cpp\<close>, the appending in \<open>rpcprovider.cpp\<close> and the
    search for a port in \<open>util.cpp\<close>), \<open>Client_Props\<close>; \<open>Rpc\<close> and \<open>Rpc_Props\<close> (\<open>mprpcchannel.cpp\<close> and
    \<open>OnMessage\<close>, byte by byte), \<open>Rpc_Header\<close> (the message class in \<open>rpcheader.pb.cpp\<close> that frames requests).
  \<^item> \<open>Thread_Pool\<close> (\<open>threadPool.h\<close>), \<open>Metrics\<close> (\<open>metrics.h\<close>).
  \<^item> \<open>Timer\<close> (\<open>fiber/timer.cpp\<close>), \<open>Io_Manager\<close> (fibers, the scheduler's queue, the event table of
    \<open>iomanager.cpp\<close>), \<open>Idle_Loop\<close> (the idle fiber's turn, where timers and events meet), \<open>Scheduler\<close> (a
    worker's turn in \<open>scheduler.cpp\<close>), \<open>Scheduler_Life\<close> (starting and stopping, \<open>thread.cpp\<close>), \<open>Locks\<close> (\<open>mutex.hpp\<close>), \<open>Socket_Hooks\<close> (\<open>fd_manager.cpp\<close>, \<open>hook.cpp\<close>).

  \<^bold>\<open>What is shown.\<close>  For the cluster: at most one leader per term over all reachable states, and an invariant of
  every node.  For the node: when it votes, accepts entries, commits and applies, and that a restart gives back what
  was persisted.  For the server: applying any committed log computes the abstract state machine, repeated requests
  take effect once, a snapshot restores the server, replicas on different engines agree, and no handler uses a queue
  that was deleted.  For the engines: each refines a map, its background work changes no answer, and an
  engine with a log and a manifest keeps every acknowledged update through any sequence of flushes, compactions, turns
  of the background worker, snapshots put in place and restarts, as long as every write of a file completes.  For the client and the RPC layer: calls return once a server accepts, requests
  cut into pieces are reassembled by the sender's loop, headers are parsed as they were serialized, the cluster file is
  read back.  For the pool and the coroutine
  library: tasks run once and in order, due timers fire in order and are not slept over, a waiter of the event table is woken
  or dropped exactly once, a guard is locked exactly when its thread holds the mutex, hooked calls return only final
  results.  A group of theorems states where the code does not do what
  it means to; each is a concrete run or holds for every state its hypotheses describe.

  \<^bold>\<open>Bounds.\<close>  A walk in the skip list has as many steps as nodes were ever allocated; a longer walk has met a node
  twice and is the value \<open>Diverges\<close>, which the refinement excludes.  The client's loops, which may call for ever, and
  the loop on \<open>std::rand\<close> are partial functions into options; that they return is proved.  All other loops are
  total functions with a measure.

  \<^bold>\<open>Parameters.\<close>  The boost archives, the protobuf encoding, \<open>std::hash\<close>, \<open>std::rand\<close>, the file system, the
  clock, and the results of socket, epoll and flag system calls.  What is asked of them (reading gives back what was
  written, codes are prefix free, hash values are words) stands as a hypothesis in the theorems, and the
  witnesses use instances.

  \<^bold>\<open>Not modelled.\<close>  The classes \<open>protoc\<close> generated for the Raft and server messages, which follow the pattern of the
  header (their round trip is a parameter), and the descriptors and reflection of all; set-up of sockets and of the
  muduo server, the threads of the Raft node and the server at start-up, the switch of contexts in \<open>fiber.cpp\<close> and the raw pipes and
  descriptors of epoll, which are system calls; functions that only print or log (\<open>Display\<close>, \<open>DPrintf\<close>,
  \<open>metricsDumpLoop\<close>); the rpc controller, which stores an error text; examples, benchmark and tests, which are
  drivers.  Interleavings are those of whole critical sections; data races outside any lock are not part of the model.
\<close>

end
